(* ===== verification/Prelude.thy ===== *)
theory Prelude
  imports Main "HOL-Library.Word"
begin

unbundle bit_operations_syntax

text \<open>
  Shared vocabulary of the development: Rust's fixed-width integers, results that may also be
  a panic, a state-and-result monad for \<^verbatim>\<open>&mut self\<close> methods that return
  \<^verbatim>\<open>Result\<close>, byte-slice reads and writes, little-endian integers and UTF-8.  The lemmas are collected in \<open>res_simps\<close> (results and the monad),
  \<open>slice_simps\<close> (byte slices) and \<open>bits_simps\<close> (packed bit sets).
\<close>

named_theorems res_simps
named_theorems slice_simps
named_theorems bits_simps

type_synonym u8 = "8 word"
type_synonym u16 = "16 word"
type_synonym u32 = "32 word"
type_synonym u64 = "64 word"
type_synonym bytes = "u8 list"

section \<open>Results\<close>

text \<open>
  \<open>Ok\<close> and \<open>Err\<close> are the constructors of Rust's \<^verbatim>\<open>Result\<close>; \<open>Panic\<close> is a
  failed \<^verbatim>\<open>assert!\<close>, an \<^verbatim>\<open>expect\<close> on \<^verbatim>\<open>None\<close> or an index out of bounds (the
  build aborts on panic, so nothing runs after it).
\<close>

datatype ('e, 'a) res = Ok 'a | Err 'e | Panic

fun is_ok :: "('e, 'a) res \<Rightarrow> bool" where
  "is_ok (Ok _) = True"
| "is_ok (Err _) = False"
| "is_ok Panic = False"

fun res_bind :: "('e, 'a) res \<Rightarrow> ('a \<Rightarrow> ('e, 'b) res) \<Rightarrow> ('e, 'b) res" where
  "res_bind (Ok x) f = f x"
| "res_bind (Err e) f = Err e"
| "res_bind Panic f = Panic"

fun res_map :: "('a \<Rightarrow> 'b) \<Rightarrow> ('e, 'a) res \<Rightarrow> ('e, 'b) res" where
  "res_map f (Ok x) = Ok (f x)"
| "res_map f (Err e) = Err e"
| "res_map f Panic = Panic"

text \<open>\<^verbatim>\<open>opt.ok_or(e)\<close>\<close>

definition ok_or :: "'e \<Rightarrow> 'a option \<Rightarrow> ('e, 'a) res" where
  "ok_or e x = (case x of None \<Rightarrow> Err e | Some y \<Rightarrow> Ok y)"

lemma ok_or_simps [simp, res_simps]:
  "ok_or e None = Err e" "ok_or e (Some y) = Ok y"
  by (simp_all add: ok_or_def)

lemma ok_or_eq_Ok [simp, res_simps]: "ok_or e x = Ok y \<longleftrightarrow> x = Some y"
  by (cases x) simp_all

lemma res_bind_cong [fundef_cong]:
  "x = y \<Longrightarrow> (\<And>a. y = Ok a \<Longrightarrow> f a = g a) \<Longrightarrow> res_bind x f = res_bind y g"
  by (cases y) auto

lemma res_bind_eq_Ok [res_simps]:
  "res_bind x f = Ok b \<longleftrightarrow> (\<exists>a. x = Ok a \<and> f a = Ok b)"
  by (cases x) auto

lemma res_map_eq_Ok [res_simps]: "res_map f x = Ok b \<longleftrightarrow> (\<exists>a. x = Ok a \<and> f a = b)"
  by (cases x) auto

section \<open>Checked indexing\<close>

text \<open>\<^verbatim>\<open>v.get(i)\<close>: \<open>None\<close> out of bounds.\<close>

definition nth_opt :: "'a list \<Rightarrow> nat \<Rightarrow> 'a option" where
  "nth_opt xs i = (if i < length xs then Some (xs ! i) else None)"

lemma nth_opt_eq_Some: "nth_opt xs i = Some x \<longleftrightarrow> i < length xs \<and> xs ! i = x"
  by (auto simp: nth_opt_def)

lemma nth_opt_eq_None: "nth_opt xs i = None \<longleftrightarrow> length xs \<le> i"
  by (auto simp: nth_opt_def)

lemma nth_opt_update:
  "nth_opt (xs[i := v]) j = (if i = j \<and> i < length xs then Some v else nth_opt xs j)"
  by (auto simp: nth_opt_def)

lemma nth_opt_snoc:
  "nth_opt (xs @ [v]) j = (if j = length xs then Some v else nth_opt xs j)"
  by (auto simp: nth_opt_def nth_append)

text \<open>\<^verbatim>\<open>iter().position(p)\<close>\<close>

fun position :: "('a \<Rightarrow> bool) \<Rightarrow> 'a list \<Rightarrow> nat option" where
  "position p [] = None"
| "position p (x # xs) = (if p x then Some 0 else map_option Suc (position p xs))"

lemma position_Some:
  "position p xs = Some i \<longleftrightarrow> i < length xs \<and> p (xs ! i) \<and> (\<forall>j < i. \<not> p (xs ! j))"
proof (induction xs arbitrary: i)
  case (Cons x xs)
  show ?case
  proof (cases i)
    case (Suc k)
    then show ?thesis using Cons.IH [of k] by (auto simp: nth_Cons' less_Suc_eq_0_disj split: if_splits)
  qed (auto split: if_splits)
qed simp

lemma position_None: "position p xs = None \<longleftrightarrow> (\<forall>x \<in> set xs. \<not> p x)"
  by (induction xs) auto

lemma position_bound: "position p xs = Some i \<Longrightarrow> i < length xs \<and> p (xs ! i)"
  by (simp add: position_Some)

section \<open>State and result\<close>

text \<open>
  A method \<^verbatim>\<open>fn f(&mut self) -> Result<T>\<close> is a function from the state to its result and
  the state it leaves behind, on every branch: an early \<^verbatim>\<open>?\<close> keeps the mutations made
  before it.
\<close>

type_synonym ('s, 'e, 'a) sm = "'s \<Rightarrow> ('e, 'a) res \<times> 's"

definition retS :: "'a \<Rightarrow> ('s, 'e, 'a) sm" where
  "retS x s = (Ok x, s)"

definition failS :: "'e \<Rightarrow> ('s, 'e, 'a) sm" where
  "failS e s = (Err e, s)"

definition liftS :: "('e, 'a) res \<Rightarrow> ('s, 'e, 'a) sm" where
  "liftS r s = (r, s)"

definition getS :: "('s \<Rightarrow> 'a) \<Rightarrow> ('s, 'e, 'a) sm" where
  "getS f s = (Ok (f s), s)"

definition modS :: "('s \<Rightarrow> 's) \<Rightarrow> ('s, 'e, unit) sm" where
  "modS f s = (Ok (), f s)"

definition bindS :: "('s, 'e, 'a) sm \<Rightarrow> ('a \<Rightarrow> ('s, 'e, 'b) sm) \<Rightarrow> ('s, 'e, 'b) sm" where
  "bindS m f s = (case m s of
      (Ok x, s') \<Rightarrow> f x s'
    | (Err e, s') \<Rightarrow> (Err e, s')
    | (Panic, s') \<Rightarrow> (Panic, s'))"

definition whenS :: "bool \<Rightarrow> ('s, 'e, unit) sm \<Rightarrow> ('s, 'e, unit) sm" where
  "whenS b m = (if b then m else retS ())"

text \<open>A \<^verbatim>\<open>for\<close> loop whose body may fail: it stops at the first error.\<close>

fun forS :: "'a list \<Rightarrow> ('a \<Rightarrow> ('s, 'e, unit) sm) \<Rightarrow> ('s, 'e, unit) sm" where
  "forS [] f = retS ()"
| "forS (x # xs) f = bindS (f x) (\<lambda>_. forS xs f)"

lemma bindS_cong [fundef_cong]:
  assumes "m = m'" and "s = s'" and "\<And>x t. m' s' = (Ok x, t) \<Longrightarrow> f x t = g x t"
  shows "bindS m f s = bindS m' g s'"
  using assms by (auto simp: bindS_def split: prod.splits res.splits)

lemmas sm_defs = retS_def failS_def liftS_def getS_def modS_def bindS_def whenS_def

lemma bindS_Ok:
  "bindS m f s = (Ok y, t) \<longleftrightarrow> (\<exists>x s'. m s = (Ok x, s') \<and> f x s' = (Ok y, t))"
  by (auto simp: bindS_def split: prod.splits res.splits)

lemma bindS_OkE:
  assumes "bindS m f s = (Ok y, t)"
  obtains x s' where "m s = (Ok x, s')" "f x s' = (Ok y, t)"
  using assms by (auto simp: bindS_Ok)

lemma sm_Ok_simps [res_simps]:
  "retS x s = (Ok y, t) \<longleftrightarrow> y = x \<and> t = s"
  "failS e s = (Ok y, t) \<longleftrightarrow> False"
  "liftS r s = (Ok y, t) \<longleftrightarrow> r = Ok y \<and> t = s"
  "getS g s = (Ok y, t) \<longleftrightarrow> y = g s \<and> t = s"
  "modS h s = (Ok u, t) \<longleftrightarrow> t = h s"
  by (auto simp: sm_defs)

section \<open>Byte slices\<close>

text \<open>\<open>slice xs a n\<close> is \<^verbatim>\<open>xs[a..a + n]\<close>; \<open>splice xs a ys\<close> is the buffer after
  \<^verbatim>\<open>xs[a..a + ys.len()].copy_from_slice(ys)\<close>.  Both are used only where the source's range
  is in bounds; elsewhere the source panics and the model says so.\<close>

definition slice :: "'a list \<Rightarrow> nat \<Rightarrow> nat \<Rightarrow> 'a list" where
  "slice xs a n = take n (drop a xs)"

definition splice :: "'a list \<Rightarrow> nat \<Rightarrow> 'a list \<Rightarrow> 'a list" where
  "splice xs a ys = take a xs @ ys @ drop (a + length ys) xs"

lemma length_slice [simp, slice_simps]:
  "length (slice xs a n) = min n (length xs - a)"
  by (simp add: slice_def)

lemma length_splice [simp, slice_simps]:
  "a + length ys \<le> length xs \<Longrightarrow> length (splice xs a ys) = length xs"
  by (simp add: splice_def)

lemma nth_slice [slice_simps]:
  "i < n \<Longrightarrow> a + i < length xs \<Longrightarrow> slice xs a n ! i = xs ! (a + i)"
  by (simp add: slice_def)

lemma nth_splice:
  assumes "a + length ys \<le> length xs" "i < length xs"
  shows "splice xs a ys ! i =
    (if a \<le> i \<and> i < a + length ys then ys ! (i - a) else xs ! i)"
proof -
  have "i < a \<or> (a \<le> i \<and> i < a + length ys) \<or> a + length ys \<le> i" by linarith
  then show ?thesis
    using assms by (auto simp: splice_def nth_append min_def add.assoc)
qed

lemma slice_splice_same [simp, slice_simps]:
  "a + length ys \<le> length xs \<Longrightarrow> n = length ys \<Longrightarrow> slice (splice xs a ys) a n = ys"
  by (rule nth_equalityI) (auto simp: nth_slice nth_splice)

lemma slice_splice_before [slice_simps]:
  assumes "b + n \<le> a" "a + length ys \<le> length xs"
  shows "slice (splice xs a ys) b n = slice xs b n"
  using assms by (intro nth_equalityI) (auto simp: nth_slice nth_splice)

lemma slice_splice_after [slice_simps]:
  assumes "a + length ys \<le> b" "a + length ys \<le> length xs"
  shows "slice (splice xs a ys) b n = slice xs b n"
  using assms by (intro nth_equalityI) (auto simp: nth_slice nth_splice)

lemma slice_splice_disjoint:
  assumes "b + n \<le> a \<or> a + length ys \<le> b" "a + length ys \<le> length xs"
  shows "slice (splice xs a ys) b n = slice xs b n"
  using assms slice_splice_before slice_splice_after by metis

lemma slice_slice [slice_simps]:
  "b + m \<le> n \<Longrightarrow> slice (slice xs a n) b m = slice xs (a + b) m"
  by (simp add: slice_def drop_take min_def add.commute)

lemma slice_all [simp, slice_simps]: "n = length xs \<Longrightarrow> slice xs 0 n = xs"
  by (simp add: slice_def)

lemma slice_replicate [simp, slice_simps]:
  "slice (replicate n x) a m = replicate (min m (n - a)) x"
  by (simp add: slice_def)

lemma slice_map: "slice (map f xs) a n = map f (slice xs a n)"
  by (simp add: slice_def take_map drop_map)

lemma splice_slice_id [simp, slice_simps]:
  "a + n \<le> length xs \<Longrightarrow> splice xs a (slice xs a n) = xs"
  by (rule nth_equalityI) (auto simp: nth_splice nth_slice)

lemma slice_append_left [slice_simps]:
  "a + n \<le> length xs \<Longrightarrow> slice (xs @ ys) a n = slice xs a n"
  by (simp add: slice_def)

lemma slice_append_right [slice_simps]:
  "length xs \<le> a \<Longrightarrow> slice (xs @ ys) a n = slice ys (a - length xs) n"
  by (simp add: slice_def)

text \<open>A sequence of \<^verbatim>\<open>copy_from_slice\<close> calls, one per field of an on-disk record: offset and
  bytes.\<close>

definition write_fields :: "(nat \<times> 'a list) list \<Rightarrow> 'a list \<Rightarrow> 'a list" where
  "write_fields fs buf = fold (\<lambda>(off, b) buf. splice buf off b) fs buf"

text \<open>The fields come in order, do not overlap and end by \<open>lim\<close>.\<close>

fun fields_ok :: "nat \<Rightarrow> nat \<Rightarrow> (nat \<times> 'a list) list \<Rightarrow> bool" where
  "fields_ok pos lim [] = (pos \<le> lim)"
| "fields_ok pos lim ((off, b) # fs) = (pos \<le> off \<and> fields_ok (off + length b) lim fs)"

lemma fields_ok_pos: "fields_ok pos lim fs \<Longrightarrow> pos \<le> lim"
  by (induction pos lim fs rule: fields_ok.induct) auto

lemma fields_ok_bounds: "fields_ok pos lim fs \<Longrightarrow> (off, b) \<in> set fs \<Longrightarrow> pos \<le> off \<and> off + length b \<le> lim"
  by (induction pos lim fs rule: fields_ok.induct) (auto dest: fields_ok_pos)

lemma length_write_fields [simp, slice_simps]:
  "fields_ok pos (length buf) fs \<Longrightarrow> length (write_fields fs buf) = length buf"
proof (induction fs arbitrary: pos buf)
  case (Cons f fs)
  obtain off b where f: "f = (off, b)" by fastforce
  with Cons.prems have ok: "fields_ok (off + length b) (length buf) fs" by simp
  then have "length (splice buf off b) = length buf" by (auto dest: fields_ok_pos)
  with Cons.IH [of "off + length b" "splice buf off b"] ok f show ?case by (simp add: write_fields_def)
qed (simp add: write_fields_def)

lemma slice_write_fields_out:
  "fields_ok pos (length buf) fs \<Longrightarrow> a + n \<le> pos \<Longrightarrow> slice (write_fields fs buf) a n = slice buf a n"
proof (induction fs arbitrary: pos buf)
  case (Cons f fs)
  obtain off b where f: "f = (off, b)" by fastforce
  with Cons.prems have ok: "fields_ok (off + length b) (length buf) fs" "a + n \<le> off" by simp_all
  then have l: "off + length b \<le> length buf" by (auto dest: fields_ok_pos)
  have "slice (write_fields fs (splice buf off b)) a n = slice (splice buf off b) a n"
    using ok l by (intro Cons.IH [of "off + length b"]) simp_all
  also have "\<dots> = slice buf a n" using ok(2) l by (simp add: slice_splice_before)
  finally show ?case using f by (simp add: write_fields_def)
qed (simp add: write_fields_def)

lemma slice_write_fields:
  "fields_ok pos (length buf) fs \<Longrightarrow> (off, b) \<in> set fs \<Longrightarrow> slice (write_fields fs buf) off (length b) = b"
proof (induction fs arbitrary: pos buf)
  case (Cons f fs)
  obtain off' b' where f: "f = (off', b')" by fastforce
  with Cons.prems have ok: "fields_ok (off' + length b') (length buf) fs" by simp
  then have l: "off' + length b' \<le> length buf" by (auto dest: fields_ok_pos)
  show ?case
  proof (cases "(off, b) \<in> set fs")
    case True
    have "slice (write_fields fs (splice buf off' b')) off (length b) = b"
      using ok l True by (intro Cons.IH [of "off' + length b'"]) simp_all
    then show ?thesis using f by (simp add: write_fields_def)
  next
    case False
    then have [simp]: "off' = off" "b' = b" using Cons.prems(2) f by auto
    have "slice (write_fields fs (splice buf off b)) off (length b) = slice (splice buf off b) off (length b)"
      using ok l by (intro slice_write_fields_out [of "off + length b"]) simp_all
    then show ?thesis using f l by (simp add: write_fields_def)
  qed
qed simp

lemma slice_field:
  "(off, b) \<in> set fs \<Longrightarrow> fields_ok 0 (length buf) fs \<Longrightarrow> n = length b \<Longrightarrow> slice (write_fields fs buf) off n = b"
  using slice_write_fields by blast

lemma slice_write_fields_after:
  "fields_ok pos lim fs \<Longrightarrow> lim \<le> length buf \<Longrightarrow> lim \<le> a
    \<Longrightarrow> slice (write_fields fs buf) a n = slice buf a n"
proof (induction fs arbitrary: pos buf)
  case (Cons f fs)
  obtain off b where f: "f = (off, b)" by fastforce
  with Cons.prems have ok: "fields_ok (off + length b) lim fs" by simp
  then have l: "off + length b \<le> lim" by (auto dest: fields_ok_pos)
  have "slice (write_fields fs (splice buf off b)) a n = slice (splice buf off b) a n"
    using ok l Cons.prems by (intro Cons.IH [of "off + length b"]) simp_all
  also have "\<dots> = slice buf a n" using l Cons.prems by (simp add: slice_splice_after)
  finally show ?case using f by (simp add: write_fields_def)
qed (simp add: write_fields_def)

lemma update_splice: "i < length xs \<Longrightarrow> xs[i := v] = splice xs i [v]"
  by (simp add: splice_def upd_conv_take_nth_drop)

lemma slice_sub:
  assumes "slice xs a n = slice ys a n" "a \<le> b" "b + m \<le> a + n"
  shows "slice xs b m = slice ys b m"
proof -
  have "slice zs b m = slice (slice zs a n) (b - a) m" for zs :: "'a list"
    using assms(2,3) by (simp add: slice_slice)
  then show ?thesis by (simp add: assms(1))
qed

lemma nth_sub:
  assumes "slice xs a n = slice ys a n" "a \<le> b" "b < a + n" "b < length xs" "b < length ys"
  shows "xs ! b = ys ! b"
proof -
  have "zs ! b = slice zs a n ! (b - a)" if "b < length zs" for zs :: "'a list"
    using assms(2,3) that by (simp add: nth_slice)
  with assms(1,4,5) show ?thesis by metis
qed

section \<open>Little-endian integers\<close>

text \<open>\<open>le_bytes n w\<close> is the first \<open>n\<close> bytes of \<^verbatim>\<open>to_le_bytes\<close>, \<open>le_word\<close> is
  \<^verbatim>\<open>from_le_bytes\<close>.\<close>

fun le_bytes :: "nat \<Rightarrow> 'a::len word \<Rightarrow> bytes" where
  "le_bytes 0 w = []"
| "le_bytes (Suc n) w = ucast w # le_bytes n (drop_bit 8 w)"

fun le_word :: "bytes \<Rightarrow> 'a::len word" where
  "le_word [] = 0"
| "le_word (b # bs) = (ucast b OR push_bit 8 (le_word bs))"

lemma length_le_bytes [simp, slice_simps]: "length (le_bytes n w) = n"
  by (induction n arbitrary: w) simp_all

lemma le_word_le_bytes_take: "le_word (le_bytes n w) = take_bit (8 * n) (w :: 'a::len word)"
proof (induction n arbitrary: w)
  case 0
  show ?case by simp
next
  case (Suc n)
  show ?case
    by (rule bit_word_eqI)
      (auto simp: Suc bit_or_iff bit_push_bit_iff bit_take_bit_iff bit_drop_bit_eq
        bit_ucast_iff dest: bit_imp_le_length)
qed

lemma le_word_le_bytes [simp, slice_simps]:
  "8 * n = LENGTH('a) \<Longrightarrow> le_word (le_bytes n w) = (w :: 'a::len word)"
  by (simp add: le_word_le_bytes_take)

lemma le_word_bits: "bit (le_word bs :: 'a::len word) k \<Longrightarrow> k < 8 * length bs"
proof (induction bs arbitrary: k)
  case (Cons b bs)
  then show ?case
    by (fastforce simp: bit_or_iff bit_push_bit_iff bit_ucast_iff dest: bit_imp_le_length)
qed simp

lemma take_bit_le_word: "8 * length bs \<le> k \<Longrightarrow> take_bit k (le_word bs :: 'a::len word) = le_word bs"
  by (rule bit_word_eqI) (auto simp: bit_take_bit_iff dest: le_word_bits)

lemma le_bytes_le_word:
  "8 * length bs = LENGTH('a) \<Longrightarrow> le_bytes (length bs) (le_word bs :: 'a::len word) = bs"
proof -
  have "8 * length bs \<le> LENGTH('a) \<Longrightarrow> le_bytes (length bs) (le_word bs :: 'a::len word) = bs" for bs
  proof (induction bs)
    case Nil
    show ?case by simp
  next
    case (Cons b bs)
    have "ucast (ucast b OR push_bit 8 (le_word bs) :: 'a word) = b"
      using Cons.prems
      by (intro bit_word_eqI) (auto simp: bit_ucast_iff bit_or_iff bit_push_bit_iff)
    moreover have "drop_bit 8 (ucast b OR push_bit 8 (le_word bs) :: 'a word)
        = take_bit (LENGTH('a) - 8) (le_word bs)"
      by (rule bit_word_eqI)
        (auto simp: bit_drop_bit_eq bit_or_iff bit_push_bit_iff bit_ucast_iff bit_take_bit_iff
          dest: bit_imp_le_length)
    ultimately show ?case using Cons by (simp add: take_bit_le_word)
  qed
  then show "8 * length bs = LENGTH('a) \<Longrightarrow> ?thesis" by simp
qed

section \<open>UTF-8\<close>

text \<open>\<^verbatim>\<open>core::str::from_utf8\<close> accepts a byte sequence iff it is well-formed UTF-8: no overlong form,
  no surrogate, nothing above U+10FFFF.\<close>

definition utf8_cont :: "u8 \<Rightarrow> bool" where
  "utf8_cont b \<longleftrightarrow> 0x80 \<le> b \<and> b \<le> 0xBF"

fun utf8_ok :: "bytes \<Rightarrow> bool" where
  "utf8_ok [] = True"
| "utf8_ok (b # r) =
     (if b < 0x80 then utf8_ok r
      else if 0xC2 \<le> b \<and> b \<le> 0xDF
      then (case r of c # r1 \<Rightarrow> utf8_cont c \<and> utf8_ok r1 | _ \<Rightarrow> False)
      else if 0xE0 \<le> b \<and> b \<le> 0xEF
      then (case r of c # d # r2 \<Rightarrow>
              utf8_cont c \<and> utf8_cont d \<and> (b = 0xE0 \<longrightarrow> 0xA0 \<le> c) \<and> (b = 0xED \<longrightarrow> c \<le> 0x9F) \<and> utf8_ok r2
            | _ \<Rightarrow> False)
      else if 0xF0 \<le> b \<and> b \<le> 0xF4
      then (case r of c # d # e # r3 \<Rightarrow>
              utf8_cont c \<and> utf8_cont d \<and> utf8_cont e \<and> (b = 0xF0 \<longrightarrow> 0x90 \<le> c)
              \<and> (b = 0xF4 \<longrightarrow> c \<le> 0x8F) \<and> utf8_ok r3
            | _ \<Rightarrow> False)
      else False)"

end
