(* ===== verification/Slot_Table.thy ===== *)
theory Slot_Table
  imports Prelude
begin

unbundle bit_operations_syntax

text \<open>
  Generation-tagged slot tables.  The kernel object table and every per-task capability table
  of \<^verbatim>\<open>kernel/src/cap.rs\<close> are vectors of slots; a handle packs a slot index and the
  generation the slot had when it was filled.  This theory holds the handle encoding, the slot
  and the scan for a vacant slot, and the interface \<open>handle_table\<close> both tables implement.
\<close>

named_theorems slot_simps

section \<open>Handles\<close>

text \<open>\<^verbatim>\<open>CapHandle::pack\<close>, \<^verbatim>\<open>index\<close>, \<^verbatim>\<open>generation\<close> (and the identical
  functions of \<^verbatim>\<open>KernelObjectRef\<close>).\<close>

definition pack :: "u32 \<Rightarrow> u32 \<Rightarrow> u64" where
  "pack idx gen = (push_bit 32 (ucast gen) OR ucast idx)"

definition h_index :: "u64 \<Rightarrow> nat" where
  "h_index h = unat (h AND 0xFFFFFFFF)"

definition h_generation :: "u64 \<Rightarrow> u32" where
  "h_generation h = ucast (drop_bit 32 h)"

lemma low_mask: "(h::u64) AND 0xFFFFFFFF = take_bit 32 h"
proof -
  have "mask 32 = (0xFFFFFFFF :: u64)" by (simp add: mask_eq_exp_minus_1)
  then show ?thesis by (metis take_bit_eq_mask)
qed

lemma unat_ucast_u32_u64: "unat (ucast (i::u32) :: u64) = unat i"
proof -
  have "unat i < 2 ^ 32" using unsigned_less [of i] by simp
  then show ?thesis by (simp add: unsigned_ucast_eq take_bit_nat_eq_self)
qed

lemma h_index_pack [simp, slot_simps]: "h_index (pack i g) = unat i"
proof -
  have "take_bit 32 (pack i g) = ucast i"
    by (rule bit_word_eqI)
      (auto simp: pack_def bit_take_bit_iff bit_or_iff bit_push_bit_iff bit_ucast_iff
        dest: bit_imp_le_length)
  then show ?thesis by (simp add: h_index_def low_mask unat_ucast_u32_u64)
qed

lemma h_generation_pack [simp, slot_simps]: "h_generation (pack i g) = g"
  by (rule bit_word_eqI)
    (auto simp: pack_def h_generation_def bit_or_iff bit_push_bit_iff bit_ucast_iff
      bit_drop_bit_eq dest: bit_imp_le_length)

lemma h_index_bound: "h_index h < 2 ^ 32"
  by (simp only: h_index_def low_mask unsigned_take_bit_eq take_bit_nat_less_exp)

lemma pack_index_generation: "pack (of_nat (h_index h)) (h_generation h) = h"
proof -
  have "(of_nat (h_index h) :: u32) = ucast (take_bit 32 h)"
    by (simp add: h_index_def low_mask)
  then show ?thesis
    by (intro bit_word_eqI)
      (auto simp: pack_def h_generation_def bit_or_iff bit_push_bit_iff bit_ucast_iff
        bit_drop_bit_eq bit_take_bit_iff dest: bit_imp_le_length)
qed

lemma handle_eqI: "h_index h = h_index k \<Longrightarrow> h_generation h = h_generation k \<Longrightarrow> h = k"
  by (metis pack_index_generation)

lemma handle_neq: "h \<noteq> k \<Longrightarrow> h_index h = h_index k \<Longrightarrow> h_generation h \<noteq> h_generation k"
  using handle_eqI by blast

section \<open>Slots\<close>

record 'a slot =
  slot_gen :: u32
  slot_val :: "'a option"

text \<open>The loop that reuses the first vacant slot: bump its generation, fill it, return its
  handle; \<open>None\<close> when every slot is occupied.\<close>

fun reuse_vacant :: "'a \<Rightarrow> nat \<Rightarrow> 'a slot list \<Rightarrow> (u64 \<times> 'a slot list) option" where
  "reuse_vacant v i [] = None"
| "reuse_vacant v i (s # ss) =
     (if slot_val s = None
      then Some (pack (of_nat i) (slot_gen s + 1),
                 \<lparr>slot_gen = slot_gen s + 1, slot_val = Some v\<rparr> # ss)
      else map_option (\<lambda>(h, ss'). (h, s # ss')) (reuse_vacant v (Suc i) ss))"

text \<open>What a handle denotes: the occupant of its slot, if the generations agree.\<close>

definition resolve :: "'a slot list \<Rightarrow> u64 \<Rightarrow> 'a option" where
  "resolve ss h = (case nth_opt ss (h_index h) of
      None \<Rightarrow> None
    | Some s \<Rightarrow> if slot_gen s \<noteq> h_generation h then None else slot_val s)"

text \<open>Vacate the slot a handle names.\<close>

definition vacate :: "u64 \<Rightarrow> 'a slot list \<Rightarrow> 'a slot list" where
  "vacate h ss = (case nth_opt ss (h_index h) of
      None \<Rightarrow> ss
    | Some s \<Rightarrow> if slot_gen s \<noteq> h_generation h then ss
                else ss[h_index h := s\<lparr>slot_val := None\<rparr>])"

lemma resolve_Some_iff:
  "resolve ss h = Some v \<longleftrightarrow> h_index h < length ss
     \<and> slot_gen (ss ! h_index h) = h_generation h \<and> slot_val (ss ! h_index h) = Some v"
  by (auto simp: resolve_def nth_opt_def split: if_splits)

lemma resolve_update_slot:
  assumes "i < length ss"
  shows "resolve (ss[i := s]) h =
    (if h_index h = i then (if slot_gen s \<noteq> h_generation h then None else slot_val s)
     else resolve ss h)"
  using assms by (auto simp: resolve_def nth_opt_def)

lemma resolve_snoc:
  "resolve (ss @ [s]) h =
    (if h_index h = length ss then (if slot_gen s \<noteq> h_generation h then None else slot_val s)
     else resolve ss h)"
  by (auto simp: resolve_def nth_opt_snoc)

lemma resolve_vacate:
  "resolve (vacate h ss) k = (if k = h then None else resolve ss k)"
proof (cases "h_index k = h_index h")
  case True
  then show ?thesis
    by (auto simp: vacate_def resolve_def nth_opt_def dest: handle_neq)
next
  case False
  then show ?thesis by (auto simp: vacate_def resolve_def nth_opt_def)
qed

lemma length_vacate [simp, slot_simps]: "length (vacate h ss) = length ss"
  by (auto simp: vacate_def split: option.splits)

text \<open>The scan, characterised: it fills the first vacant slot.\<close>

lemma reuse_vacant_None: "reuse_vacant v i ss = None \<longleftrightarrow> (\<forall>s \<in> set ss. slot_val s \<noteq> None)"
  by (induction v i ss rule: reuse_vacant.induct) auto

lemma reuse_vacant_Some:
  assumes "reuse_vacant v i ss = Some (h, ss')"
  obtains k where "k < length ss" "slot_val (ss ! k) = None"
    "h = pack (of_nat (i + k)) (slot_gen (ss ! k) + 1)"
    "ss' = ss[k := \<lparr>slot_gen = slot_gen (ss ! k) + 1, slot_val = Some v\<rparr>]"
  using assms
proof (induction v i ss arbitrary: ss' thesis rule: reuse_vacant.induct)
  case (1 v i)
  then show ?case by simp
next
  case (2 v i s ss)
  show ?case
  proof (cases "slot_val s = None")
    case True
    with "2.prems" show ?thesis by (intro "2.prems"(1) [of 0]) auto
  next
    case False
    with "2.prems" obtain ss1 where 1: "reuse_vacant v (Suc i) ss = Some (h, ss1)" "ss' = s # ss1"
      by auto
    from "2.IH" [OF False _ 1(1)] obtain k where
      "k < length ss" "slot_val (ss ! k) = None"
      "h = pack (of_nat (Suc i + k)) (slot_gen (ss ! k) + 1)"
      "ss1 = ss[k := \<lparr>slot_gen = slot_gen (ss ! k) + 1, slot_val = Some v\<rparr>]"
      by blast
    with 1(2) show ?thesis by (intro "2.prems"(1) [of "Suc k"]) auto
  qed
qed

lemma unat_of_nat_u32: "k < 2 ^ 32 \<Longrightarrow> unat (of_nat k :: u32) = k"
  by (simp add: unsigned_of_nat take_bit_nat_eq_self)

lemma reuse_vacant_resolve:
  assumes "reuse_vacant v 0 ss = Some (h, ss')" and "length ss \<le> 2 ^ 32"
  shows "resolve ss h = None" and "resolve ss' k = (if k = h then Some v else resolve ss k)"
    and "length ss' = length ss"
proof -
  obtain j where j: "j < length ss" "slot_val (ss ! j) = None"
    "h = pack (of_nat j) (slot_gen (ss ! j) + 1)"
    "ss' = ss[j := \<lparr>slot_gen = slot_gen (ss ! j) + 1, slot_val = Some v\<rparr>]"
    using reuse_vacant_Some [OF assms(1)] by auto
  have idx: "h_index h = j" and gen: "h_generation h = slot_gen (ss ! j) + 1"
    using j assms(2) by (simp_all add: unat_of_nat_u32)
  show "resolve ss h = None"
    using j idx by (auto simp: resolve_def nth_opt_def)
  show "resolve ss' k = (if k = h then Some v else resolve ss k)"
  proof (cases "h_index k = j")
    case True
    then show ?thesis
      using j idx gen handle_neq [of k h]
      by (auto simp: resolve_update_slot resolve_def nth_opt_def pack_index_generation)
  next
    case False
    then show ?thesis using j idx by (auto simp: resolve_update_slot)
  qed
  show "length ss' = length ss" using j by simp
qed

lemma append_resolve:
  assumes "length ss < 2 ^ 32"
  defines "h \<equiv> pack (of_nat (length ss)) 0"
  shows "resolve ss h = None"
    and "resolve (ss @ [\<lparr>slot_gen = 0, slot_val = Some v\<rparr>]) k
      = (if k = h then Some v else resolve ss k)"
proof -
  have idx: "h_index h = length ss" and gen: "h_generation h = 0"
    using assms by (simp_all add: unat_of_nat_u32)
  show "resolve ss h = None" using idx by (simp add: resolve_def nth_opt_def)
  then show "resolve (ss @ [\<lparr>slot_gen = 0, slot_val = Some v\<rparr>]) k
      = (if k = h then Some v else resolve ss k)"
    using idx gen by (auto simp: resolve_snoc handle_eqI) (simp add: resolve_def nth_opt_def)
qed

section \<open>The interface of a handle table\<close>

text \<open>
  What the rest of the kernel relies on: a handle is a key of a finite partial map.  A table
  with room gives a fresh handle for what it stores and leaves every other handle alone;
  removing a handle removes that one only.
\<close>

locale handle_table =
  fixes tinsert :: "'v \<Rightarrow> 't \<Rightarrow> u64 \<times> 't"
    and tlookup :: "'t \<Rightarrow> u64 \<Rightarrow> 'v option"
    and tremove :: "u64 \<Rightarrow> 't \<Rightarrow> 't"
    and room :: "'t \<Rightarrow> bool"
  assumes insert_fresh: "room t \<Longrightarrow> tinsert v t = (h, t') \<Longrightarrow> tlookup t h = None"
    and insert_lookup: "room t \<Longrightarrow> tinsert v t = (h, t') \<Longrightarrow>
      tlookup t' k = (if k = h then Some v else tlookup t k)"
    and remove_lookup: "tlookup (tremove h t) k = (if k = h then None else tlookup t k)"
begin

lemma insert_dom:
  assumes "room t" "tinsert v t = (h, t')"
  shows "dom (tlookup t') = insert h (dom (tlookup t))"
  using insert_lookup [OF assms] by (auto simp: dom_def)

lemma insert_remove:
  assumes "room t" "tinsert v t = (h, t')"
  shows "tlookup (tremove h t') = tlookup t"
  using insert_lookup [OF assms] insert_fresh [OF assms] by (auto simp: remove_lookup)

lemma insert_keeps:
  assumes "room t" "tinsert v t = (h, t')" "tlookup t k = Some w"
  shows "tlookup t' k = Some w" and "k \<noteq> h"
  using insert_lookup [OF assms(1,2), of k] insert_fresh [OF assms(1,2)] assms(3)
  by (auto split: if_splits)

lemma two_inserts_differ:
  assumes "room t" "tinsert v t = (h, t')" "room t'" "tinsert w t' = (k, t'')"
  shows "h \<noteq> k" and "tlookup t'' h = Some v" and "tlookup t'' k = Some w"
proof -
  have h: "tlookup t' h = Some v" using insert_lookup [OF assms(1,2)] by simp
  from insert_keeps [OF assms(3,4) h] show "tlookup t'' h = Some v" "h \<noteq> k" by auto
  show "tlookup t'' k = Some w" using insert_lookup [OF assms(3,4)] by simp
qed

end

section \<open>Stale handles\<close>

text \<open>
  A handle whose slot was vacated resolves again only after its slot has been refilled
  \<open>2 ^ 32\<close> times: the slot's generation has then come round.  A run is any sequence of
  inserts and removals.
\<close>

datatype 'a slot_op = SInsert 'a | SRemove u64

text \<open>The scan for a vacant slot, then an append when there is none.\<close>

definition slot_insert :: "'a \<Rightarrow> 'a slot list \<Rightarrow> u64 \<times> 'a slot list" where
  "slot_insert v ss = (case reuse_vacant v 0 ss of
      Some r \<Rightarrow> r
    | None \<Rightarrow> (pack (of_nat (length ss)) 0, ss @ [\<lparr>slot_gen = 0, slot_val = Some v\<rparr>]))"

fun slot_step :: "'a slot_op \<Rightarrow> 'a slot list \<Rightarrow> 'a slot list" where
  "slot_step (SInsert v) ss = snd (slot_insert v ss)"
| "slot_step (SRemove h) ss = vacate h ss"

definition slot_run :: "'a slot_op list \<Rightarrow> 'a slot list \<Rightarrow> 'a slot list" where
  "slot_run ops ss = fold slot_step ops ss"

fun is_insert :: "'a slot_op \<Rightarrow> bool" where
  "is_insert (SInsert _) = True"
| "is_insert (SRemove _) = False"

definition has_room :: "'a slot list \<Rightarrow> bool" where
  "has_room ss \<longleftrightarrow> length ss < 2 ^ 32 \<or> (length ss = 2 ^ 32 \<and> (\<exists>s \<in> set ss. slot_val s = None))"

lemma slot_insert_resolve:
  assumes "has_room ss" "slot_insert v ss = (h, ss')"
  shows "resolve ss h = None" and "resolve ss' k = (if k = h then Some v else resolve ss k)"
proof -
  have "resolve ss h = None \<and> resolve ss' k = (if k = h then Some v else resolve ss k)"
  proof (cases "reuse_vacant v 0 ss")
    case None
    then have "length ss < 2 ^ 32"
      using assms(1) by (auto simp: has_room_def reuse_vacant_None)
    then show ?thesis
      using assms(2) None append_resolve [of ss] by (auto simp: slot_insert_def)
  next
    case (Some r)
    then have "reuse_vacant v 0 ss = Some (h, ss')"
      using assms(2) by (simp add: slot_insert_def)
    moreover have "length ss \<le> 2 ^ 32" using assms(1) by (auto simp: has_room_def)
    ultimately show ?thesis by (simp add: reuse_vacant_resolve)
  qed
  then show "resolve ss h = None" "resolve ss' k = (if k = h then Some v else resolve ss k)"
    by auto
qed

text \<open>\<open>aged i g k ss\<close>: slot \<open>i\<close> has been refilled at most \<open>k\<close> times since it was vacant
  at generation \<open>g\<close>.\<close>

definition aged :: "nat \<Rightarrow> u32 \<Rightarrow> nat \<Rightarrow> 'a slot list \<Rightarrow> bool" where
  "aged i g k ss \<longleftrightarrow> i < length ss \<and>
     (\<exists>j \<le> k. slot_gen (ss ! i) = g + of_nat j \<and> (j = 0 \<longrightarrow> slot_val (ss ! i) = None))"

lemma aged_step:
  assumes "aged i g k ss"
  shows "aged i g (if is_insert p then Suc k else k) (slot_step p ss)"
proof -
  from assms obtain j where j: "i < length ss" "j \<le> k" "slot_gen (ss ! i) = g + of_nat j"
    "j = 0 \<longrightarrow> slot_val (ss ! i) = None" by (auto simp: aged_def)
  show ?thesis
  proof (cases p)
    case (SInsert v)
    show ?thesis
    proof (cases "reuse_vacant v 0 ss")
      case None
      then show ?thesis
        using j SInsert by (auto simp: slot_insert_def aged_def nth_append intro!: exI [of _ j])
    next
      case (Some r)
      then obtain m where m: "m < length ss" "slot_val (ss ! m) = None"
        "snd r = ss[m := \<lparr>slot_gen = slot_gen (ss ! m) + 1, slot_val = Some v\<rparr>]"
        by (metis prod.collapse reuse_vacant_Some)
      show ?thesis
      proof (cases "m = i")
        case True
        then show ?thesis
          using j m SInsert Some
          by (auto simp: slot_insert_def aged_def intro!: exI [of _ "Suc j"])
      next
        case False
        then show ?thesis
          using j m SInsert Some by (auto simp: slot_insert_def aged_def intro!: exI [of _ j])
      qed
    qed
  next
    case (SRemove h)
    then show ?thesis
      using j
      by (cases "h_index h = i")
        (auto simp: aged_def vacate_def nth_opt_def intro!: exI [of _ j] split: option.splits)
  qed
qed

lemma aged_run:
  "aged i g k ss \<Longrightarrow> aged i g (k + length (filter is_insert ops)) (slot_run ops ss)"
proof (induction ops arbitrary: k ss)
  case Nil
  then show ?case by (simp add: slot_run_def)
next
  case (Cons p ops)
  from Cons.IH [OF aged_step [OF Cons.prems, of p]]
  show ?case by (auto simp: slot_run_def split: if_splits)
qed

lemma aged_unresolved:
  assumes "aged (h_index h) (h_generation h) k ss" "k < 2 ^ 32"
  shows "resolve ss h = None"
proof -
  from assms obtain j where j: "h_index h < length ss" "j < 2 ^ 32"
    "slot_gen (ss ! h_index h) = h_generation h + of_nat j"
    "j = 0 \<longrightarrow> slot_val (ss ! h_index h) = None" unfolding aged_def by (meson le_less_trans)
  show ?thesis
  proof (cases "j = 0")
    case True
    with j show ?thesis by (auto simp: resolve_def nth_opt_def)
  next
    case False
    have "unat (of_nat j :: u32) = j" using j(2) by (rule unat_of_nat_u32)
    with False have "(of_nat j :: u32) \<noteq> 0" by (metis unat_0)
    with j(1,3) show ?thesis by (simp add: resolve_def nth_opt_def)
  qed
qed

end
