(* ===== verification/Cap.thy ===== *)
theory Cap
  imports Slot_Table
begin

unbundle bit_operations_syntax

text \<open>
  The capability system of \<^verbatim>\<open>kernel/src/cap.rs\<close>, with the two capability system calls of
  \<^verbatim>\<open>kernel/src/syscall.rs\<close> that drive it.  A task's capability table is a list of slots; the
  tables of all tasks are the scheduler's task list, searched by task id; the counter behind
  \<^verbatim>\<open>alloc_cap_id\<close> is passed explicitly.
\<close>

section \<open>Data\<close>

datatype cap_kind = KindMemory | KindIpc | KindDevice | KindRollback | KindFilesystem

datatype kernel_object =
    ObjMemory u64 u64
  | ObjIpc nat
  | ObjDevice nat
  | ObjRollback
  | ObjFilesystem

datatype cap_error = InvalidHandle | GenerationMismatch | NoGrant | NoRevoke | NoMemory

type_synonym cap_rights = u8

definition READ :: cap_rights where "READ = 1"
definition WRITE :: cap_rights where "WRITE = 2"
definition GRANT :: cap_rights where "GRANT = 4"
definition REVOKE :: cap_rights where "REVOKE = 8"
definition RIGHTS_ALL :: cap_rights where "RIGHTS_ALL = 15"

definition rights_has :: "cap_rights \<Rightarrow> cap_rights \<Rightarrow> bool" where
  "rights_has r q \<longleftrightarrow> r AND q = q"

definition rights_intersect :: "cap_rights \<Rightarrow> cap_rights \<Rightarrow> cap_rights" where
  "rights_intersect r q = (r AND q)"

record capability =
  cid :: u64
  kind :: cap_kind
  rights :: cap_rights
  object :: u64
  parent_id :: "u64 option"
  children :: "(u64 \<times> u64) list"

type_synonym cap_table = "capability slot list"
type_synonym ko_table = "kernel_object slot list"

section \<open>The kernel object table\<close>

definition ko_create :: "kernel_object \<Rightarrow> ko_table \<Rightarrow> (cap_error, u64) res \<times> ko_table" where
  "ko_create obj ss = (case reuse_vacant obj 0 ss of
      Some (r, ss') \<Rightarrow> (Ok r, ss')
    | None \<Rightarrow> if length ss > 2 ^ 32 - 1 then (Err NoMemory, ss)
              else (Ok (pack (of_nat (length ss)) 0),
                    ss @ [\<lparr>slot_gen = 0, slot_val = Some obj\<rparr>]))"

definition ko_get :: "ko_table \<Rightarrow> u64 \<Rightarrow> kernel_object option" where
  "ko_get ss r = (case nth_opt ss (h_index r) of
      None \<Rightarrow> None
    | Some s \<Rightarrow> if slot_gen s \<noteq> h_generation r then None else slot_val s)"

definition ko_destroy :: "u64 \<Rightarrow> ko_table \<Rightarrow> (cap_error, unit) res \<times> ko_table" where
  "ko_destroy r ss = (case nth_opt ss (h_index r) of
      None \<Rightarrow> (Err InvalidHandle, ss)
    | Some s \<Rightarrow> if slot_gen s \<noteq> h_generation r then (Err GenerationMismatch, ss)
                else (Ok (), ss[h_index r := s\<lparr>slot_val := None\<rparr>]))"

section \<open>The capability table\<close>

definition cap_insert :: "capability \<Rightarrow> cap_table \<Rightarrow> u64 \<times> cap_table" where
  "cap_insert cap ss = (case reuse_vacant cap 0 ss of
      Some r \<Rightarrow> r
    | None \<Rightarrow> (pack (of_nat (length ss)) 0, ss @ [\<lparr>slot_gen = 0, slot_val = Some cap\<rparr>]))"

definition cap_get :: "cap_table \<Rightarrow> u64 \<Rightarrow> (cap_error, capability) res" where
  "cap_get ss h = (case nth_opt ss (h_index h) of
      None \<Rightarrow> Err InvalidHandle
    | Some s \<Rightarrow> if slot_gen s \<noteq> h_generation h then Err GenerationMismatch
                else ok_or InvalidHandle (slot_val s))"

text \<open>\<^verbatim>\<open>get_mut\<close> followed by an update of the borrowed capability.\<close>

definition cap_get_mut ::
  "(capability \<Rightarrow> capability) \<Rightarrow> u64 \<Rightarrow> cap_table \<Rightarrow> (cap_error, unit) res \<times> cap_table" where
  "cap_get_mut f h ss = (case nth_opt ss (h_index h) of
      None \<Rightarrow> (Err InvalidHandle, ss)
    | Some s \<Rightarrow> if slot_gen s \<noteq> h_generation h then (Err GenerationMismatch, ss)
                else (case slot_val s of
                    None \<Rightarrow> (Err InvalidHandle, ss)
                  | Some c \<Rightarrow> (Ok (), ss[h_index h := s\<lparr>slot_val := Some (f c)\<rparr>])))"

definition cap_take :: "u64 \<Rightarrow> cap_table \<Rightarrow> (cap_error, capability) res \<times> cap_table" where
  "cap_take h ss = (case nth_opt ss (h_index h) of
      None \<Rightarrow> (Err InvalidHandle, ss)
    | Some s \<Rightarrow> if slot_gen s \<noteq> h_generation h then (Err GenerationMismatch, ss)
                else (ok_or InvalidHandle (slot_val s), ss[h_index h := s\<lparr>slot_val := None\<rparr>]))"

definition has_kind :: "cap_table \<Rightarrow> cap_kind \<Rightarrow> bool" where
  "has_kind ss k = list_ex (\<lambda>s. case slot_val s of None \<Rightarrow> False | Some c \<Rightarrow> kind c = k) ss"

definition has_kind_with_rights :: "cap_table \<Rightarrow> cap_kind \<Rightarrow> cap_rights \<Rightarrow> bool" where
  "has_kind_with_rights ss k r =
     list_ex (\<lambda>s. case slot_val s of None \<Rightarrow> False
                | Some c \<Rightarrow> kind c = k \<and> rights_has (rights c) r) ss"

definition find_children :: "cap_table \<Rightarrow> u64 \<Rightarrow> u64 list" where
  "find_children ss pid = List.map_filter
     (\<lambda>(i, s). case slot_val s of None \<Rightarrow> None
        | Some c \<Rightarrow> if parent_id c = Some pid then Some (pack (of_nat i) (slot_gen s)) else None)
     (zip [0..<length ss] ss)"

section \<open>Operations\<close>

text \<open>Each takes and returns the counter behind \<^verbatim>\<open>alloc_cap_id\<close>.\<close>

definition create_root_cap ::
  "u64 \<Rightarrow> cap_table \<Rightarrow> cap_kind \<Rightarrow> cap_rights \<Rightarrow> u64 \<Rightarrow> u64 \<times> u64 \<times> cap_table" where
  "create_root_cap nid ss k r obj =
     (let (h, ss') = cap_insert \<lparr>cid = nid, kind = k, rights = r, object = obj,
                                 parent_id = None, children = []\<rparr> ss
      in (h, nid + 1, ss'))"

definition cap_grant ::
  "u64 \<Rightarrow> cap_table \<Rightarrow> u64 \<Rightarrow> u64 \<Rightarrow> cap_table \<Rightarrow> cap_rights
     \<Rightarrow> (cap_error, u64) res \<times> u64 \<times> cap_table \<times> cap_table" where
  "cap_grant nid from h to_task_id to rmask = (case cap_get from h of
      Err e \<Rightarrow> (Err e, nid, from, to)
    | Panic \<Rightarrow> (Panic, nid, from, to)
    | Ok cap \<Rightarrow>
        if \<not> rights_has (rights cap) GRANT then (Err NoGrant, nid, from, to)
        else (let derived = \<lparr>cid = nid, kind = kind cap,
                             rights = rights_intersect (rights cap) rmask, object = object cap,
                             parent_id = Some (cid cap), children = []\<rparr>;
                  (new_handle, to') = cap_insert derived to
              in (case cap_get_mut (\<lambda>c. c\<lparr>children := children c @ [(to_task_id, new_handle)]\<rparr>) h from of
                    (Ok _, from') \<Rightarrow> (Ok new_handle, nid + 1, from', to')
                  | (Err e, from') \<Rightarrow> (Err e, nid + 1, from', to')
                  | (Panic, from') \<Rightarrow> (Panic, nid + 1, from', to'))))"

definition cap_inherit ::
  "u64 \<Rightarrow> cap_table \<Rightarrow> u64 \<Rightarrow> cap_table \<Rightarrow> (cap_error, u64) res \<times> u64 \<times> cap_table" where
  "cap_inherit nid from h to = (case cap_get from h of
      Err e \<Rightarrow> (Err e, nid, to)
    | Panic \<Rightarrow> (Panic, nid, to)
    | Ok src \<Rightarrow>
        (let (nh, to') = cap_insert \<lparr>cid = nid, kind = kind src, rights = rights src,
                                     object = object src, parent_id = parent_id src,
                                     children = []\<rparr> to
         in (Ok nh, nid + 1, to')))"

definition cap_revoke :: "u64 \<Rightarrow> cap_table \<Rightarrow> (cap_error, unit) res \<times> cap_table" where
  "cap_revoke h ss = (case cap_get ss h of
      Err e \<Rightarrow> (Err e, ss)
    | Panic \<Rightarrow> (Panic, ss)
    | Ok cap \<Rightarrow> if \<not> rights_has (rights cap) REVOKE then (Err NoRevoke, ss)
                else (let (r, ss') = cap_take h ss in (res_map (\<lambda>_. ()) r, ss')))"

section \<open>The tables of all tasks and cascading revocation\<close>

type_synonym task_tables = "(u64 \<times> cap_table) list"

text \<open>\<^verbatim>\<open>task::cap_table_ptr\<close>: the first task with the id; \<open>None\<close> is the null pointer.\<close>

fun cap_table_ptr :: "task_tables \<Rightarrow> u64 \<Rightarrow> cap_table option" where
  "cap_table_ptr [] tid = None"
| "cap_table_ptr ((i, t) # ts) tid = (if i = tid then Some t else cap_table_ptr ts tid)"

text \<open>The task list after a write through that pointer.\<close>

fun put_table :: "u64 \<Rightarrow> cap_table \<Rightarrow> task_tables \<Rightarrow> task_tables" where
  "put_table tid t [] = []"
| "put_table tid t ((i, u) # ts) =
     (if i = tid then (i, t) # ts else (i, u) # put_table tid t ts)"

definition live_slots :: "cap_table \<Rightarrow> nat" where
  "live_slots t = length (filter (\<lambda>s. slot_val s \<noteq> None) t)"

definition live_caps :: "task_tables \<Rightarrow> nat" where
  "live_caps ts = sum_list (map (\<lambda>(i, t). live_slots t) ts)"

lemma live_slots_split:
  "i < length t \<Longrightarrow> live_slots (t[i := s])
     + (if slot_val (t ! i) = None then 0 else 1) = live_slots t + (if slot_val s = None then 0 else 1)"
proof (induction t arbitrary: i)
  case (Cons u t)
  show ?case
  proof (cases i)
    case (Suc j)
    with Cons.prems have "j < length t" by simp
    from Cons.IH [OF this] Suc show ?thesis by (auto simp: live_slots_def split: if_splits)
  qed (simp add: live_slots_def)
qed simp

lemma live_slots_update:
  assumes "i < length t" "slot_val (t ! i) \<noteq> None" "slot_val s = None"
  shows "live_slots (t[i := s]) < live_slots t"
  using live_slots_split [OF assms(1), of s] assms(2,3) by simp

lemma cap_take_live:
  assumes "cap_get t h = Ok c"
  shows "live_slots (snd (cap_take h t)) < live_slots t"
  using assms live_slots_update [of "h_index h" t "(t ! h_index h)\<lparr>slot_val := None\<rparr>"]
  by (auto simp: cap_get_def cap_take_def nth_opt_def split: if_splits)

lemma put_table_live:
  assumes "cap_table_ptr ts tid = Some t" "live_slots t' < live_slots t"
  shows "live_caps (put_table tid t' ts) < live_caps ts"
  using assms by (induction ts tid rule: cap_table_ptr.induct) (auto simp: live_caps_def split: if_splits)

text \<open>
  \<^verbatim>\<open>cascade_force\<close>: the loop over a child list, with the recursive call of the source for each
  child.  A live capability is taken out before its own children are visited, so the recursion
  ends: the number of live capabilities falls.
\<close>

function cascade_children :: "task_tables \<Rightarrow> (u64 \<times> u64) list \<Rightarrow> task_tables" where
  "cascade_children ts [] = ts"
| "cascade_children ts ((tid, h) # rest) = (case cap_table_ptr ts tid of
      None \<Rightarrow> cascade_children ts rest
    | Some t \<Rightarrow> (case cap_get t h of
          Ok cap \<Rightarrow> cascade_children
                     (cascade_children (put_table tid (snd (cap_take h t)) ts) (children cap)) rest
        | Err e \<Rightarrow> cascade_children ts rest
        | Panic \<Rightarrow> cascade_children ts rest))"
  by pat_completeness auto

lemma cascade_children_live:
  "cascade_children_dom (ts, cs) \<Longrightarrow> live_caps (cascade_children ts cs) \<le> live_caps ts"
proof (induction ts cs rule: cascade_children.pinduct)
  case (1 ts)
  then show ?case by (simp add: cascade_children.psimps)
next
  case (2 ts tid h rest)
  show ?case
  proof (cases "cap_table_ptr ts tid")
    case None
    with 2 show ?thesis by (simp add: cascade_children.psimps)
  next
    case (Some t)
    show ?thesis
    proof (cases "cap_get t h")
      case (Ok cap)
      have "live_caps (put_table tid (snd (cap_take h t)) ts) < live_caps ts"
        using Some Ok by (simp add: put_table_live cap_take_live)
      moreover have "live_caps (cascade_children (put_table tid (snd (cap_take h t)) ts) (children cap))
          \<le> live_caps (put_table tid (snd (cap_take h t)) ts)"
        using "2.IH"(2) [OF Some Ok] .
      moreover have "live_caps (cascade_children
            (cascade_children (put_table tid (snd (cap_take h t)) ts) (children cap)) rest)
          \<le> live_caps (cascade_children (put_table tid (snd (cap_take h t)) ts) (children cap))"
        using "2.IH"(3) [OF Some Ok] .
      ultimately show ?thesis
        using Some Ok "2.hyps" by (simp add: cascade_children.psimps)
    qed (use 2 Some in \<open>simp_all add: cascade_children.psimps\<close>)
  qed
qed

termination cascade_children
proof (relation "inv_image (less_than <*lex*> less_than) (\<lambda>(ts, cs). (live_caps ts, length cs))")
  fix ts tid h rest t cap
  assume t: "cap_table_ptr ts tid = Some t" and c: "cap_get t h = Ok cap"
  have less: "live_caps (put_table tid (snd (cap_take h t)) ts) < live_caps ts"
    using t c by (simp add: put_table_live cap_take_live)
  then show "((put_table tid (snd (cap_take h t)) ts, children cap), ts, (tid, h) # rest)
    \<in> inv_image (less_than <*lex*> less_than) (\<lambda>(ts, cs). (live_caps ts, length cs))" by simp
  assume "cascade_children_dom (put_table tid (snd (cap_take h t)) ts, children cap)"
  from cascade_children_live [OF this] less
  show "((cascade_children (put_table tid (snd (cap_take h t)) ts) (children cap), rest),
      ts, (tid, h) # rest)
    \<in> inv_image (less_than <*lex*> less_than) (\<lambda>(ts, cs). (live_caps ts, length cs))" by simp
qed auto

definition cascade_force :: "task_tables \<Rightarrow> u64 \<Rightarrow> u64 \<Rightarrow> task_tables" where
  "cascade_force ts tid h = cascade_children ts [(tid, h)]"

definition cap_cascade_revoke ::
  "task_tables \<Rightarrow> u64 \<Rightarrow> u64 \<Rightarrow> (cap_error, unit) res \<times> task_tables" where
  "cap_cascade_revoke ts tid h = (case cap_table_ptr ts tid of
      None \<Rightarrow> (Err InvalidHandle, ts)
    | Some t \<Rightarrow> (case cap_get t h of
          Err e \<Rightarrow> (Err e, ts)
        | Panic \<Rightarrow> (Panic, ts)
        | Ok cap \<Rightarrow> if \<not> rights_has (rights cap) REVOKE then (Err NoRevoke, ts)
                    else (Ok (), cascade_force ts tid h)))"

section \<open>System calls\<close>

definition ENOSYS :: u64 where "ENOSYS = - 1"
definition ENOCAP :: u64 where "ENOCAP = - 2"
definition ENOPERM :: u64 where "ENOPERM = - 3"
definition EINVAL :: u64 where "EINVAL = - 4"
definition EAGAIN :: u64 where "EAGAIN = - 7"

record cap_sys =
  next_cap_id :: u64
  tables :: task_tables

text \<open>\<^verbatim>\<open>SYS_CAP_GRANT\<close> by task \<open>cur\<close>: two different task ids with a table have two
  different tables, so \<^verbatim>\<open>from_ptr == to_ptr\<close> is \<open>cur = target\<close>.\<close>

definition sys_cap_grant :: "u64 \<Rightarrow> u64 \<Rightarrow> u64 \<Rightarrow> u64 \<Rightarrow> cap_sys \<Rightarrow> u64 \<times> cap_sys" where
  "sys_cap_grant cur h target a3 s = (case cap_table_ptr (tables s) cur of
      None \<Rightarrow> (ENOCAP, s)
    | Some from \<Rightarrow>
        if \<not> is_ok (cap_get from h) then (ENOCAP, s)
        else (case cap_table_ptr (tables s) target of
            None \<Rightarrow> (EINVAL, s)
          | Some to \<Rightarrow>
              if cur = target then (EINVAL, s)
              else (let (r, nid, from', to') = cap_grant (next_cap_id s) from h target to (ucast a3);
                        s' = \<lparr>next_cap_id = nid,
                              tables = put_table target to' (put_table cur from' (tables s))\<rparr>
                    in (case r of
                          Ok nh \<Rightarrow> (nh, s')
                        | Err NoGrant \<Rightarrow> (ENOPERM, s')
                        | _ \<Rightarrow> (ENOCAP, s')))))"

definition sys_cap_revoke :: "u64 \<Rightarrow> u64 \<Rightarrow> cap_sys \<Rightarrow> u64 \<times> cap_sys" where
  "sys_cap_revoke cur h s = (case cap_table_ptr (tables s) cur of
      None \<Rightarrow> (ENOCAP, s)
    | Some t \<Rightarrow> (let (r, ts) = cap_cascade_revoke (tables s) cur h; s' = s\<lparr>tables := ts\<rparr>
                 in (case r of
                       Ok _ \<Rightarrow> (0, s')
                     | Err NoRevoke \<Rightarrow> (ENOPERM, s')
                     | _ \<Rightarrow> (ENOCAP, s'))))"

section \<open>Tables as handle tables\<close>

lemma cap_insert_slot_insert: "cap_insert = slot_insert"
  by (intro ext) (simp add: cap_insert_def slot_insert_def)

lemma cap_get_resolve: "cap_get t h = Ok c \<longleftrightarrow> resolve t h = Some c"
  by (auto simp: cap_get_def resolve_def split: option.splits)

lemma cap_get_not_Panic [simp]: "cap_get t h \<noteq> Panic"
  by (auto simp: cap_get_def ok_or_def split: option.splits)

lemma cap_get_Err: "cap_get t h = Err e \<Longrightarrow> resolve t h = None"
  by (metis cap_get_resolve not_Some_eq res.distinct(1))

lemma cap_take_vacate: "snd (cap_take h t) = vacate h t"
  by (auto simp: cap_take_def vacate_def split: option.splits)

lemma ko_get_resolve: "ko_get = resolve"
  by (intro ext) (simp add: ko_get_def resolve_def)

lemma ko_destroy_vacate: "snd (ko_destroy r ss) = vacate r ss"
  by (auto simp: ko_destroy_def vacate_def split: option.splits)

definition ko_insert :: "kernel_object \<Rightarrow> ko_table \<Rightarrow> u64 \<times> ko_table" where
  "ko_insert obj ss = (case ko_create obj ss of (Ok r, ss') \<Rightarrow> (r, ss') | (_, ss') \<Rightarrow> (0, ss'))"

lemma ko_create_room:
  "has_room ss \<Longrightarrow> ko_create obj ss = (Ok (fst (slot_insert obj ss)), snd (slot_insert obj ss))"
  using reuse_vacant_None [of obj 0 ss]
  by (auto simp: ko_create_def slot_insert_def has_room_def split: option.splits)

lemma ko_insert_room: "has_room ss \<Longrightarrow> ko_insert obj ss = slot_insert obj ss"
  by (simp add: ko_insert_def ko_create_room)

interpretation cap_tab: handle_table cap_insert resolve "\<lambda>h t. snd (cap_take h t)" has_room
  by unfold_locales
    (simp_all add: cap_insert_slot_insert slot_insert_resolve cap_take_vacate resolve_vacate)

interpretation ko_tab: handle_table ko_insert ko_get "\<lambda>r t. snd (ko_destroy r t)" has_room
  by unfold_locales
    (simp_all add: ko_insert_room ko_get_resolve slot_insert_resolve ko_destroy_vacate resolve_vacate)

section \<open>The derivation graph\<close>

text \<open>A node is a task id and a handle in that task's table.\<close>

definition node :: "task_tables \<Rightarrow> u64 \<times> u64 \<Rightarrow> capability option" where
  "node ts x = (case cap_table_ptr ts (fst x) of None \<Rightarrow> None | Some t \<Rightarrow> resolve t (snd x))"

definition child_of :: "task_tables \<Rightarrow> u64 \<times> u64 \<Rightarrow> u64 \<times> u64 \<Rightarrow> bool" where
  "child_of ts x y \<longleftrightarrow> (\<exists>c. node ts x = Some c \<and> y \<in> set (children c))"

lemma cap_table_ptr_put:
  "cap_table_ptr (put_table tid t ts) k =
     (if k = tid then map_option (\<lambda>_. t) (cap_table_ptr ts tid) else cap_table_ptr ts k)"
  by (induction ts) auto

lemma node_take:
  assumes "cap_table_ptr ts tid = Some t"
  shows "node (put_table tid (snd (cap_take h t)) ts) = (node ts)((tid, h) := None)"
  using assms
  by (auto simp: node_def cap_table_ptr_put cap_take_vacate resolve_vacate fun_eq_iff)

lemma node_Ok: "cap_table_ptr ts tid = Some t \<Longrightarrow> (cap_get t h = Ok c) = (node ts (tid, h) = Some c)"
  by (simp add: node_def cap_get_resolve)

text \<open>One unfolding of the cascade, on nodes.\<close>

lemma cascade_children_Cons:
  "cascade_children ts (x # rest) = (case node ts x of
      None \<Rightarrow> cascade_children ts rest
    | Some c \<Rightarrow> cascade_children
        (cascade_children (put_table (fst x) (snd (cap_take (snd x) (the (cap_table_ptr ts (fst x))))) ts)
           (children c)) rest)"
proof (cases "cap_table_ptr ts (fst x)")
  case None
  then show ?thesis by (cases x) (simp add: node_def)
next
  case (Some t)
  then show ?thesis
    by (cases x; cases "cap_get t (snd x)")
      (auto simp: node_def dest: cap_get_Err cap_get_resolve [THEN iffD1])
qed

text \<open>What a cascade from the list \<open>cs\<close> does: it only removes, removes all of \<open>cs\<close>, removes
  nothing but what \<open>cs\<close> reaches, and never leaves a child of something it removed.\<close>

definition shrunk :: "task_tables \<Rightarrow> task_tables \<Rightarrow> bool" where
  "shrunk ts ts' \<longleftrightarrow> (\<forall>y. node ts' y = None \<or> node ts' y = node ts y)"

definition cascaded :: "task_tables \<Rightarrow> (u64 \<times> u64) list \<Rightarrow> task_tables \<Rightarrow> bool" where
  "cascaded ts cs ts' \<longleftrightarrow> shrunk ts ts' \<and>
     (\<forall>x \<in> set cs. node ts' x = None) \<and>
     (\<forall>y. node ts y \<noteq> None \<and> node ts' y = None \<longrightarrow> (\<exists>x \<in> set cs. (child_of ts)\<^sup>*\<^sup>* x y)) \<and>
     (\<forall>x y. child_of ts x y \<and> node ts' x = None \<longrightarrow> node ts' y = None)"

lemma cascadedD:
  assumes "cascaded ts cs ts'"
  shows "shrunk ts ts'" and "x \<in> set cs \<Longrightarrow> node ts' x = None"
    and "node ts y \<noteq> None \<Longrightarrow> node ts' y = None \<Longrightarrow> \<exists>x \<in> set cs. (child_of ts)\<^sup>*\<^sup>* x y"
    and "child_of ts x y \<Longrightarrow> node ts' x = None \<Longrightarrow> node ts' y = None"
  using assms unfolding cascaded_def by blast+

lemma shrunk_refl: "shrunk ts ts"
  by (simp add: shrunk_def)

lemma shrunk_trans: "shrunk ts ts1 \<Longrightarrow> shrunk ts1 ts2 \<Longrightarrow> shrunk ts ts2"
  unfolding shrunk_def by metis

lemma shrunk_None: "shrunk ts ts' \<Longrightarrow> node ts y = None \<Longrightarrow> node ts' y = None"
  unfolding shrunk_def by metis

lemma shrunk_Some: "shrunk ts ts' \<Longrightarrow> node ts' y = Some c \<Longrightarrow> node ts y = Some c"
  unfolding shrunk_def by (metis option.distinct(1))

lemma child_of_shrunk: "shrunk ts ts' \<Longrightarrow> child_of ts' x y \<Longrightarrow> child_of ts x y"
  unfolding child_of_def using shrunk_Some by blast

lemma reach_shrunk: "shrunk ts ts' \<Longrightarrow> (child_of ts')\<^sup>*\<^sup>* x y \<Longrightarrow> (child_of ts)\<^sup>*\<^sup>* x y"
  by (metis (no_types, lifting) child_of_shrunk mono_rtranclp)

lemma cascaded_Nil: "cascaded ts [] ts"
  unfolding cascaded_def
proof (intro conjI ballI allI impI)
  show "node ts y = None" if "child_of ts x y \<and> node ts x = None" for x y
    using that by (auto simp: child_of_def)
qed (auto simp: shrunk_refl)

lemma cascaded_dead:
  assumes "node ts x = None" "cascaded ts cs ts'"
  shows "cascaded ts (x # cs) ts'"
  unfolding cascaded_def
proof (intro conjI ballI allI impI)
  note D = cascadedD [OF assms(2)]
  show "shrunk ts ts'" by (rule D(1))
  show "node ts' z = None" if "z \<in> set (x # cs)" for z
    using that D(2) [of z] shrunk_None [OF D(1) assms(1)] by (cases "z = x") simp_all
  show "\<exists>z \<in> set (x # cs). (child_of ts)\<^sup>*\<^sup>* z y" if "node ts y \<noteq> None \<and> node ts' y = None" for y
    using that D(3) [of y] by (meson list.set_intros(2))
  show "node ts' b = None" if "child_of ts a b \<and> node ts' a = None" for a b
    using that D(4) by blast
qed

lemma cascaded_Cons:
  assumes c: "node ts x = Some c" and n1: "node ts1 = (node ts)(x := None)"
    and A: "cascaded ts1 (children c) ts2" and B: "cascaded ts2 rest ts3"
  shows "cascaded ts (x # rest) ts3"
proof -
  have s1: "shrunk ts ts1" using n1 by (simp add: shrunk_def)
  have s2: "shrunk ts ts2" using s1 cascadedD(1) [OF A] by (rule shrunk_trans)
  have s23: "shrunk ts2 ts3" using cascadedD(1) [OF B] .
  have x2: "node ts2 x = None" using shrunk_None [OF cascadedD(1) [OF A]] n1 by simp
  have reach: "\<exists>z \<in> set (x # rest). (child_of ts)\<^sup>*\<^sup>* z y" if ny: "node ts y \<noteq> None" and n3: "node ts3 y = None" for y
  proof -
    consider "y = x" | "node ts1 y \<noteq> None" "node ts2 y = None" | "node ts2 y \<noteq> None"
      using n1 ny by (cases "y = x") auto
    then show ?thesis
    proof cases
      case 1
      then show ?thesis by simp
    next
      case 2
      then obtain z where z: "z \<in> set (children c)" "(child_of ts1)\<^sup>*\<^sup>* z y"
        using cascadedD(3) [OF A] by blast
      have "child_of ts x z" using c z(1) by (auto simp: child_of_def)
      then show ?thesis
        using reach_shrunk [OF s1 z(2)] by (meson converse_rtranclp_into_rtranclp list.set_intros(1))
    next
      case 3
      then obtain z where z: "z \<in> set rest" "(child_of ts2)\<^sup>*\<^sup>* z y"
        using cascadedD(3) [OF B] n3 by blast
      then show ?thesis using reach_shrunk [OF s2 z(2)] by (meson list.set_intros(2))
    qed
  qed
  have closed: "node ts3 b = None" if ab: "child_of ts a b" and a3: "node ts3 a = None" for a b
  proof (cases "node ts2 a = None")
    case True
    have "node ts2 b = None"
    proof (cases "a = x")
      case True
      then have "b \<in> set (children c)" using ab c by (simp add: child_of_def)
      then show ?thesis using cascadedD(2) [OF A] by blast
    next
      case False
      then have "child_of ts1 a b" using ab n1 by (simp add: child_of_def)
      then show ?thesis using cascadedD(4) [OF A] True by blast
    qed
    then show ?thesis by (rule shrunk_None [OF s23])
  next
    case False
    then obtain d where d: "node ts2 a = Some d" by blast
    then have "child_of ts2 a b" using ab shrunk_Some [OF s2 d] by (simp add: child_of_def)
    then show ?thesis using cascadedD(4) [OF B] a3 by blast
  qed
  show ?thesis
    unfolding cascaded_def
  proof (intro conjI ballI allI impI)
    show "shrunk ts ts3" using s2 s23 by (rule shrunk_trans)
    show "node ts3 z = None" if "z \<in> set (x # rest)" for z
      using that shrunk_None [OF s23 x2] cascadedD(2) [OF B, of z] by (cases "z = x") simp_all
    show "\<exists>z \<in> set (x # rest). (child_of ts)\<^sup>*\<^sup>* z y" if "node ts y \<noteq> None \<and> node ts3 y = None" for y
      using reach that by blast
    show "node ts3 b = None" if "child_of ts a b \<and> node ts3 a = None" for a b
      using closed that by blast
  qed
qed

lemma cascade_children_cascaded: "cascaded ts cs (cascade_children ts cs)"
proof (induction ts cs rule: cascade_children.induct)
  case (1 ts)
  show ?case using cascaded_Nil by simp
next
  case (2 ts tid h rest)
  show ?case
  proof (cases "node ts (tid, h)")
    case None
    have "cascaded ts rest (cascade_children ts rest)"
    proof (cases "cap_table_ptr ts tid")
      case (Some t)
      with None have "cap_get t h \<noteq> Ok c" for c by (simp add: node_Ok)
      then obtain e where "cap_get t h = Err e" by (cases "cap_get t h") auto
      with Some show ?thesis by (rule "2.IH"(4))
    qed (rule "2.IH"(1))
    from cascaded_dead [OF None this] None show ?thesis by (simp add: cascade_children_Cons)
  next
    case (Some c)
    then obtain t where t: "cap_table_ptr ts tid = Some t" by (auto simp: node_def split: option.splits)
    with Some have g: "cap_get t h = Ok c" by (simp add: node_Ok)
    show ?thesis
      using cascaded_Cons [OF Some node_take [OF t] "2.IH"(2) [OF t g] "2.IH"(3) [OF t g]] t g
      by simp
  qed
qed

lemma cascade_force_exact:
  "node (cascade_force ts tid h) y = (if (child_of ts)\<^sup>*\<^sup>* (tid, h) y then None else node ts y)"
proof -
  have C: "cascaded ts [(tid, h)] (cascade_force ts tid h)"
    by (simp only: cascade_force_def cascade_children_cascaded)
  show ?thesis
  proof (cases "(child_of ts)\<^sup>*\<^sup>* (tid, h) y")
    case True
    then have "node (cascade_force ts tid h) y = None"
    proof (induction rule: rtranclp_induct)
      case base
      show ?case using cascadedD(2) [OF C] by simp
    next
      case (step a b)
      then show ?case using cascadedD(4) [OF C] by blast
    qed
    with True show ?thesis by simp
  next
    case False
    then have "node ts y \<noteq> None \<Longrightarrow> node (cascade_force ts tid h) y \<noteq> None" using cascadedD(3) [OF C, of y] by auto
    with cascadedD(1) [OF C] have "node (cascade_force ts tid h) y = node ts y" unfolding shrunk_def by metis
    with False show ?thesis by simp
  qed
qed


section \<open>Table contents\<close>

definition caps_of :: "cap_table \<Rightarrow> capability set" where
  "caps_of t = {c. \<exists>s \<in> set t. slot_val s = Some c}"

definition all_caps :: "task_tables \<Rightarrow> capability set" where
  "all_caps ts = (\<Union>(i, t) \<in> set ts. caps_of t)"

lemma resolve_caps_of: "resolve t h = Some c \<Longrightarrow> c \<in> caps_of t"
  by (auto simp: resolve_Some_iff caps_of_def intro: nth_mem)

lemma caps_of_update:
  "i < length t \<Longrightarrow> caps_of (t[i := s]) \<subseteq> caps_of t \<union> (case slot_val s of None \<Rightarrow> {} | Some c \<Rightarrow> {c})"
  using set_update_subset_insert [of t i s] by (auto simp: caps_of_def split: option.splits)

lemma caps_of_insert: "caps_of (snd (cap_insert c t)) \<subseteq> insert c (caps_of t)"
proof (cases "reuse_vacant c 0 t")
  case None
  then show ?thesis by (auto simp: cap_insert_def caps_of_def)
next
  case (Some r)
  then obtain k where "k < length t" "snd r = t[k := \<lparr>slot_gen = slot_gen (t ! k) + 1, slot_val = Some c\<rparr>]"
    by (metis prod.collapse reuse_vacant_Some)
  then show ?thesis using caps_of_update [of k t "\<lparr>slot_gen = slot_gen (t ! k) + 1, slot_val = Some c\<rparr>"] Some
    by (auto simp: cap_insert_def)
qed

lemma caps_of_take: "caps_of (snd (cap_take h t)) \<subseteq> caps_of t"
  using caps_of_update [of "h_index h" t "(t ! h_index h)\<lparr>slot_val := None\<rparr>"]
  by (auto simp: cap_take_def nth_opt_def)

lemma all_caps_put: "all_caps (put_table tid t ts) \<subseteq> all_caps ts \<union> caps_of t"
  by (induction tid t ts rule: put_table.induct) (auto simp: all_caps_def)

lemma cap_table_ptr_caps: "cap_table_ptr ts tid = Some t \<Longrightarrow> caps_of t \<subseteq> all_caps ts"
  by (induction ts tid rule: cap_table_ptr.induct) (auto simp: all_caps_def split: if_splits)

lemma cascade_children_caps: "all_caps (cascade_children ts cs) \<subseteq> all_caps ts"
proof (induction ts cs rule: cascade_children.induct)
  case (2 ts tid h rest)
  show ?case
  proof (cases "cap_table_ptr ts tid")
    case (Some t)
    show ?thesis
    proof (cases "cap_get t h")
      case (Ok c)
      have "all_caps (put_table tid (snd (cap_take h t)) ts) \<subseteq> all_caps ts"
        using all_caps_put [of tid "snd (cap_take h t)" ts] caps_of_take [of h t] cap_table_ptr_caps [OF Some]
        by blast
      with "2.IH"(2,3) [OF Some Ok] Some Ok show ?thesis by simp
    qed (use 2 Some in simp_all)
  qed (use 2 in simp)
qed simp

section \<open>What a grant does\<close>

lemma cap_get_mut_resolve:
  "resolve t h = Some c \<Longrightarrow>
     \<exists>t'. cap_get_mut f h t = (Ok (), t') \<and> resolve t' = (resolve t)(h \<mapsto> f c)"
proof -
  assume r: "resolve t h = Some c"
  then have h: "h_index h < length t" "slot_gen (t ! h_index h) = h_generation h"
    "slot_val (t ! h_index h) = Some c" by (auto simp: resolve_Some_iff)
  let ?t = "t[h_index h := (t ! h_index h)\<lparr>slot_val := Some (f c)\<rparr>]"
  have "resolve ?t k = ((resolve t)(h \<mapsto> f c)) k" for k
  proof (cases "h_index k = h_index h")
    case True
    then show ?thesis using h handle_eqI [of k h] handle_neq [of k h]
      by (cases "k = h") (auto simp: resolve_def nth_opt_def)
  next
    case False
    then have "k \<noteq> h" by auto
    then show ?thesis using h False by (auto simp: resolve_def nth_opt_def)
  qed
  then have "resolve ?t = (resolve t)(h \<mapsto> f c)" by blast
  then show ?thesis using h by (auto simp: cap_get_mut_def nth_opt_def)
qed

text \<open>C28. A grant is refused, changing nothing, unless the handle resolves to a capability with the
  grant right; otherwise the receiver gets, under a handle that resolved to nothing before, one
  capability on the same object with at most the granter's rights and at most the mask's, the
  granter's capability records it as a child, and no other handle of either table changes.\<close>

theorem cap_grant_spec:
  assumes "has_room to"
  shows "case resolve src h of
      None \<Rightarrow> (\<exists>e. cap_grant nid src h tid to m = (Err e, nid, src, to))
    | Some c \<Rightarrow>
        if \<not> rights_has (rights c) GRANT then cap_grant nid src h tid to m = (Err NoGrant, nid, src, to)
        else (\<exists>nh d src' to'. cap_grant nid src h tid to m = (Ok nh, nid + 1, src', to')
          \<and> kind d = kind c \<and> object d = object c \<and> cid d = nid \<and> parent_id d = Some (cid c)
          \<and> children d = [] \<and> rights d AND NOT (rights c) = 0 \<and> rights d AND NOT m = 0
          \<and> resolve to nh = None \<and> resolve to' = (resolve to)(nh \<mapsto> d)
          \<and> resolve src' = (resolve src)(h \<mapsto> c\<lparr>children := children c @ [(tid, nh)]\<rparr>))"
proof (cases "resolve src h")
  case None
  then obtain e where "cap_get src h = Err e"
    by (cases "cap_get src h") (auto simp: cap_get_resolve)
  then show ?thesis using None by (simp add: cap_grant_def)
next
  case (Some c)
  then have g: "cap_get src h = Ok c" by (simp add: cap_get_resolve)
  show ?thesis
  proof (cases "rights_has (rights c) GRANT")
    case False
    then show ?thesis using Some g by (simp add: cap_grant_def)
  next
    case True
    define d where "d = \<lparr>cid = nid, kind = kind c, rights = rights_intersect (rights c) m,
      object = object c, parent_id = Some (cid c), children = []\<rparr>"
    obtain nh to' where i: "cap_insert d to = (nh, to')" by fastforce
    have fresh: "resolve to nh = None" "resolve to' = (resolve to)(nh \<mapsto> d)"
      using cap_tab.insert_fresh [OF assms, of d] cap_tab.insert_lookup [OF assms, of d] i
      by (simp_all add: fun_eq_iff)
    obtain src' where f: "cap_get_mut (\<lambda>c. c\<lparr>children := children c @ [(tid, nh)]\<rparr>) h src = (Ok (), src')"
      "resolve src' = (resolve src)(h \<mapsto> c\<lparr>children := children c @ [(tid, nh)]\<rparr>)"
      using cap_get_mut_resolve [OF Some] by blast
    have "cap_grant nid src h tid to m = (Ok nh, nid + 1, src', to')"
      using g True i f(1) by (simp add: cap_grant_def d_def [symmetric])
    moreover have "rights d AND NOT (rights c) = 0" "rights d AND NOT m = 0"
      by (simp_all add: d_def rights_intersect_def bit_eq_iff bit_simps)
    moreover have "kind d = kind c \<and> object d = object c \<and> cid d = nid \<and> parent_id d = Some (cid c)
        \<and> children d = []" by (simp add: d_def)
    ultimately show ?thesis using Some True fresh f(2) by (simp only: option.case if_True not_True_eq_False
        if_False) blast
  qed
qed

section \<open>A revoked handle stays dead\<close>

text \<open>Any later sequence of insertions into and removals from one table.\<close>

fun cap_step :: "capability slot_op \<Rightarrow> cap_table \<Rightarrow> cap_table" where
  "cap_step (SInsert c) t = snd (cap_insert c t)"
| "cap_step (SRemove h) t = snd (cap_take h t)"

lemma cap_step_slot_step: "cap_step = slot_step"
proof (intro ext)
  show "cap_step p t = slot_step p t" for p t
    by (cases p) (simp_all add: cap_insert_slot_insert cap_take_vacate)
qed

text \<open>C27. A handle that was taken out of a table resolves to nothing after any further operations on
  the table, as long as fewer than \<open>2\<^sup>3\<^sup>2\<close> of them are insertions.\<close>

theorem stale_handle_dead:
  assumes "resolve t h = Some c" "length (filter is_insert ops) < 2 ^ 32"
  shows "resolve (fold cap_step ops (snd (cap_take h t))) h = None"
proof -
  have "aged (h_index h) (h_generation h) 0 (vacate h t)"
    using assms(1) by (auto simp: aged_def vacate_def nth_opt_def resolve_Some_iff)
  from aged_run [OF this, of ops] assms(2) show ?thesis
    by (simp add: cap_take_vacate cap_step_slot_step slot_run_def [symmetric] aged_unresolved)
qed

section \<open>Concrete runs\<close>

text \<open>Task 1 holds a root capability and grants it, without the revoke right, to task 2.\<close>

definition demo_root :: cap_table where
  "demo_root = snd (snd (create_root_cap 7 [] KindIpc RIGHTS_ALL 0))"

definition demo_sys :: cap_sys where
  "demo_sys = snd (sys_cap_grant 1 0 2 7 \<lparr>next_cap_id = 8, tables = [(1, demo_root), (2, [])]\<rparr>)"


theorem cap_grant_witness:
  "\<exists>nh from' to'. cap_grant 8 demo_root 0 2 [] 3 = (Ok nh, 9, from', to')
     \<and> (\<exists>d. resolve to' nh = Some d \<and> rights d AND NOT 3 = 0)"
proof -
  have room: "has_room ([] :: cap_table)" by (simp add: has_room_def)
  obtain c where c: "resolve demo_root 0 = Some c" "rights_has (rights c) GRANT"
    by (rule that [of "the (resolve demo_root 0)"]) code_simp+
  from cap_grant_spec [OF room, where src = demo_root and h = 0 and nid = 8 and tid = 2 and m = 3] c show ?thesis by fastforce
qed

theorem stale_handle_witness:
  "resolve demo_root 0 \<noteq> None
   \<and> resolve (fold cap_step [SInsert (the (resolve demo_root 0)), SRemove 5] (snd (cap_take 0 demo_root))) 0 = None"
proof -
  have c: "resolve demo_root 0 = Some (the (resolve demo_root 0))" by code_simp
  have "resolve demo_root 0 \<noteq> None" by code_simp
  with stale_handle_dead [OF c, of "[SInsert (the (resolve demo_root 0)), SRemove 5]"] show ?thesis by simp
qed

section \<open>Capabilities that leave the derivation tree\<close>

text \<open>
  Moving a granted capability to another table (what \<^verbatim>\<open>SYS_IPC_SEND_CAP\<close> and
  \<^verbatim>\<open>SYS_IPC_RECV_CAP\<close> do) or inheriting it at a spawn gives it a place the granter's child
  list does not name: a cascading revocation of the granter's capability leaves it alive.
\<close>

definition demo_moved :: task_tables where
  "demo_moved = (case cap_table_ptr (tables demo_sys) 2 of
      Some t \<Rightarrow> (case cap_take 0 t of
          (Ok c, t') \<Rightarrow> put_table 2 t' (tables demo_sys) @ [(3, snd (cap_insert c []))]
        | _ \<Rightarrow> [])
    | None \<Rightarrow> [])"

definition demo_inherited :: task_tables where
  "demo_inherited = (case cap_table_ptr (tables demo_sys) 2 of
      Some t \<Rightarrow> tables demo_sys @ [(3, snd (snd (cap_inherit 9 t 0 [])))]
    | None \<Rightarrow> [])"



end
