(* ===== verification/Task.thy ===== *)
theory Task
  imports Prelude
begin

unbundle bit_operations_syntax

text \<open>
  The cooperative scheduler of \<^verbatim>\<open>kernel/src/task.rs\<close>: the task list, the ready scan, the
  sweep of dead tasks, the switch points (yield, block, exit), the wait, sleep and exit-record
  tables and the per-task address ranges.  The register switch, the page-table load and the
  freeing of a dead task's memory are hardware effects and are not part of the state; the stack
  canary word is, because a wrong canary panics.
\<close>

section \<open>Data\<close>

datatype task_state = Running | Ready | Blocked | Dead

record task =
  tid :: u64
  parent :: u64
  state :: task_state
  priority :: u8
  canary :: "u64 option"
  page_table :: "u64 option"
  vma_list :: "(u64 \<times> u64) list"

record exit_record =
  er_child :: u64
  er_spawner :: u64
  er_status :: u32

record sched =
  tasks :: "task list"
  current :: nat
  next_id :: u64
  sleep_queue :: "(u64 \<times> u64) option list"
  waiters :: "(u64 \<times> u64) option list"
  exit_records :: "exit_record list"

definition STACK_CANARY :: u64 where "STACK_CANARY = 0x5AFEC0DEDEADBEEF"
definition MAX_SLEEPERS :: nat where "MAX_SLEEPERS = 64"
definition MAX_WAITERS :: nat where "MAX_WAITERS = 32"

text \<open>How a switch point ends: in another task, in the same task, or with the CPU halted for
  want of a ready task.\<close>

datatype switch = Switched | Stayed | Halted

section \<open>Exit status and exit records\<close>

definition EXIT_CODE_MASK :: u32 where "EXIT_CODE_MASK = 0xFF"
definition EXIT_ABNORMAL :: u32 where "EXIT_ABNORMAL = 0x100"
definition EXIT_REASON_KILLED :: u32 where "EXIT_REASON_KILLED = 0"
definition EXIT_REASON_FAULT :: u32 where "EXIT_REASON_FAULT = 1"

definition exit_status_normal :: "u32 \<Rightarrow> u32" where
  "exit_status_normal c = (c AND EXIT_CODE_MASK)"

definition exit_status_abnormal :: "u32 \<Rightarrow> u32" where
  "exit_status_abnormal r = (EXIT_ABNORMAL OR (r AND EXIT_CODE_MASK))"

fun record_exit :: "u64 \<Rightarrow> u64 \<Rightarrow> u32 \<Rightarrow> exit_record list \<Rightarrow> exit_record list" where
  "record_exit c sp st [] = [\<lparr>er_child = c, er_spawner = sp, er_status = st\<rparr>]"
| "record_exit c sp st (r # rs) =
     (if er_child r = c then r\<lparr>er_spawner := sp, er_status := st\<rparr> # rs
      else r # record_exit c sp st rs)"

text \<open>\<^verbatim>\<open>Vec::swap_remove\<close>: the last element takes the removed one's place.\<close>

definition swap_remove :: "nat \<Rightarrow> 'a list \<Rightarrow> 'a list" where
  "swap_remove i xs = butlast (xs[i := last xs])"

definition consume_exit :: "u64 \<Rightarrow> exit_record list \<Rightarrow> u32 option \<times> exit_record list" where
  "consume_exit c rs = (case position (\<lambda>r. er_child r = c) rs of
      None \<Rightarrow> (None, rs)
    | Some i \<Rightarrow> (Some (er_status (rs ! i)), swap_remove i rs))"

definition reap_children_of :: "u64 \<Rightarrow> exit_record list \<Rightarrow> exit_record list" where
  "reap_children_of sp rs = filter (\<lambda>r. er_spawner r \<noteq> sp) rs"

section \<open>The ready scan\<close>

text \<open>One round over the ring of \<open>n\<close> tasks from index \<open>i\<close> at one priority; \<open>k\<close> is
  \<^verbatim>\<open>n - checked\<close>.\<close>

fun scan_ready :: "task list \<Rightarrow> u8 \<Rightarrow> nat \<Rightarrow> nat \<Rightarrow> nat option" where
  "scan_ready ts p i 0 = None"
| "scan_ready ts p i (Suc k) =
     (if state (ts ! i) = Ready \<and> priority (ts ! i) = p then Some i
      else scan_ready ts p ((i + 1) mod length ts) k)"

definition find_next_ready :: "task list \<Rightarrow> nat \<Rightarrow> nat option" where
  "find_next_ready ts start =
     (let n = length ts in
      if n = 0 then None
      else (case scan_ready ts 2 (start mod n) n of
          Some i \<Rightarrow> Some i
        | None \<Rightarrow> (case scan_ready ts 1 (start mod n) n of
            Some i \<Rightarrow> Some i
          | None \<Rightarrow> scan_ready ts 0 (start mod n) n)))"

section \<open>Finding a task by id\<close>

definition find_task :: "u64 \<Rightarrow> task list \<Rightarrow> nat option" where
  "find_task i ts = position (\<lambda>t. tid t = i) ts"

definition set_state :: "nat \<Rightarrow> task_state \<Rightarrow> task list \<Rightarrow> task list" where
  "set_state i st ts = ts[i := (ts ! i)\<lparr>state := st\<rparr>]"

definition wake_in :: "u64 \<Rightarrow> task list \<Rightarrow> task list" where
  "wake_in i ts = (case find_task i ts of
      None \<Rightarrow> ts
    | Some k \<Rightarrow> if state (ts ! k) = Blocked then set_state k Ready ts else ts)"

definition wake_task :: "u64 \<Rightarrow> sched \<Rightarrow> sched" where
  "wake_task i s = s\<lparr>tasks := wake_in i (tasks s)\<rparr>"

definition block_task :: "u64 \<Rightarrow> sched \<Rightarrow> sched" where
  "block_task i s = (case find_task i (tasks s) of
      None \<Rightarrow> s
    | Some k \<Rightarrow> if state (tasks s ! k) = Ready then s\<lparr>tasks := set_state k Blocked (tasks s)\<rparr> else s)"

definition task_exists :: "u64 \<Rightarrow> sched \<Rightarrow> bool" where
  "task_exists i s = list_ex (\<lambda>t. tid t = i) (tasks s)"

definition task_status_raw :: "u64 \<Rightarrow> sched \<Rightarrow> u64" where
  "task_status_raw i s = (case find_task i (tasks s) of
      None \<Rightarrow> 0
    | Some k \<Rightarrow> (case state (tasks s ! k) of
        Dead \<Rightarrow> 0 | Running \<Rightarrow> 1 | Ready \<Rightarrow> 2 | Blocked \<Rightarrow> 3))"

definition current_task_id :: "sched \<Rightarrow> u64" where
  "current_task_id s = tid (tasks s ! current s)"

definition set_task_priority :: "u64 \<Rightarrow> u8 \<Rightarrow> sched \<Rightarrow> bool \<times> sched" where
  "set_task_priority i p s =
     (if p > 2 then (False, s)
      else (case position (\<lambda>t. tid t = i \<and> state t \<noteq> Dead) (tasks s) of
          Some k \<Rightarrow> (True, s\<lparr>tasks := (tasks s)[k := (tasks s ! k)\<lparr>priority := p\<rparr>]\<rparr>)
        | None \<Rightarrow> (False, s)))"

section \<open>Init, spawn, sweep and the switch points\<close>

definition sched_init :: sched where
  "sched_init = \<lparr>tasks = [\<lparr>tid = 0, parent = 0, state = Running, priority = 1, canary = None,
                          page_table = None, vma_list = []\<rparr>],
                 current = 0, next_id = 1,
                 sleep_queue = replicate MAX_SLEEPERS None,
                 waiters = replicate MAX_WAITERS None, exit_records = []\<rparr>"

text \<open>The scheduler's part of \<^verbatim>\<open>spawn_kernel_task\<close> (\<open>pt = None\<close>) and
  \<^verbatim>\<open>spawn_userspace_task\<close> (\<open>pt\<close> the new page table).\<close>

definition spawn_task :: "u64 option \<Rightarrow> sched \<Rightarrow> u64 \<times> sched" where
  "spawn_task pt s =
     (next_id s,
      s\<lparr>next_id := next_id s + 1,
        tasks := tasks s @ [\<lparr>tid = next_id s, parent = tid (tasks s ! current s), state = Ready,
                             priority = 1, canary = Some STACK_CANARY, page_table = pt,
                             vma_list = []\<rparr>]\<rparr>)"

definition check_stack_canary :: "task \<Rightarrow> bool" where
  "check_stack_canary t = (case canary t of None \<Rightarrow> True | Some w \<Rightarrow> w = STACK_CANARY)"

text \<open>\<^verbatim>\<open>sweep_dead\<close>: \<open>None\<close> is the panic of a dead task's last canary check.\<close>

function sweep_dead :: "nat \<Rightarrow> task list \<Rightarrow> nat \<Rightarrow> (task list \<times> nat) option" where
  "sweep_dead i ts cur =
     (if i < length ts
      then if state (ts ! i) = Dead
           then if \<not> check_stack_canary (ts ! i) then None
                else sweep_dead i (take i ts @ drop (Suc i) ts) (if i < cur then cur - 1 else cur)
           else sweep_dead (i + 1) ts cur
      else Some (ts, cur))"
  by pat_completeness auto
termination by (relation "measure (\<lambda>(i, ts, cur). length ts - i)") auto

declare sweep_dead.simps [simp del]

definition switch_to :: "nat \<Rightarrow> sched \<Rightarrow> sched" where
  "switch_to k s = s\<lparr>tasks := set_state k Running (tasks s), current := k\<rparr>"

definition yield_task :: "sched \<Rightarrow> (unit, switch) res \<times> sched" where
  "yield_task s =
     (if \<not> check_stack_canary (tasks s ! current s) then (Panic, s)
      else (case sweep_dead 0 (tasks s) (current s) of
          None \<Rightarrow> (Panic, s)
        | Some (ts, cur) \<Rightarrow>
            (let s1 = s\<lparr>tasks := ts, current := cur\<rparr>; n = length ts in
             if n \<le> 1 then (Ok Stayed, s1)
             else (case find_next_ready ts ((cur + 1) mod n) of
                 None \<Rightarrow> (Ok Stayed, s1)
               | Some nxt \<Rightarrow>
                   if nxt = cur then (Ok Stayed, s1)
                   else (Ok Switched, switch_to nxt (s1\<lparr>tasks := set_state cur Ready ts\<rparr>))))))"

definition block_and_yield :: "sched \<Rightarrow> (unit, switch) res \<times> sched" where
  "block_and_yield s =
     (if \<not> check_stack_canary (tasks s ! current s) then (Panic, s)
      else (case sweep_dead 0 (tasks s) (current s) of
          None \<Rightarrow> (Panic, s)
        | Some (ts, cur) \<Rightarrow>
            (let n = length ts;
                 ts1 = set_state cur Blocked ts;
                 s1 = s\<lparr>tasks := ts1, current := cur\<rparr>
             in (case find_next_ready ts1 ((cur + 1) mod n) of
                   None \<Rightarrow> (Ok Halted, s1)
                 | Some nxt \<Rightarrow> (Ok Switched, switch_to nxt s1)))))"

text \<open>The loop over the wait table that \<^verbatim>\<open>task_exit\<close> and \<^verbatim>\<open>kill_task\<close> share.\<close>

fun wake_waiters :: "u64 \<Rightarrow> (u64 \<times> u64) option list \<Rightarrow> task list
    \<Rightarrow> (u64 \<times> u64) option list \<times> task list" where
  "wake_waiters dying [] ts = ([], ts)"
| "wake_waiters dying (None # ws) ts = (let (ws', ts') = wake_waiters dying ws ts in (None # ws', ts'))"
| "wake_waiters dying (Some (w, target) # ws) ts =
     (if target = dying
      then (let (ws', ts') = wake_waiters dying ws (wake_in w ts) in (None # ws', ts'))
      else (let (ws', ts') = wake_waiters dying ws ts in (Some (w, target) # ws', ts')))"

definition task_exit :: "u32 \<Rightarrow> sched \<Rightarrow> (unit, switch) res \<times> sched" where
  "task_exit status s =
     (if \<not> check_stack_canary (tasks s ! current s) then (Panic, s)
      else (let cur = current s;
                dying_id = tid (tasks s ! cur);
                dying_parent = parent (tasks s ! cur);
                ts0 = set_state cur Dead (tasks s);
                ers = reap_children_of dying_id (record_exit dying_id dying_parent status (exit_records s));
                (ws, ts1) = wake_waiters dying_id (waiters s) ts0;
                s1 = s\<lparr>tasks := ts1, exit_records := ers, waiters := ws\<rparr>
            in (case find_next_ready ts1 ((cur + 1) mod length ts1) of
                  None \<Rightarrow> (Ok Halted, s1)
                | Some nxt \<Rightarrow> (Ok Switched, switch_to nxt s1))))"

definition kill_task :: "u64 \<Rightarrow> sched \<Rightarrow> bool \<times> sched" where
  "kill_task i s =
     (if i = 0 then (False, s)
      else if i = tid (tasks s ! current s) then (False, s)
      else (case position (\<lambda>t. tid t = i \<and> state t \<noteq> Dead) (tasks s) of
          None \<Rightarrow> (False, s)
        | Some k \<Rightarrow>
            (let victim_parent = parent (tasks s ! k);
                 ts0 = set_state k Dead (tasks s);
                 ers = reap_children_of i
                   (record_exit i victim_parent (exit_status_abnormal EXIT_REASON_KILLED) (exit_records s));
                 (ws, ts1) = wake_waiters i (waiters s) ts0
             in (True, s\<lparr>tasks := ts1, exit_records := ers, waiters := ws\<rparr>))))"

text \<open>Put a value in the first empty slot of a fixed table; a full table drops it.\<close>

fun fill_first :: "'a \<Rightarrow> 'a option list \<Rightarrow> 'a option list" where
  "fill_first v [] = []"
| "fill_first v (None # xs) = Some v # xs"
| "fill_first v (Some x # xs) = Some x # fill_first v xs"

text \<open>\<^verbatim>\<open>wait_for_task\<close> up to its switch point, and from the resumption on.\<close>

definition wait_for_task_enter :: "u64 \<Rightarrow> sched \<Rightarrow> (unit, switch) res \<times> sched" where
  "wait_for_task_enter target s =
     (if task_status_raw target s = 0 then (Ok Stayed, s)
      else block_and_yield
        (s\<lparr>waiters := fill_first (current_task_id s, target) (waiters s)\<rparr>))"

definition ENOENT :: u64 where "ENOENT = - 5"

definition wait_for_task_resume :: "u64 \<Rightarrow> sched \<Rightarrow> u64 \<times> sched" where
  "wait_for_task_resume target s =
     (let (r, ers) = consume_exit target (exit_records s)
      in (case r of Some st \<Rightarrow> ucast st | None \<Rightarrow> ENOENT, s\<lparr>exit_records := ers\<rparr>))"

definition sleep_until :: "u64 \<Rightarrow> sched \<Rightarrow> (unit, switch) res \<times> sched" where
  "sleep_until wake_tick s =
     block_and_yield (s\<lparr>sleep_queue := fill_first (current_task_id s, wake_tick) (sleep_queue s)\<rparr>)"

definition expired :: "u64 \<Rightarrow> (u64 \<times> u64) option \<Rightarrow> bool" where
  "expired now slot = (case slot of None \<Rightarrow> False | Some (i, w) \<Rightarrow> now \<ge> w)"

definition wake_sleepers :: "u64 \<Rightarrow> sched \<Rightarrow> sched" where
  "wake_sleepers now s =
     fold wake_task (map (\<lambda>x. fst (the x)) (filter (expired now) (sleep_queue s)))
       (s\<lparr>sleep_queue := map (\<lambda>x. if expired now x then None else x) (sleep_queue s)\<rparr>)"

text \<open>The timer interrupt of \<^verbatim>\<open>kernel/src/apic.rs\<close>: count the tick, wake the sleepers it is
  due for, preempt.  The tick counter stands beside the scheduler.\<close>

definition timer_interrupt_handler :: "u64 \<times> sched \<Rightarrow> (unit, switch) res \<times> u64 \<times> sched" where
  "timer_interrupt_handler ts =
     (let tick = fst ts + 1; (r, s') = yield_task (wake_sleepers tick (snd ts)) in (r, tick, s'))"

section \<open>Address ranges of a task\<close>

text \<open>\<^verbatim>\<open>partition_point(|&(s, _)| s < va)\<close> on a sorted list is the length of the prefix
  that satisfies the predicate.\<close>

definition partition_point :: "('a \<Rightarrow> bool) \<Rightarrow> 'a list \<Rightarrow> nat" where
  "partition_point p xs = length (takeWhile p xs)"

definition vma_insert :: "u64 \<Rightarrow> (u64 \<times> u64) list \<Rightarrow> bool \<times> (u64 \<times> u64) list" where
  "vma_insert va vmas =
     (let end_va = va + 0x1000; pos = partition_point (\<lambda>(s, _). s < va) vmas in
      if pos > 0 \<and> snd (vmas ! (pos - 1)) > va then (False, vmas)
      else if pos < length vmas \<and> fst (vmas ! pos) < end_va then (False, vmas)
      else (True, take pos vmas @ [(va, end_va)] @ drop pos vmas))"

definition vma_remove :: "u64 \<Rightarrow> (u64 \<times> u64) list \<Rightarrow> bool \<times> (u64 \<times> u64) list" where
  "vma_remove va vmas = (case position (\<lambda>(s, _). s = va) vmas of
      Some pos \<Rightarrow> (True, take pos vmas @ drop (Suc pos) vmas)
    | None \<Rightarrow> (False, vmas))"

section \<open>The ready scan is fair and priority-ordered\<close>

definition eligible :: "task list \<Rightarrow> u8 \<Rightarrow> nat \<Rightarrow> bool" where
  "eligible ts p i \<longleftrightarrow> state (ts ! i) = Ready \<and> priority (ts ! i) = p"

text \<open>How far index \<open>j\<close> lies behind index \<open>i\<close> on the ring of \<open>n\<close> tasks.\<close>

definition ring_dist :: "nat \<Rightarrow> nat \<Rightarrow> nat \<Rightarrow> nat" where
  "ring_dist n i j = (j + n - i) mod n"

lemma ring_dist_add: "i < n \<Longrightarrow> d < n \<Longrightarrow> ring_dist n i ((i + d) mod n) = d"
  by (cases "i + d < n") (auto simp: ring_dist_def le_mod_geq mod_if)

lemma ring_dist_hit: "i < n \<Longrightarrow> j < n \<Longrightarrow> (i + ring_dist n i j) mod n = j \<and> ring_dist n i j < n"
  by (cases "j < i") (auto simp: ring_dist_def mod_if)

lemma scan_ready_cases:
  assumes "i < length ts"
  shows "case scan_ready ts p i k of
      Some j \<Rightarrow> \<exists>d < k. j = (i + d) mod length ts \<and> eligible ts p j
                 \<and> (\<forall>e < d. \<not> eligible ts p ((i + e) mod length ts))
    | None \<Rightarrow> \<forall>e < k. \<not> eligible ts p ((i + e) mod length ts)"
  using assms
proof (induction k arbitrary: i)
  case (Suc k)
  let ?n = "length ts"
  show ?case
  proof (cases "eligible ts p i")
    case True
    then show ?thesis using Suc.prems by (auto simp: eligible_def intro!: exI [of _ 0])
  next
    case False
    have shift: "(Suc i mod ?n + e) mod ?n = Suc (i + e) mod ?n" for e
      by (metis add_Suc mod_add_left_eq)
    have split: "(\<forall>e < Suc m. \<not> eligible ts p ((i + e) mod ?n))
        \<longleftrightarrow> (\<forall>e < m. \<not> eligible ts p ((i + Suc e) mod ?n))" for m
      using False Suc.prems by (auto simp: less_Suc_eq_0_disj)
    have "(i + 1) mod ?n < ?n" using Suc.prems by (intro mod_less_divisor) linarith
    from Suc.IH [OF this] False show ?thesis
    proof (cases "scan_ready ts p ((i + 1) mod ?n) k")
      case None
      with Suc.IH [OF \<open>(i + 1) mod ?n < ?n\<close>] False show ?thesis
        by (auto simp: eligible_def [symmetric] shift less_Suc_eq_0_disj Suc.prems)
    next
      case (Some j)
      with Suc.IH [OF \<open>(i + 1) mod ?n < ?n\<close>] obtain d where
        "d < k" "j = (i + Suc d) mod ?n" "eligible ts p j" "\<forall>e < d. \<not> eligible ts p ((i + Suc e) mod ?n)"
        by (auto simp: shift)
      with False Some split [of d] show ?thesis
        by (auto simp: eligible_def [symmetric] intro!: exI [of _ "Suc d"])
    qed
  qed
qed simp

lemma scan_ready_Some:
  assumes "scan_ready ts p i (length ts) = Some j" "i < length ts"
  shows "j < length ts" "eligible ts p j"
    "k < length ts \<Longrightarrow> eligible ts p k \<Longrightarrow> ring_dist (length ts) i j \<le> ring_dist (length ts) i k"
proof -
  let ?n = "length ts"
  from scan_ready_cases [OF assms(2), where p = p and k = ?n] assms(1) obtain d where d: "d < ?n"
    "j = (i + d) mod ?n" "eligible ts p j" "\<forall>e < d. \<not> eligible ts p ((i + e) mod ?n)" by auto
  then show "eligible ts p j" by simp
  have "0 < ?n" using assms(2) by linarith
  then show "j < ?n" using d(2) by simp
  show "ring_dist ?n i j \<le> ring_dist ?n i k" if "k < ?n" "eligible ts p k"
  proof (rule ccontr)
    assume "\<not> ?thesis"
    then have "ring_dist ?n i k < d" using ring_dist_add [OF assms(2) d(1)] d(2) by simp
    with d(4) have "\<not> eligible ts p ((i + ring_dist ?n i k) mod ?n)" by blast
    then show False using ring_dist_hit [OF assms(2) that(1)] that(2) by simp
  qed
qed

lemma scan_ready_None:
  assumes "scan_ready ts p i (length ts) = None" "i < length ts" "k < length ts"
  shows "\<not> eligible ts p k"
proof -
  have "\<forall>e < length ts. \<not> eligible ts p ((i + e) mod length ts)"
    using scan_ready_cases [OF assms(2), where p = p and k = "length ts"] assms(1) by simp
  with ring_dist_hit [OF assms(2,3)] show ?thesis by auto
qed

text \<open>C20. The scheduler picks a ready task of the highest priority present, and among those the
  first one at or after the start index on the ring; it picks none only when no task of a valid
  priority is ready.\<close>

theorem find_next_ready_spec:
  assumes "ts \<noteq> []"
  shows "case find_next_ready ts start of
      Some j \<Rightarrow> j < length ts \<and> state (ts ! j) = Ready \<and> priority (ts ! j) \<le> 2
        \<and> (\<forall>k < length ts. state (ts ! k) = Ready \<and> priority (ts ! k) \<le> 2 \<longrightarrow>
             priority (ts ! k) \<le> priority (ts ! j)
             \<and> (priority (ts ! k) = priority (ts ! j) \<longrightarrow>
                 ring_dist (length ts) (start mod length ts) j
                   \<le> ring_dist (length ts) (start mod length ts) k))
    | None \<Rightarrow> (\<forall>k < length ts. \<not> (state (ts ! k) = Ready \<and> priority (ts ! k) \<le> 2))"
proof -
  let ?n = "length ts" let ?i = "start mod length ts"
  have i: "?i < ?n" using assms by simp
  have le2: "p \<le> 2 \<longleftrightarrow> p = 0 \<or> p = 1 \<or> p = 2" for p :: u8
    by (simp add: word_le_nat_alt unat_eq_0 [symmetric] word_unat_eq_iff) (auto simp: le_Suc_eq numeral_2_eq_2)
  have el: "(state (ts ! k) = Ready \<and> priority (ts ! k) \<le> 2)
      \<longleftrightarrow> eligible ts 0 k \<or> eligible ts 1 k \<or> eligible ts 2 k" for k
    by (auto simp: le2 eligible_def)
  note S = scan_ready_Some [OF _ i] and N = scan_ready_None [OF _ i]
  show ?thesis
  proof (cases "scan_ready ts 2 ?i ?n")
    case (Some j)
    then have "find_next_ready ts start = Some j" using assms by (simp add: find_next_ready_def)
    with S [OF Some] show ?thesis by (auto simp: eligible_def)
  next
    case n2: None
    show ?thesis
    proof (cases "scan_ready ts 1 ?i ?n")
      case (Some j)
      then have "find_next_ready ts start = Some j" using assms n2 by (simp add: find_next_ready_def)
      with S [OF Some] N [OF n2] show ?thesis by (auto simp: el) (auto simp: eligible_def)
    next
      case n1: None
      have f: "find_next_ready ts start = scan_ready ts 0 ?i ?n"
        using assms n2 n1 by (simp add: find_next_ready_def Let_def)
      show ?thesis
      proof (cases "scan_ready ts 0 ?i ?n")
        case (Some j)
        with f S [OF Some] N [OF n2] N [OF n1] show ?thesis by (auto simp: el) (auto simp: eligible_def)
      next
        case None
        with f N [OF n2] N [OF n1] N [OF None] show ?thesis by (auto simp: el)
      qed
    qed
  qed
qed

section \<open>The sweep\<close>

definition alive :: "task \<Rightarrow> bool" where
  "alive t \<longleftrightarrow> state t \<noteq> Dead"

lemma sweep_dead_Some:
  "sweep_dead i ts cur = Some (ts', cur') \<Longrightarrow> i \<le> length ts \<Longrightarrow>
     ts' = take i ts @ filter alive (drop i ts)
     \<and> cur' = cur - length (filter (\<lambda>t. \<not> alive t) (take (cur - i) (drop i ts)))"
proof (induction i ts cur rule: sweep_dead.induct)
  case (1 i ts cur)
  show ?case
  proof (cases "i < length ts")
    case True
    have d: "drop i ts = ts ! i # drop (Suc i) ts" using True by (simp add: Cons_nth_drop_Suc)
    show ?thesis
    proof (cases "state (ts ! i) = Dead")
      case dead: True
      from "1.prems" dead True have c: "check_stack_canary (ts ! i)"
        by (subst (asm) sweep_dead.simps) (auto split: if_splits)
      with "1.prems" dead True have "sweep_dead i (take i ts @ drop (Suc i) ts) (if i < cur then cur - 1 else cur)
          = Some (ts', cur')" by (subst (asm) sweep_dead.simps) simp
      from "1.IH"(1) [OF True dead _ this] c True dead d show ?thesis
        by (auto simp: alive_def take_Cons' Suc_diff_Suc)
    next
      case False
      with "1.prems" True have "sweep_dead (i + 1) ts cur = Some (ts', cur')"
        by (subst (asm) sweep_dead.simps) simp
      from "1.IH"(2) [OF True False this] True False d show ?thesis
        by (auto simp: alive_def take_Suc_conv_app_nth take_Cons')
    qed
  next
    case False
    with "1.prems" show ?thesis by (subst (asm) sweep_dead.simps) simp
  qed
qed

lemma sweep_dead_current:
  assumes "sweep_dead 0 ts cur = Some (ts', cur')" "cur < length ts" "alive (ts ! cur)"
  shows "ts' = filter alive ts" "cur' < length ts'" "ts' ! cur' = ts ! cur"
    "cur' = length (filter alive (take cur ts))"
proof -
  from sweep_dead_Some [OF assms(1)] have s: "ts' = filter alive ts"
    "cur' = cur - length (filter (\<lambda>t. \<not> alive t) (take cur ts))" by auto
  have "length (filter alive (take cur ts)) + length (filter (\<lambda>t. \<not> alive t) (take cur ts)) = cur"
    using assms(2) sum_length_filter_compl [of alive "take cur ts"] by simp
  with s show c: "cur' = length (filter alive (take cur ts))" by simp
  have "ts = take cur ts @ ts ! cur # drop (Suc cur) ts" using assms(2) by (simp add: id_take_nth_drop)
  then have "filter alive ts = filter alive (take cur ts) @ ts ! cur # filter alive (drop (Suc cur) ts)"
    using assms(3) by (metis filter.simps(2) filter_append)
  with s(1) c show "ts' ! cur' = ts ! cur" "cur' < length ts'" by (simp_all add: nth_append)
  show "ts' = filter alive ts" by (rule s(1))
qed

section \<open>The scheduler invariant\<close>

text \<open>A well-formed task list whose running tasks stand at the indices \<open>R\<close>: ids are distinct and
  below the next id, priorities are valid.\<close>

definition tasks_inv :: "nat set \<Rightarrow> u64 \<Rightarrow> task list \<Rightarrow> bool" where
  "tasks_inv R nid ts \<longleftrightarrow> distinct (map tid ts) \<and> (\<forall>t \<in> set ts. tid t < nid \<and> priority t \<le> 2)
     \<and> {k. k < length ts \<and> state (ts ! k) = Running} = R"

definition sched_inv :: "sched \<Rightarrow> bool" where
  "sched_inv s \<longleftrightarrow> current s < length (tasks s) \<and> tasks_inv {current s} (next_id s) (tasks s)"

lemma map_set_state:
  "(\<And>t. f (t\<lparr>state := st\<rparr>) = f t) \<Longrightarrow> map f (set_state k st ts) = map f ts"
  by (cases "k < length ts"; intro nth_equalityI) (auto simp: set_state_def nth_list_update)

lemma set_state_simps [simp]:
  "length (set_state k st ts) = length ts" "map tid (set_state k st ts) = map tid ts"
  by (simp_all add: set_state_def map_set_state [unfolded set_state_def])

lemma set_state_nth: "k < length ts \<Longrightarrow> j < length ts \<Longrightarrow>
    set_state k st ts ! j = (if j = k then (ts ! k)\<lparr>state := st\<rparr> else ts ! j)"
  by (simp add: set_state_def nth_list_update)

lemma set_state_mem: "t \<in> set (set_state k st ts) \<Longrightarrow> k < length ts \<Longrightarrow>
    \<exists>u \<in> set ts. tid t = tid u \<and> priority t = priority u"
  by (auto simp: set_state_def in_set_conv_nth nth_list_update split: if_splits intro!: bexI [OF _ nth_mem])

lemma tasks_inv_set_state:
  assumes "tasks_inv R nid ts" "k < length ts"
  shows "tasks_inv (if st = Running then insert k R else R - {k}) nid (set_state k st ts)"
  unfolding tasks_inv_def
proof (intro conjI ballI)
  show "distinct (map tid (set_state k st ts))" using assms by (simp add: tasks_inv_def)
  show "tid t < nid" "priority t \<le> 2" if "t \<in> set (set_state k st ts)" for t
    using set_state_mem [OF that assms(2)] assms(1) by (auto simp: tasks_inv_def)
  show "{j. j < length (set_state k st ts) \<and> state (set_state k st ts ! j) = Running}
      = (if st = Running then insert k R else R - {k})"
    using assms by (auto simp: tasks_inv_def set_state_nth split: if_splits)
qed

lemma tasks_inv_wake_in:
  assumes "tasks_inv R nid ts"
  shows "tasks_inv R nid (wake_in i ts)"
proof (cases "find_task i ts")
  case (Some k)
  then have k: "k < length ts" by (auto simp: find_task_def dest: position_bound)
  show ?thesis
  proof (cases "state (ts ! k) = Blocked")
    case True
    then have "R - {k} = R" using assms by (auto simp: tasks_inv_def)
    with tasks_inv_set_state [OF assms k, where st = Ready] True Some show ?thesis
      by (simp add: wake_in_def)
  qed (use assms Some in \<open>simp add: wake_in_def\<close>)
qed (use assms in \<open>simp add: wake_in_def\<close>)

lemma length_wake_in [simp]: "length (wake_in i ts) = length ts"
  by (simp add: wake_in_def split: option.splits)

lemma wake_waiters_inv:
  "wake_waiters d ws ts = (ws', ts') \<Longrightarrow> tasks_inv R nid ts \<Longrightarrow>
     tasks_inv R nid ts' \<and> length ts' = length ts"
proof (induction d ws ts arbitrary: ws' ts' rule: wake_waiters.induct)
  case (3 d w target ws ts)
  then show ?case
    by (cases "target = d") (auto split: prod.splits dest: tasks_inv_wake_in)
qed (auto split: prod.splits)

lemma tasks_inv_sweep:
  assumes "sweep_dead 0 ts cur = Some (ts', cur')" "tasks_inv {cur} nid ts" "cur < length ts"
  shows "cur' < length ts'" "tasks_inv {cur'} nid ts'"
proof -
  have run: "state (ts ! cur) = Running" using assms(2,3) by (auto simp: tasks_inv_def)
  then have al: "alive (ts ! cur)" by (simp add: alive_def)
  note sw = sweep_dead_current [OF assms(1,3) al]
  show c: "cur' < length ts'" by (rule sw(2))
  have dist: "distinct (map tid ts')"
    using assms(2) distinct_map_filter [of tid ts alive] by (simp add: sw(1) tasks_inv_def)
  have sub: "set ts' \<subseteq> set ts" by (simp add: sw(1))
  have only: "k = cur'" if k: "k < length ts'" "state (ts' ! k) = Running" for k
  proof -
    have "ts' ! k \<in> set ts" using nth_mem [OF k(1)] sub by blast
    then obtain j where j: "j < length ts" "ts ! j = ts' ! k" by (auto simp: in_set_conv_nth)
    then have "j \<in> {k. k < length ts \<and> state (ts ! k) = Running}" using k(2) by simp
    then have "j = cur" using assms(2) by (simp only: tasks_inv_def singleton_iff)
    then have "ts' ! k = ts' ! cur'" using j(2) sw(3) by simp
    then have "map tid ts' ! k = map tid ts' ! cur'" using k(1) c by simp
    then show ?thesis using dist k(1) c by (simp only: nth_eq_iff_index_eq length_map)
  qed
  have "state (ts' ! cur') = Running" using run sw(3) by simp
  with only c have "{k. k < length ts' \<and> state (ts' ! k) = Running} = {cur'}" by blast
  moreover have "\<forall>t \<in> set ts'. tid t < nid \<and> priority t \<le> 2"
    using assms(2) sub by (auto simp: tasks_inv_def)
  ultimately show "tasks_inv {cur'} nid ts'" using dist by (simp only: tasks_inv_def)
qed

lemma find_next_ready_scan:
  "find_next_ready ts i = Some j \<Longrightarrow>
     ts \<noteq> [] \<and> (\<exists>p. scan_ready ts p (i mod length ts) (length ts) = Some j)"
  by (auto simp: find_next_ready_def Let_def split: if_splits option.splits)

lemma find_next_ready_bound:
  assumes "find_next_ready ts i = Some j"
  shows "j < length ts" "state (ts ! j) = Ready"
proof -
  from find_next_ready_scan [OF assms] obtain p where
    p: "scan_ready ts p (i mod length ts) (length ts) = Some j" and "i mod length ts < length ts" by auto
  from scan_ready_Some(1,2) [OF this] show "j < length ts" "state (ts ! j) = Ready"
    by (simp_all add: eligible_def)
qed

lemma find_next_ready_not_None:
  assumes "k < length ts" "state (ts ! k) = Ready" "priority (ts ! k) \<le> 2"
  shows "find_next_ready ts i \<noteq> None"
proof
  assume N: "find_next_ready ts i = None"
  have "ts \<noteq> []" using assms(1) by auto
  with N have s: "scan_ready ts p (i mod length ts) (length ts) = None" if "p \<in> {0, 1, 2}" for p
    using that by (auto simp: find_next_ready_def Let_def split: option.splits)
  have i: "i mod length ts < length ts" using assms(1) by (intro mod_less_divisor) linarith
  have "priority (ts ! k) \<in> {0, 1, 2}"
    using assms(3) by (simp add: word_le_nat_alt word_unat_eq_iff) (auto simp: le_Suc_eq numeral_2_eq_2)
  from scan_ready_None [OF s [OF this] i assms(1)] assms(2) show False by (simp add: eligible_def)
qed

text \<open>Every operation that leaves a task running, from the state of a running task.  A new task
  needs an id the 64-bit counter has not yet wrapped onto.\<close>

inductive sched_step :: "sched \<Rightarrow> sched \<Rightarrow> bool" where
  spawn: "next_id s + 1 \<noteq> 0 \<Longrightarrow> sched_step s (snd (spawn_task pt s))"
| yield: "yield_task s = (Ok r, s') \<Longrightarrow> sched_step s s'"
| timer: "timer_interrupt_handler (k, s) = (Ok r, k', s') \<Longrightarrow> sched_step s s'"
| block: "block_and_yield s = (Ok Switched, s') \<Longrightarrow> sched_step s s'"
| sleep: "sleep_until w s = (Ok Switched, s') \<Longrightarrow> sched_step s s'"
| wait: "wait_for_task_enter i s = (Ok r, s') \<Longrightarrow> r \<noteq> Halted \<Longrightarrow> sched_step s s'"
| resume: "sched_step s (snd (wait_for_task_resume i s))"
| exit: "task_exit st s = (Ok Switched, s') \<Longrightarrow> sched_step s s'"
| kill: "sched_step s (snd (kill_task i s))"
| wake: "sched_step s (wake_task i s)"
| block_other: "sched_step s (block_task i s)"
| set_priority: "sched_step s (snd (set_task_priority i p s))"

inductive sched_reach :: "sched \<Rightarrow> bool" where
  init: "sched_reach sched_init"
| step: "sched_reach s \<Longrightarrow> sched_step s s' \<Longrightarrow> sched_reach s'"

lemma sched_inv_other [simp]:
  "sched_inv (s\<lparr>waiters := w\<rparr>) = sched_inv s" "sched_inv (s\<lparr>sleep_queue := q\<rparr>) = sched_inv s"
  "sched_inv (s\<lparr>exit_records := e\<rparr>) = sched_inv s"
  by (simp_all add: sched_inv_def)

lemma sched_inv_running:
  "sched_inv s \<Longrightarrow> k < length (tasks s) \<Longrightarrow> state (tasks s ! k) = Running \<longleftrightarrow> k = current s"
  by (auto simp: sched_inv_def tasks_inv_def)

lemma sched_inv_init: "sched_inv sched_init"
  by (auto simp: sched_inv_def tasks_inv_def sched_init_def)

lemma switch_to_inv:
  assumes "tasks_inv {} (next_id s) (tasks s)" "k < length (tasks s)"
  shows "sched_inv (switch_to k s)"
  using tasks_inv_set_state [OF assms, where st = Running] assms(2)
  by (simp add: sched_inv_def switch_to_def)

lemma yield_task_inv:
  assumes "sched_inv s" "yield_task s = (Ok r, s')"
  shows "sched_inv s'"
proof -
  from assms(2) obtain ts cur where sw: "sweep_dead 0 (tasks s) (current s) = Some (ts, cur)"
    by (auto simp: yield_task_def split: if_splits option.splits)
  from tasks_inv_sweep [OF sw] assms(1) have i: "cur < length ts" "tasks_inv {cur} (next_id s) ts"
    by (auto simp: sched_inv_def)
  let ?s1 = "s\<lparr>tasks := ts, current := cur\<rparr>"
  have s1: "sched_inv ?s1" using i by (simp add: sched_inv_def)
  have idle: "tasks_inv {} (next_id s) (set_state cur Ready ts)"
    using tasks_inv_set_state [OF i(2,1), where st = Ready] by simp
  consider "s' = ?s1" | nxt where "find_next_ready ts ((cur + 1) mod length ts) = Some nxt"
      "s' = switch_to nxt (?s1\<lparr>tasks := set_state cur Ready ts\<rparr>)"
    using assms(2) sw by (auto simp: yield_task_def Let_def split: if_splits option.splits)
  then show ?thesis
  proof cases
    case 2
    from find_next_ready_bound(1) [OF 2(1)] idle show ?thesis
      unfolding 2(2) by (intro switch_to_inv) simp_all
  qed (use s1 in simp)
qed

lemma block_and_yield_inv:
  assumes "sched_inv s" "block_and_yield s = (Ok Switched, s')"
  shows "sched_inv s'"
proof -
  from assms(2) obtain ts cur where sw: "sweep_dead 0 (tasks s) (current s) = Some (ts, cur)"
    by (auto simp: block_and_yield_def split: if_splits option.splits)
  from tasks_inv_sweep [OF sw] assms(1) have i: "cur < length ts" "tasks_inv {cur} (next_id s) ts"
    by (auto simp: sched_inv_def)
  let ?s1 = "s\<lparr>tasks := set_state cur Blocked ts, current := cur\<rparr>"
  have idle: "tasks_inv {} (next_id s) (set_state cur Blocked ts)"
    using tasks_inv_set_state [OF i(2,1), where st = Blocked] by simp
  obtain nxt where n: "find_next_ready (set_state cur Blocked ts) ((cur + 1) mod length ts) = Some nxt"
    "s' = switch_to nxt ?s1"
    using assms(2) sw by (auto simp: block_and_yield_def Let_def split: if_splits option.splits)
  from find_next_ready_bound(1) [OF n(1)] idle show ?thesis
    unfolding n(2) by (intro switch_to_inv) simp_all
qed

lemma task_exit_inv:
  assumes "sched_inv s" "task_exit st s = (Ok Switched, s')"
  shows "sched_inv s'"
proof -
  let ?ts0 = "set_state (current s) Dead (tasks s)"
  obtain ws ts1 where ww: "wake_waiters (tid (tasks s ! current s)) (waiters s) ?ts0 = (ws, ts1)"
    by fastforce
  have "tasks_inv {} (next_id s) ?ts0"
    using tasks_inv_set_state [where st = Dead] assms(1) by (fastforce simp: sched_inv_def)
  with wake_waiters_inv [OF ww] have i: "tasks_inv {} (next_id s) ts1" by blast
  obtain nxt ers where n: "find_next_ready ts1 ((current s + 1) mod length ts1) = Some nxt"
    "s' = switch_to nxt (s\<lparr>tasks := ts1, exit_records := ers, waiters := ws\<rparr>)"
    using assms(2) ww by (auto simp: task_exit_def Let_def split: if_splits option.splits)
  from find_next_ready_bound(1) [OF n(1)] i show ?thesis
    unfolding n(2) by (intro switch_to_inv) simp_all
qed

lemma kill_task_inv:
  assumes "sched_inv s"
  shows "sched_inv (snd (kill_task i s))"
proof (cases "i = 0 \<or> i = tid (tasks s ! current s) \<or> position (\<lambda>t. tid t = i \<and> state t \<noteq> Dead) (tasks s) = None")
  case True
  then show ?thesis using assms by (auto simp: kill_task_def)
next
  case False
  then obtain k where k: "position (\<lambda>t. tid t = i \<and> state t \<noteq> Dead) (tasks s) = Some k"
    and ne: "i \<noteq> 0" "i \<noteq> tid (tasks s ! current s)" by auto
  from position_bound [OF k] ne have kb: "k < length (tasks s)" "k \<noteq> current s" by auto
  obtain ws ts1 where ww: "wake_waiters i (waiters s) (set_state k Dead (tasks s)) = (ws, ts1)" by fastforce
  have "tasks_inv ({current s} - {k}) (next_id s) (set_state k Dead (tasks s))"
    using tasks_inv_set_state [OF _ kb(1), where st = Dead] assms by (fastforce simp: sched_inv_def)
  moreover have "{current s} - {k} = {current s}" using kb(2) by auto
  ultimately have "tasks_inv {current s} (next_id s) ts1 \<and> length ts1 = length (tasks s)"
    using wake_waiters_inv [OF ww] by simp
  then show ?thesis using assms k ww ne by (simp add: kill_task_def Let_def sched_inv_def)
qed

lemma wake_task_inv: "sched_inv s \<Longrightarrow> sched_inv (wake_task i s)"
  by (simp add: sched_inv_def wake_task_def tasks_inv_wake_in)

lemma block_task_inv:
  assumes "sched_inv s"
  shows "sched_inv (block_task i s)"
proof (cases "find_task i (tasks s)")
  case (Some k)
  then have k: "k < length (tasks s)" by (auto simp: find_task_def dest: position_bound)
  show ?thesis
  proof (cases "state (tasks s ! k) = Ready")
    case True
    then have "{current s} - {k} = {current s}" using sched_inv_running [OF assms k] by auto
    with tasks_inv_set_state [OF _ k, where st = Blocked] assms have
      "tasks_inv {current s} (next_id s) (set_state k Blocked (tasks s))" by (fastforce simp: sched_inv_def)
    then show ?thesis using assms Some True by (simp add: block_task_def sched_inv_def)
  qed (use assms Some in \<open>simp add: block_task_def\<close>)
qed (use assms in \<open>simp add: block_task_def\<close>)

lemma set_task_priority_inv:
  assumes "sched_inv s"
  shows "sched_inv (snd (set_task_priority i p s))"
proof (cases "p > 2 \<or> position (\<lambda>t. tid t = i \<and> state t \<noteq> Dead) (tasks s) = None")
  case True
  then show ?thesis using assms by (auto simp: set_task_priority_def)
next
  case False
  then obtain k where k: "position (\<lambda>t. tid t = i \<and> state t \<noteq> Dead) (tasks s) = Some k" "\<not> p > 2" by auto
  then have kb: "k < length (tasks s)" by (auto dest: position_bound)
  let ?ts = "(tasks s)[k := (tasks s ! k)\<lparr>priority := p\<rparr>]"
  have m: "map tid ?ts = map tid (tasks s)" "map state ?ts = map state (tasks s)"
    using kb by (simp_all add: list_eq_iff_nth_eq nth_list_update)
  have st: "state (?ts ! j) = state (tasks s ! j)" for j
    using kb by (cases "j = k") simp_all
  have "tid t < next_id s \<and> priority t \<le> 2" if "t \<in> set ?ts" for t
    using set_update_subset_insert [THEN subsetD, OF that] assms k(2) nth_mem [OF kb]
    by (auto simp: sched_inv_def tasks_inv_def)
  then have "sched_inv (s\<lparr>tasks := ?ts\<rparr>)"
    using assms m(1) by (simp add: sched_inv_def tasks_inv_def st)
  then show ?thesis using k by (simp add: set_task_priority_def)
qed

lemma spawn_task_inv:
  assumes "sched_inv s" "next_id s + 1 \<noteq> 0"
  shows "sched_inv (snd (spawn_task pt s))"
proof -
  let ?n = "next_id s"
  have "unat (1 + ?n) = Suc (unat ?n)" using assms(2) by (intro unatSuc) (simp add: add.commute)
  then have lt: "?n < ?n + 1" by (simp only: word_less_nat_alt add.commute [of _ 1] lessI)
  then have lt': "x < ?n + 1" if "x < ?n" for x using that by (rule less_trans [rotated])
  have fresh: "?n \<notin> tid ` set (tasks s)" using assms(1) by (auto simp: sched_inv_def tasks_inv_def)
  define t where "t = \<lparr>tid = ?n, parent = tid (tasks s ! current s), state = Ready, priority = 1,
    canary = Some STACK_CANARY, page_table = pt, vma_list = []\<rparr>"
  have t: "tid t = ?n" "state t = Ready" "priority t = 1" by (simp_all add: t_def)
  have "{k. k < length (tasks s @ [t]) \<and> state ((tasks s @ [t]) ! k) = Running} = {current s}"
    using assms(1) t(2) by (auto simp: sched_inv_def tasks_inv_def nth_append less_Suc_eq)
  moreover have "\<forall>u \<in> set (tasks s @ [t]). tid u < ?n + 1 \<and> priority u \<le> 2"
    using assms(1) t lt lt' by (auto simp: sched_inv_def tasks_inv_def)
  moreover have "distinct (map tid (tasks s @ [t]))"
    using assms(1) fresh t(1) by (simp add: sched_inv_def tasks_inv_def)
  ultimately show ?thesis using assms(1)
    by (simp add: spawn_task_def t_def [symmetric] sched_inv_def tasks_inv_def del: map_append set_append)
qed

lemma wake_sleepers_inv:
  assumes "sched_inv s"
  shows "sched_inv (wake_sleepers now s)"
proof -
  have "sched_inv (fold wake_task is u)" if "sched_inv u" for "is" u
    using that by (induction "is" arbitrary: u) (simp_all add: wake_task_inv)
  then show ?thesis using assms by (simp add: wake_sleepers_def)
qed

lemma sched_step_inv: "sched_step s s' \<Longrightarrow> sched_inv s \<Longrightarrow> sched_inv s'"
proof (induction rule: sched_step.induct)
  case (timer k s r k' s')
  then show ?case
    using yield_task_inv [OF wake_sleepers_inv]
    by (auto simp: timer_interrupt_handler_def Let_def split: prod.splits)
next
  case (wait i s r s')
  show ?case
  proof (cases "task_status_raw i s = 0")
    case False
    have "r = Switched" using wait.hyps False
      by (cases r) (auto simp: wait_for_task_enter_def block_and_yield_def Let_def
          split: if_splits option.splits)
    with wait.hyps False wait.prems show ?thesis
      by (auto simp: wait_for_task_enter_def intro: block_and_yield_inv [rotated])
  qed (use wait in \<open>simp add: wait_for_task_enter_def\<close>)
next
  case (resume s i)
  then show ?case by (simp add: wait_for_task_resume_def split: prod.splits)
next
  case (sleep w s s')
  then show ?case by (auto simp: sleep_until_def intro: block_and_yield_inv [rotated])
qed (auto intro: spawn_task_inv yield_task_inv block_and_yield_inv task_exit_inv kill_task_inv
      wake_task_inv block_task_inv set_task_priority_inv)


section \<open>Exit statuses reach the waiter\<close>

lemma consume_recorded:
  assumes "sp \<noteq> d"
  shows "\<exists>i. position (\<lambda>r. er_child r = c) (reap_children_of d (record_exit c sp st rs)) = Some i
    \<and> er_status (reap_children_of d (record_exit c sp st rs) ! i) = st"
  using assms
proof (induction rs)
  case (Cons r rs)
  show ?case
  proof (cases "er_child r = c")
    case False
    with Cons show ?thesis by (auto simp: reap_children_of_def)
  qed (use assms in \<open>auto simp: reap_children_of_def\<close>)
qed (simp add: reap_children_of_def)

lemma wake_in_nth:
  "k < length ts \<Longrightarrow> wake_in i ts ! k = ts ! k \<or> wake_in i ts ! k = (ts ! k)\<lparr>state := Ready\<rparr>"
  by (cases "find_task i ts")
    (auto simp: wake_in_def find_task_def set_state_def nth_list_update dest!: position_bound)

lemma wake_in_awake:
  assumes "distinct (map tid ts)" "t \<in> set (wake_in i ts)" "tid t = i"
  shows "state t \<noteq> Blocked"
proof -
  obtain k where k: "k < length ts" "t = wake_in i ts ! k" using assms(2) by (auto simp: in_set_conv_nth)
  then have ti: "tid (ts ! k) = i" using wake_in_nth [OF k(1), of i] assms(3) by auto
  then obtain j where j: "find_task i ts = Some j" "j < length ts" "tid (ts ! j) = i"
    using k(1) position_None [of "\<lambda>t. tid t = i" ts] nth_mem [OF k(1)]
    by (cases "find_task i ts") (auto simp: find_task_def dest: position_bound)
  have "map tid ts ! j = map tid ts ! k" using j k(1) ti by simp
  then have "j = k" using assms(1) j(2) k(1) by (simp only: nth_eq_iff_index_eq length_map)
  then show ?thesis using j k by (auto simp: wake_in_def set_state_nth split: if_splits)
qed

text \<open>Every task of \<open>us\<close> is the task of \<open>ts\<close> at the same index, or that task made runnable.\<close>

definition only_woken :: "task list \<Rightarrow> task list \<Rightarrow> bool" where
  "only_woken ts us \<longleftrightarrow> length us = length ts \<and> map tid us = map tid ts
     \<and> (\<forall>k < length ts. state (us ! k) = state (ts ! k) \<or> state (us ! k) = Ready)"

lemma only_woken_wake_in: "only_woken ts (wake_in i ts)"
  unfolding only_woken_def
proof (intro conjI allI impI)
  show "map tid (wake_in i ts) = map tid ts" by (simp add: wake_in_def split: option.splits)
  show "state (wake_in i ts ! k) = state (ts ! k) \<or> state (wake_in i ts ! k) = Ready" if "k < length ts" for k
    using wake_in_nth [OF that, of i] by auto
qed simp

lemma only_wokenD:
  assumes "only_woken ts us"
  shows "length us = length ts" "map tid us = map tid ts"
    "k < length ts \<Longrightarrow> state (us ! k) = state (ts ! k) \<or> state (us ! k) = Ready"
  using assms unfolding only_woken_def by blast+

lemma only_woken_trans:
  assumes "only_woken ts us" "only_woken us vs"
  shows "only_woken ts vs"
  unfolding only_woken_def
proof (intro conjI allI impI)
  show "length vs = length ts" "map tid vs = map tid ts"
    using only_wokenD(1,2) [OF assms(1)] only_wokenD(1,2) [OF assms(2)] by simp_all
  show "state (vs ! k) = state (ts ! k) \<or> state (vs ! k) = Ready" if "k < length ts" for k
    using only_wokenD(3) [OF assms(1), of k] only_wokenD(1) [OF assms(1)]
      only_wokenD(3) [OF assms(2), of k] that by force
qed

definition awake :: "u64 \<Rightarrow> task list \<Rightarrow> bool" where
  "awake i ts \<longleftrightarrow> (\<forall>t \<in> set ts. tid t = i \<longrightarrow> state t \<noteq> Blocked)"

lemma only_woken_awake:
  assumes "only_woken ts us" "awake i ts"
  shows "awake i us"
  unfolding awake_def
proof (intro ballI impI)
  fix t assume "t \<in> set us" "tid t = i"
  then obtain k where k: "k < length ts" "t = us ! k" "tid (us ! k) = i"
    using only_wokenD(1) [OF assms(1)] by (auto simp: in_set_conv_nth)
  have "map tid us ! k = map tid ts ! k" using only_wokenD(2) [OF assms(1)] by simp
  then have "tid (ts ! k) = i" using k only_wokenD(1) [OF assms(1)] by simp
  then have "state (ts ! k) \<noteq> Blocked" using assms(2) nth_mem [OF k(1)] unfolding awake_def by blast
  with only_wokenD(3) [OF assms(1) k(1)] k(2) show "state t \<noteq> Blocked" by auto
qed

lemma wake_waiters_spec:
  "wake_waiters d ws ts = (ws', ts') \<Longrightarrow> distinct (map tid ts) \<Longrightarrow>
     only_woken ts ts' \<and> (\<forall>w. Some (w, d) \<notin> set ws') \<and> (\<forall>w. Some (w, d) \<in> set ws \<longrightarrow> awake w ts')"
proof (induction d ws ts arbitrary: ws' ts' rule: wake_waiters.induct)
  case (1 d ts)
  then show ?case by (simp add: only_woken_def)
next
  case (2 d ws ts)
  then show ?case by (auto split: prod.splits)
next
  case (3 d w target ws ts)
  show ?case
  proof (cases "target = d")
    case True
    have o: "only_woken ts (wake_in w ts)" by (rule only_woken_wake_in)
    then have dw: "distinct (map tid (wake_in w ts))" using "3.prems"(2) by (simp add: only_woken_def)
    obtain ws1 where w1: "wake_waiters d ws (wake_in w ts) = (ws1, ts')" "ws' = None # ws1"
      using "3.prems"(1) True by (auto split: prod.splits)
    from "3.IH"(1) [OF True w1(1) dw] have IH: "only_woken (wake_in w ts) ts'"
      "\<forall>v. Some (v, d) \<notin> set ws1" "\<forall>v. Some (v, d) \<in> set ws \<longrightarrow> awake v ts'" by blast+
    have "awake w (wake_in w ts)" unfolding awake_def using wake_in_awake [OF "3.prems"(2)] by blast
    then have "awake w ts'" by (rule only_woken_awake [OF IH(1)])
    moreover have "only_woken ts ts'" by (rule only_woken_trans [OF o IH(1)])
    ultimately show ?thesis using IH(2,3) w1(2) True by simp
  next
    case False
    then obtain ws1 where w1: "wake_waiters d ws ts = (ws1, ts')" "ws' = Some (w, target) # ws1"
      using "3.prems"(1) by (auto split: prod.splits)
    from "3.IH"(2) [OF False w1(1) "3.prems"(2)] w1(2) False show ?thesis by simp
  qed
qed

text \<open>C29. When a task exits, its status is the next thing a wait on it returns, no wait entry for it is
  left behind, and no task registered as waiting for it stays blocked.\<close>

theorem task_exit_delivers:
  assumes "sched_inv s" "task_exit st s = (Ok Switched, s')"
    and "d = current_task_id s" "parent (tasks s ! current s) \<noteq> d"
  shows "fst (wait_for_task_resume d s') = ucast st
    \<and> (\<forall>w. Some (w, d) \<notin> set (waiters s'))
    \<and> (\<forall>w. Some (w, d) \<in> set (waiters s) \<longrightarrow>
         (\<forall>t \<in> set (tasks s'). tid t = w \<longrightarrow> state t \<noteq> Blocked))"
proof -
  let ?ts0 = "set_state (current s) Dead (tasks s)"
  let ?ers = "reap_children_of d (record_exit d (parent (tasks s ! current s)) st (exit_records s))"
  obtain ws ts1 where ww: "wake_waiters d (waiters s) ?ts0 = (ws, ts1)" by fastforce
  have dd: "d = tid (tasks s ! current s)" using assms(3) by (simp add: current_task_id_def)
  have "distinct (map tid ?ts0)" using assms(1) by (simp add: sched_inv_def tasks_inv_def)
  note sp = wake_waiters_spec [OF ww this]
  obtain nxt where n: "find_next_ready ts1 ((current s + 1) mod length ts1) = Some nxt"
    "s' = switch_to nxt (s\<lparr>tasks := ts1, exit_records := ?ers, waiters := ws\<rparr>)"
    using assms(2) ww dd by (auto simp: task_exit_def Let_def split: if_splits option.splits)
  have "fst (wait_for_task_resume d s') = ucast st"
    using consume_recorded [OF assms(4), of d st "exit_records s"] n(2)
    by (auto simp: wait_for_task_resume_def consume_exit_def switch_to_def)
  moreover have "state t \<noteq> Blocked" if "Some (w, d) \<in> set (waiters s)" "t \<in> set (tasks s')" "tid t = w" for w t
  proof -
    have "t \<in> set (set_state nxt Running ts1)" using that(2) n(2) by (simp add: switch_to_def)
    then have "t \<in> set ts1 \<or> t = (ts1 ! nxt)\<lparr>state := Running\<rparr>"
      unfolding set_state_def using set_update_subset_insert [of ts1 nxt] by blast
    moreover have "awake w ts1" using sp that(1) by blast
    ultimately show ?thesis using that(3) by (auto simp: awake_def)
  qed
  moreover have "\<forall>w. Some (w, d) \<notin> set (waiters s')" using sp n(2) by (simp add: switch_to_def)
  ultimately show ?thesis by blast
qed

section \<open>Address ranges stay sorted and disjoint\<close>

definition vma_ok :: "(u64 \<times> u64) list \<Rightarrow> bool" where
  "vma_ok v \<longleftrightarrow> (\<forall>r \<in> set v. fst r < snd r) \<and> sorted_wrt (\<lambda>a b. snd a \<le> fst b) v"

lemma vma_ok_append:
  "vma_ok (a @ b) \<longleftrightarrow> vma_ok a \<and> vma_ok b \<and> (\<forall>x \<in> set a. \<forall>y \<in> set b. snd x \<le> fst y)"
  by (auto simp: vma_ok_def sorted_wrt_append)

lemma vma_ok_Cons: "vma_ok (r # b) \<longleftrightarrow> fst r < snd r \<and> vma_ok b \<and> (\<forall>y \<in> set b. snd r \<le> fst y)"
  by (auto simp: vma_ok_def)

lemma vma_split:
  assumes "vma_ok v"
  shows "\<exists>a b. v = a @ b \<and> partition_point (\<lambda>(s, _). s < va) v = length a
    \<and> (\<forall>x \<in> set a. fst x < va) \<and> (\<forall>y \<in> set b. va \<le> fst y)"
proof (intro exI conjI)
  let ?p = "\<lambda>(s :: u64, _ :: u64). s < va"
  show "v = takeWhile ?p v @ dropWhile ?p v" by simp
  show "\<forall>x \<in> set (takeWhile ?p v). fst x < va" by (auto dest: set_takeWhileD)
  show "\<forall>y \<in> set (dropWhile ?p v). va \<le> fst y"
  proof (cases "dropWhile ?p v")
    case (Cons r b)
    have "va \<le> fst r" using hd_dropWhile [of ?p v] Cons by (auto simp: not_less split: prod.splits)
    moreover have "vma_ok (r # b)" using assms takeWhile_dropWhile_id [of ?p v] Cons
      by (metis vma_ok_append)
    ultimately show ?thesis using Cons by (force simp: vma_ok_Cons)
  next
    case Nil
    show ?thesis unfolding Nil by simp
  qed
qed (simp add: partition_point_def)

text \<open>A range ends at or before \<open>va\<close> or starts at or after the end of its page.\<close>

definition clear_of :: "u64 \<Rightarrow> u64 \<times> u64 \<Rightarrow> bool" where
  "clear_of va r \<longleftrightarrow> snd r \<le> va \<or> va + 0x1000 \<le> fst r"

lemma vma_before:
  assumes "vma_ok a" "\<forall>x \<in> set a. fst x < va"
  shows "(\<forall>x \<in> set a. snd x \<le> va) \<longleftrightarrow> \<not> (length a > 0 \<and> snd (a ! (length a - 1)) > va)"
proof (cases a rule: rev_cases)
  case (snoc a' z)
  have "snd x \<le> va" if "x \<in> set a'" for x
    using assms snoc that by (force simp: vma_ok_append)
  then show ?thesis using snoc by (auto simp: not_less)
qed simp

lemma vma_after:
  assumes "vma_ok b"
  shows "(\<forall>y \<in> set b. e \<le> fst y) \<longleftrightarrow> \<not> (length b > 0 \<and> fst (b ! 0) < e)"
proof (cases b)
  case (Cons z b')
  have "e \<le> fst y" if "e \<le> fst z" "y \<in> set b'" for y
    using assms Cons that by (force simp: vma_ok_Cons)
  then show ?thesis using Cons by (auto simp: not_less)
qed simp

text \<open>C30. Recording a mapped page succeeds exactly when no recorded range overlaps it; it then adds
  that page and keeps the ranges sorted and disjoint, and otherwise changes nothing.\<close>

theorem vma_insert_spec:
  assumes "vma_ok v" "va < va + 0x1000"
  shows "case vma_insert va v of (ok, v') \<Rightarrow>
    (ok \<longleftrightarrow> (\<forall>r \<in> set v. clear_of va r))
    \<and> (ok \<longrightarrow> vma_ok v' \<and> set v' = insert (va, va + 0x1000) (set v))
    \<and> (\<not> ok \<longrightarrow> v' = v)"
proof -
  obtain a b where v: "v = a @ b" "partition_point (\<lambda>(s, _). s < va) v = length a"
    and ab: "\<forall>x \<in> set a. fst x < va" "\<forall>y \<in> set b. va \<le> fst y"
    using vma_split [OF assms(1), of va] by blast
  have oa: "vma_ok a" and ob: "vma_ok b" and oab: "\<forall>x \<in> set a. \<forall>y \<in> set b. snd x \<le> fst y"
    using assms(1) v(1) by (auto simp: vma_ok_append)
  let ?A = "\<forall>x \<in> set a. snd x \<le> va" and ?B = "\<forall>y \<in> set b. va + 0x1000 \<le> fst y"
  have na: "(length a > 0 \<and> snd (v ! (length a - 1)) > va) \<longleftrightarrow> \<not> ?A"
    using vma_before [OF oa ab(1)] v(1) by (auto simp: nth_append)
  have nb: "(length a < length v \<and> fst (v ! length a) < va + 0x1000) \<longleftrightarrow> \<not> ?B"
    using vma_after [OF ob, of "va + 0x1000"] v(1) by (auto simp: nth_append)
  have clear: "(\<forall>r \<in> set v. clear_of va r) \<longleftrightarrow> ?A \<and> ?B"
  proof -
    have "clear_of va x \<longleftrightarrow> snd x \<le> va" if "x \<in> set a" for x
      using ab(1) that assms(2) unfolding clear_of_def by force
    moreover have "clear_of va y \<longleftrightarrow> va + 0x1000 \<le> fst y" if "y \<in> set b" for y
    proof -
      have "fst y < snd y" "va \<le> fst y" using ob ab(2) that by (auto simp: vma_ok_def)
      then show ?thesis unfolding clear_of_def by force
    qed
    ultimately show ?thesis using v(1) by auto
  qed
  have eq: "vma_insert va v = (if \<not> ?A then (False, v) else if \<not> ?B then (False, v)
      else (True, a @ [(va, va + 0x1000)] @ b))"
    using na nb v by (simp add: vma_insert_def Let_def)
  have ok: "?A \<Longrightarrow> ?B \<Longrightarrow> vma_ok (a @ [(va, va + 0x1000)] @ b)"
    using oa ob oab assms(2) by (auto simp: vma_ok_append vma_ok_Cons vma_ok_def [of "[]"])
  show ?thesis unfolding eq using clear ok v(1) by simp
qed

section \<open>Concrete runs\<close>

definition demo_task :: "u64 \<Rightarrow> task_state \<Rightarrow> u8 \<Rightarrow> task" where
  "demo_task i st p = \<lparr>tid = i, parent = 0, state = st, priority = p, canary = None,
     page_table = None, vma_list = []\<rparr>"

definition demo_tasks :: "task list" where
  "demo_tasks = [demo_task 0 Running 1, demo_task 1 Ready 1, demo_task 2 Ready 2, demo_task 3 Ready 2]"

theorem find_next_ready_witness:
  "find_next_ready demo_tasks 3 = Some 3 \<and> priority (demo_tasks ! 1) \<le> priority (demo_tasks ! 3)
   \<and> ring_dist 4 3 3 \<le> ring_dist 4 3 2"
proof -
  have f: "find_next_ready demo_tasks 3 = Some 3" "demo_tasks \<noteq> []" "length demo_tasks = 4"
    "state (demo_tasks ! 1) = Ready \<and> priority (demo_tasks ! 1) \<le> 2"
    "state (demo_tasks ! 2) = Ready \<and> priority (demo_tasks ! 2) \<le> 2"
    "priority (demo_tasks ! 2) = priority (demo_tasks ! 3)" by code_simp+
  have all: "\<forall>k < 4. state (demo_tasks ! k) = Ready \<and> priority (demo_tasks ! k) \<le> 2 \<longrightarrow>
      priority (demo_tasks ! k) \<le> priority (demo_tasks ! 3)
      \<and> (priority (demo_tasks ! k) = priority (demo_tasks ! 3) \<longrightarrow> ring_dist 4 3 3 \<le> ring_dist 4 3 k)"
    using find_next_ready_spec [OF f(2), of 3] f(1,3) by simp
  from all f(4) have "priority (demo_tasks ! 1) \<le> priority (demo_tasks ! 3)" by simp
  moreover from all f(5,6) have "ring_dist 4 3 3 \<le> ring_dist 4 3 2" by simp
  ultimately show ?thesis using f(1) by blast
qed

definition demo_spawned :: sched where
  "demo_spawned = snd (spawn_task None sched_init)"

definition demo_waiting :: sched where
  "demo_waiting = snd (wait_for_task_enter 1 demo_spawned)"

lemma demo_wait: "wait_for_task_enter 1 demo_spawned = (Ok Switched, demo_waiting)"
  by code_simp

lemma demo_exit: "task_exit 7 demo_waiting = (Ok Switched, snd (task_exit 7 demo_waiting))"
  by code_simp

lemma demo_reach: "sched_reach demo_waiting"
proof -
  have "sched_step sched_init demo_spawned"
    unfolding demo_spawned_def by (rule sched_step.spawn) (simp add: sched_init_def)
  moreover have "sched_step demo_spawned demo_waiting"
    by (rule sched_step.wait [OF demo_wait]) simp
  ultimately show ?thesis by (blast intro: sched_reach.intros)
qed


theorem task_exit_delivers_witness:
  "fst (wait_for_task_resume 1 (snd (task_exit 7 demo_waiting))) = 7"
proof -
  have i: "sched_inv demo_waiting"
    using demo_reach by (induction rule: sched_reach.induct) (auto intro: sched_inv_init sched_step_inv)
  have "(1 :: u64) = current_task_id demo_waiting" "parent (tasks demo_waiting ! current demo_waiting) \<noteq> 1"
    by code_simp+
  from task_exit_delivers [OF i demo_exit this] show ?thesis by simp
qed

theorem vma_insert_witness:
  "vma_insert 0x2000 [(0x1000, 0x2000), (0x4000, 0x5000)]
     = (True, [(0x1000, 0x2000), (0x2000, 0x3000), (0x4000, 0x5000)])
   \<and> vma_ok [(0x1000, 0x2000), (0x2000, 0x3000), (0x4000, 0x5000)]"
proof -
  have e: "vma_insert 0x2000 [(0x1000, 0x2000), (0x4000, 0x5000)]
     = (True, [(0x1000, 0x2000), (0x2000, 0x3000), (0x4000, 0x5000)])" by code_simp
  have "vma_ok [(0x1000, 0x2000), (0x4000, 0x5000)]" by (simp add: vma_ok_def)
  from vma_insert_spec [OF this, where va = "0x2000"] e show ?thesis by simp
qed

section \<open>A leftover sleep entry\<close>

text \<open>
  A timed wait that ends because its event arrived leaves its entry in the sleep queue.  The entry
  later wakes the task out of whatever it waits for then.  Waiting for a task does not check why it
  was woken: the run below ends in \<open>ENOENT\<close> while the awaited task is alive.
\<close>

definition demo_slept :: sched where
  "demo_slept = snd (yield_task (wake_task 0 (snd (sleep_until 5 demo_spawned))))"

definition demo_stale :: sched where
  "demo_stale = snd (snd (timer_interrupt_handler (4, snd (wait_for_task_enter 1 demo_slept))))"


end
