(* ===== verification/Ipc.thy ===== *)
theory Ipc
  imports Cap Task
begin

unbundle bit_operations_syntax

text \<open>
  The IPC endpoints of \<^verbatim>\<open>kernel/src/ipc.rs\<close>: the ring buffer in a shared page, the endpoint
  table with its two waiting slots and the capability in transit, the name registry, and the
  blocking, polling and timed operations.  A blocking operation is a loop around the scheduler's
  switch point; the model gives one turn of the loop, which either finishes or ends in the switch
  point, so that the turns of different tasks interleave as sequences of steps.  The kernel
  mapping of the page and the frame allocator are represented by the frame the caller supplies.
\<close>

section \<open>The ring buffer\<close>

definition RING_DATA_BYTES :: nat where "RING_DATA_BYTES = 4088"
definition MSG_SIZE :: nat where "MSG_SIZE = 64"
definition RING_CAPACITY :: nat where "RING_CAPACITY = 63"
definition MAX_ENDPOINTS :: nat where "MAX_ENDPOINTS = 1024"

record ring_buffer =
  rhead :: u32
  rtail :: u32
  rdata :: bytes

definition ring_zero :: ring_buffer where
  "ring_zero = \<lparr>rhead = 0, rtail = 0, rdata = replicate RING_DATA_BYTES 0\<rparr>"

definition ring_used :: "ring_buffer \<Rightarrow> nat" where
  "ring_used r = unat (rtail r - rhead r)"

definition slot_off :: "u32 \<Rightarrow> nat" where
  "slot_off c = (unat c mod RING_CAPACITY) * MSG_SIZE"

text \<open>What a send leaves in its slot: at most \<^verbatim>\<open>MSG_SIZE\<close> bytes, padded with zeros.\<close>

definition pad_msg :: "bytes \<Rightarrow> bytes" where
  "pad_msg m = take MSG_SIZE m @ replicate (MSG_SIZE - length m) 0"

text \<open>Post a message unless the ring is full; take one, with room for \<open>n\<close> bytes, unless it is
  empty.\<close>

definition ring_push :: "bytes \<Rightarrow> ring_buffer \<Rightarrow> ring_buffer option" where
  "ring_push m r =
     (if ring_used r < RING_CAPACITY
      then Some (r\<lparr>rdata := splice (rdata r) (slot_off (rtail r)) (pad_msg m), rtail := rtail r + 1\<rparr>)
      else None)"

definition ring_pop :: "nat \<Rightarrow> ring_buffer \<Rightarrow> (bytes \<times> ring_buffer) option" where
  "ring_pop n r =
     (if rhead r \<noteq> rtail r
      then Some (slice (rdata r) (slot_off (rhead r)) (min n MSG_SIZE), r\<lparr>rhead := rhead r + 1\<rparr>)
      else None)"

section \<open>Endpoints, names and the operations\<close>

record ipc_endpoint =
  phys_page :: u64
  ring :: ring_buffer
  sender_waiting :: "u64 option"
  receiver_waiting :: "u64 option"
  pending_cap :: "capability option"

record ipc =
  endpoints :: "ipc_endpoint list"
  name_tab :: "bytes \<rightharpoonup> nat"
  isched :: sched

text \<open>One turn of an operation finishes with a result or leaves the task at the switch point.\<close>

datatype 'a turn = Done 'a | Waits switch

definition bind_name :: "bytes \<Rightarrow> nat \<Rightarrow> ipc \<Rightarrow> bool \<times> ipc" where
  "bind_name name idx s = (case name_tab s name of
      Some existing \<Rightarrow> (existing = idx, s)
    | None \<Rightarrow> (True, s\<lparr>name_tab := (name_tab s)(name \<mapsto> idx)\<rparr>))"

definition lookup_name :: "bytes \<Rightarrow> ipc \<Rightarrow> nat option" where
  "lookup_name name s = name_tab s name"

text \<open>\<open>frame\<close> is the outcome of \<^verbatim>\<open>pmm::alloc_frame\<close>; running out of frames panics.\<close>

definition create_endpoint :: "u64 option \<Rightarrow> ipc \<Rightarrow> (unit, nat option) res \<times> ipc" where
  "create_endpoint frame s =
     (if length (endpoints s) \<ge> MAX_ENDPOINTS then (Ok None, s)
      else (case frame of
          None \<Rightarrow> (Panic, s)
        | Some p \<Rightarrow> (Ok (Some (length (endpoints s))),
            s\<lparr>endpoints := endpoints s @ [\<lparr>phys_page = p, ring = ring_zero, sender_waiting = None,
                                           receiver_waiting = None, pending_cap = None\<rparr>]\<rparr>)))"

definition put_ep :: "nat \<Rightarrow> ipc_endpoint \<Rightarrow> ipc \<Rightarrow> ipc" where
  "put_ep idx ep s = s\<lparr>endpoints := (endpoints s)[idx := ep]\<rparr>"

definition wake_opt :: "u64 option \<Rightarrow> ipc \<Rightarrow> ipc" where
  "wake_opt w s = (case w of None \<Rightarrow> s | Some i \<Rightarrow> s\<lparr>isched := wake_task i (isched s)\<rparr>)"

definition at_switch :: "(sched \<Rightarrow> (unit, switch) res \<times> sched) \<Rightarrow> ipc \<Rightarrow> (unit, 'a turn) res \<times> ipc" where
  "at_switch f s = (let (r, sch) = f (isched s) in (res_map Waits r, s\<lparr>isched := sch\<rparr>))"

text \<open>What follows a message posted or taken: store the ring, clear the other side's waiting slot
  and wake the task that was in it.\<close>

definition post :: "nat \<Rightarrow> ring_buffer \<Rightarrow> ipc_endpoint \<Rightarrow> ipc \<Rightarrow> ipc" where
  "post idx r ep s =
     wake_opt (receiver_waiting ep) (put_ep idx (ep\<lparr>ring := r, receiver_waiting := None\<rparr>) s)"

definition fetch :: "nat \<Rightarrow> ring_buffer \<Rightarrow> ipc_endpoint \<Rightarrow> ipc \<Rightarrow> ipc" where
  "fetch idx r ep s =
     wake_opt (sender_waiting ep) (put_ep idx (ep\<lparr>ring := r, sender_waiting := None\<rparr>) s)"

definition block_sender :: "nat \<Rightarrow> ipc_endpoint \<Rightarrow> ipc \<Rightarrow> ipc" where
  "block_sender idx ep s = put_ep idx (ep\<lparr>sender_waiting := Some (current_task_id (isched s))\<rparr>) s"

definition block_receiver :: "nat \<Rightarrow> ipc_endpoint \<Rightarrow> ipc \<Rightarrow> ipc" where
  "block_receiver idx ep s = put_ep idx (ep\<lparr>receiver_waiting := Some (current_task_id (isched s))\<rparr>) s"

definition ipc_send :: "nat \<Rightarrow> bytes \<Rightarrow> ipc \<Rightarrow> (unit, unit turn) res \<times> ipc" where
  "ipc_send idx msg s = (case nth_opt (endpoints s) idx of
      None \<Rightarrow> (Panic, s)
    | Some ep \<Rightarrow> (case ring_push msg (ring ep) of
          Some r \<Rightarrow> (Ok (Done ()), post idx r ep s)
        | None \<Rightarrow> at_switch block_and_yield (block_sender idx ep s)))"

definition ipc_send_cap :: "nat \<Rightarrow> bytes \<Rightarrow> capability \<Rightarrow> ipc \<Rightarrow> (unit, unit turn) res \<times> ipc" where
  "ipc_send_cap idx msg cap s = (case nth_opt (endpoints s) idx of
      None \<Rightarrow> (Panic, s)
    | Some ep \<Rightarrow> (case ring_push msg (ring ep) of
          Some r \<Rightarrow> (Ok (Done ()), post idx r (ep\<lparr>pending_cap := Some cap\<rparr>) s)
        | None \<Rightarrow> at_switch block_and_yield (block_sender idx ep s)))"

definition ipc_recv :: "nat \<Rightarrow> nat \<Rightarrow> ipc \<Rightarrow> (unit, bytes turn) res \<times> ipc" where
  "ipc_recv idx n s = (case nth_opt (endpoints s) idx of
      None \<Rightarrow> (Panic, s)
    | Some ep \<Rightarrow> (case ring_pop n (ring ep) of
          Some (b, r) \<Rightarrow> (Ok (Done b), fetch idx r ep s)
        | None \<Rightarrow> at_switch block_and_yield (block_receiver idx ep s)))"

definition ipc_recv_cap :: "nat \<Rightarrow> nat \<Rightarrow> ipc \<Rightarrow> (unit, (bytes \<times> capability option) turn) res \<times> ipc" where
  "ipc_recv_cap idx n s = (case nth_opt (endpoints s) idx of
      None \<Rightarrow> (Panic, s)
    | Some ep \<Rightarrow> (case ring_pop n (ring ep) of
          Some (b, r) \<Rightarrow> (Ok (Done (b, pending_cap ep)), fetch idx r (ep\<lparr>pending_cap := None\<rparr>) s)
        | None \<Rightarrow> at_switch block_and_yield (block_receiver idx ep s)))"

definition ipc_try_recv :: "nat \<Rightarrow> nat \<Rightarrow> ipc \<Rightarrow> (unit, bytes option) res \<times> ipc" where
  "ipc_try_recv idx n s = (case nth_opt (endpoints s) idx of
      None \<Rightarrow> (Panic, s)
    | Some ep \<Rightarrow> (case ring_pop n (ring ep) of
          Some (b, r) \<Rightarrow> (Ok (Some b), fetch idx r ep s)
        | None \<Rightarrow> (Ok None, s)))"

text \<open>A turn of the timed operations, at tick \<open>now\<close>; the deadline is fixed on entry as
  \<^verbatim>\<open>ticks() + timeout_ms\<close>.  \<open>Done None\<close> and \<open>Done False\<close> are the timeout.\<close>

definition deadline_of :: "u64 \<Rightarrow> u64 \<Rightarrow> u64" where
  "deadline_of now timeout_ms = now + timeout_ms"

definition ipc_recv_timeout :: "nat \<Rightarrow> nat \<Rightarrow> u64 \<Rightarrow> u64 \<Rightarrow> ipc \<Rightarrow> (unit, bytes option turn) res \<times> ipc" where
  "ipc_recv_timeout idx n deadline now s = (case nth_opt (endpoints s) idx of
      None \<Rightarrow> (Panic, s)
    | Some ep \<Rightarrow> (case ring_pop n (ring ep) of
          Some (b, r) \<Rightarrow> (Ok (Done (Some b)), fetch idx r ep s)
        | None \<Rightarrow>
            if now \<ge> deadline
            then (Ok (Done None),
                  if receiver_waiting ep = Some (current_task_id (isched s))
                  then put_ep idx (ep\<lparr>receiver_waiting := None\<rparr>) s else s)
            else at_switch (sleep_until deadline) (block_receiver idx ep s)))"

definition ipc_send_timeout :: "nat \<Rightarrow> bytes \<Rightarrow> u64 \<Rightarrow> u64 \<Rightarrow> ipc \<Rightarrow> (unit, bool turn) res \<times> ipc" where
  "ipc_send_timeout idx msg deadline now s = (case nth_opt (endpoints s) idx of
      None \<Rightarrow> (Panic, s)
    | Some ep \<Rightarrow> (case ring_push msg (ring ep) of
          Some r \<Rightarrow> (Ok (Done True), post idx r ep s)
        | None \<Rightarrow>
            if now \<ge> deadline
            then (Ok (Done False),
                  if sender_waiting ep = Some (current_task_id (isched s))
                  then put_ep idx (ep\<lparr>sender_waiting := None\<rparr>) s else s)
            else at_switch (sleep_until deadline) (block_sender idx ep s)))"

section \<open>A bounded queue as an interface\<close>

text \<open>
  What a client of a message ring relies on, with the number of pushes the ring can still take
  before its counters run out as \<open>budget\<close>.
\<close>

datatype 'm qop = QPush 'm | QPop

fun qrun :: "('m \<Rightarrow> 'q \<Rightarrow> 'q option) \<Rightarrow> ('q \<Rightarrow> ('c \<times> 'q) option) \<Rightarrow> 'm qop list \<Rightarrow> 'q
    \<Rightarrow> 'm list \<times> 'c list \<times> 'q" where
  "qrun psh pp [] q = ([], [], q)"
| "qrun psh pp (QPush m # os) q = (case psh m q of
      None \<Rightarrow> qrun psh pp os q
    | Some q' \<Rightarrow> (let (ins, outs, q2) = qrun psh pp os q' in (m # ins, outs, q2)))"
| "qrun psh pp (QPop # os) q = (case pp q of
      None \<Rightarrow> qrun psh pp os q
    | Some (y, q') \<Rightarrow> (let (ins, outs, q2) = qrun psh pp os q' in (ins, y # outs, q2)))"

fun is_push :: "'m qop \<Rightarrow> bool" where
  "is_push (QPush m) = True"
| "is_push QPop = False"

locale bounded_fifo =
  fixes psh :: "'m \<Rightarrow> 'q \<Rightarrow> 'q option" and pp :: "'q \<Rightarrow> ('c \<times> 'q) option"
    and contents :: "'q \<Rightarrow> 'c list" and norm :: "'m \<Rightarrow> 'c"
    and qinv :: "'q \<Rightarrow> bool" and budget :: "'q \<Rightarrow> nat" and capacity :: nat
  assumes push_None: "qinv q \<Longrightarrow> psh m q = None \<longleftrightarrow> capacity \<le> length (contents q)"
    and push_Some: "qinv q \<Longrightarrow> 0 < budget q \<Longrightarrow> psh m q = Some q' \<Longrightarrow>
          qinv q' \<and> contents q' = contents q @ [norm m] \<and> budget q' = budget q - 1"
    and pop_None: "qinv q \<Longrightarrow> pp q = None \<longleftrightarrow> contents q = []"
    and pop_Some: "qinv q \<Longrightarrow> pp q = Some (y, q') \<Longrightarrow>
          qinv q' \<and> contents q = y # contents q' \<and> budget q' = budget q"
begin

lemma run_fifo:
  "qinv q \<Longrightarrow> length (filter is_push os) \<le> budget q \<Longrightarrow> qrun psh pp os q = (ins, outs, q') \<Longrightarrow>
     qinv q' \<and> contents q @ map norm ins = outs @ contents q'"
proof (induction os arbitrary: q ins outs)
  case (Cons p os)
  show ?case
  proof (cases p)
    case (QPush m)
    show ?thesis
    proof (cases "psh m q")
      case None
      with Cons QPush show ?thesis by auto
    next
      case (Some q1)
      from QPush Cons.prems(2) have b: "0 < budget q" by simp
      from Some QPush Cons.prems(3) obtain ins1 where
        r: "qrun psh pp os q1 = (ins1, outs, q')" "ins = m # ins1" by (auto split: prod.splits)
      note P = push_Some [OF Cons.prems(1) b Some]
      have "length (filter is_push os) \<le> budget q1" using P QPush Cons.prems(2) by simp
      from Cons.IH [OF _ this r(1)] P r(2) show ?thesis by simp
    qed
  next
    case QPop
    show ?thesis
    proof (cases "pp q")
      case None
      with Cons QPop show ?thesis by auto
    next
      case (Some yq)
      obtain y q1 where yq: "yq = (y, q1)" by fastforce
      from Some yq QPop Cons.prems(3) obtain outs1 where
        r: "qrun psh pp os q1 = (ins, outs1, q')" "outs = y # outs1" by (auto split: prod.splits)
      note P = pop_Some [OF Cons.prems(1) Some [unfolded yq]]
      have "length (filter is_push os) \<le> budget q1" using P QPop Cons.prems(2) by simp
      from Cons.IH [OF _ this r(1)] P r(2) show ?thesis by simp
    qed
  qed
qed simp

lemma push_keeps_bound:
  "qinv q \<Longrightarrow> 0 < budget q \<Longrightarrow> psh m q = Some q' \<Longrightarrow> length (contents q') \<le> capacity"
  using push_None [of q m] push_Some [of q m q'] by simp

end

section \<open>The ring is a bounded queue until its counters wrap\<close>

definition ring_inv :: "ring_buffer \<Rightarrow> bool" where
  "ring_inv r \<longleftrightarrow> length (rdata r) = RING_DATA_BYTES \<and> unat (rhead r) \<le> unat (rtail r)
     \<and> unat (rtail r) - unat (rhead r) \<le> RING_CAPACITY"

definition slot_at :: "bytes \<Rightarrow> nat \<Rightarrow> bytes" where
  "slot_at d c = slice d ((c mod RING_CAPACITY) * MSG_SIZE) MSG_SIZE"

definition ring_contents :: "ring_buffer \<Rightarrow> bytes list" where
  "ring_contents r = map (slot_at (rdata r)) [unat (rhead r) ..< unat (rtail r)]"

definition ring_budget :: "ring_buffer \<Rightarrow> nat" where
  "ring_budget r = 2 ^ 32 - 1 - unat (rtail r)"

lemmas ring_consts = RING_DATA_BYTES_def MSG_SIZE_def RING_CAPACITY_def

lemma length_pad_msg [simp]: "length (pad_msg m) = MSG_SIZE"
  by (simp add: pad_msg_def)

lemma slot_bound: "(c mod RING_CAPACITY) * MSG_SIZE + MSG_SIZE \<le> RING_DATA_BYTES"
proof -
  have "c mod 63 \<le> 62" using mod_less_divisor [of 63 c] by linarith
  then show ?thesis by (simp add: ring_consts)
qed

lemma slot_at_write_same:
  "length d = RING_DATA_BYTES \<Longrightarrow>
     slot_at (splice d ((c mod RING_CAPACITY) * MSG_SIZE) (pad_msg m)) c = pad_msg m"
  using slot_bound [of c] slice_splice_same [of "(c mod RING_CAPACITY) * MSG_SIZE" "pad_msg m" d]
  by (simp add: slot_at_def)

lemma slot_at_write_other:
  assumes "length d = RING_DATA_BYTES" "c mod RING_CAPACITY \<noteq> e mod RING_CAPACITY"
  shows "slot_at (splice d ((c mod RING_CAPACITY) * MSG_SIZE) (pad_msg m)) e = slot_at d e"
proof -
  have "(e mod RING_CAPACITY) * MSG_SIZE + MSG_SIZE \<le> (c mod RING_CAPACITY) * MSG_SIZE
      \<or> (c mod RING_CAPACITY) * MSG_SIZE + MSG_SIZE \<le> (e mod RING_CAPACITY) * MSG_SIZE"
    using assms(2) by (simp add: ring_consts) linarith
  then show ?thesis unfolding slot_at_def
    using slot_bound [of c] slot_bound [of e] assms(1)
    by (intro slice_splice_disjoint) auto
qed

lemma ring_mod_neq: "c < t \<Longrightarrow> t < c + RING_CAPACITY \<Longrightarrow> t mod RING_CAPACITY \<noteq> c mod RING_CAPACITY"
  by (simp add: mod_eq_iff_dvd_symdiff_nat RING_CAPACITY_def) (auto dest: dvd_imp_le)

lemma ring_used_nat: "unat (rhead r) \<le> unat (rtail r) \<Longrightarrow> ring_used r = unat (rtail r) - unat (rhead r)"
  by (simp add: ring_used_def unat_sub word_le_nat_alt)

lemma unat_Suc_ring: "unat (c :: u32) < 2 ^ 32 - 1 \<Longrightarrow> unat (c + 1) = Suc (unat c)"
  by (simp add: unat_word_ariths)

interpretation ring_q: bounded_fifo ring_push "ring_pop MSG_SIZE" ring_contents pad_msg ring_inv
    ring_budget RING_CAPACITY
proof unfold_locales
  fix q m assume i: "ring_inv q"
  then have u: "ring_used q = length (ring_contents q)"
    by (simp add: ring_contents_def ring_used_nat ring_inv_def)
  then show "(ring_push m q = None) = (RING_CAPACITY \<le> length (ring_contents q))"
    by (simp add: ring_push_def not_less)
next
  fix q :: ring_buffer and m q'
  assume i: "ring_inv q" and b: "0 < ring_budget q" and p: "ring_push m q = Some q'"
  let ?h = "unat (rhead q)" and ?t = "unat (rtail q)"
  from p have used: "?t - ?h < RING_CAPACITY" "?h \<le> ?t"
    using i by (auto simp: ring_push_def ring_used_nat ring_inv_def split: if_splits)
  have q': "rhead q' = rhead q" "rtail q' = rtail q + 1"
    "rdata q' = splice (rdata q) ((?t mod RING_CAPACITY) * MSG_SIZE) (pad_msg m)"
    using p by (auto simp: ring_push_def slot_off_def split: if_splits)
  have t': "unat (rtail q') = Suc ?t" using b q'(2) by (simp add: unat_Suc_ring ring_budget_def)
  have d: "length (rdata q) = RING_DATA_BYTES" using i by (simp add: ring_inv_def)
  have "slot_at (rdata q') c = slot_at (rdata q) c" if "?h \<le> c" "c < ?t" for c
    unfolding q'(3) using that used by (intro slot_at_write_other [OF d] ring_mod_neq) auto
  then have "map (slot_at (rdata q')) [?h ..< ?t] = ring_contents q" by (simp add: ring_contents_def)
  then have "ring_contents q' = ring_contents q @ [pad_msg m]"
    using used(2) q'(1) t' slot_at_write_same [OF d, of ?t m] by (simp add: ring_contents_def q'(3))
  moreover have "ring_inv q'" using i used q' t' slot_bound [of ?t] by (simp add: ring_inv_def)
  moreover have "ring_budget q' = ring_budget q - 1" by (simp add: ring_budget_def t')
  ultimately show "ring_inv q' \<and> ring_contents q' = ring_contents q @ [pad_msg m]
      \<and> ring_budget q' = ring_budget q - 1" by blast
next
  fix q assume "ring_inv q"
  then show "(ring_pop MSG_SIZE q = None) = (ring_contents q = [])"
    by (auto simp: ring_pop_def ring_contents_def ring_inv_def word_unat_eq_iff)
next
  fix q y q' assume i: "ring_inv q" and p: "ring_pop MSG_SIZE q = Some (y, q')"
  let ?h = "unat (rhead q)" and ?t = "unat (rtail q)"
  have lt: "?h < ?t" using i p by (auto simp: ring_pop_def ring_inv_def word_unat_eq_iff split: if_splits)
  have "?t < 2 ^ 32" using unsigned_less [of "rtail q"] by simp
  with lt have h': "unat (rhead q + 1) = Suc ?h" by (intro unat_Suc_ring) simp
  have q': "y = slot_at (rdata q) ?h" "q' = q\<lparr>rhead := rhead q + 1\<rparr>"
    using p by (auto simp: ring_pop_def slot_at_def slot_off_def split: if_splits)
  show "ring_inv q' \<and> ring_contents q = y # ring_contents q' \<and> ring_budget q' = ring_budget q"
    using i lt h' q' by (auto simp: ring_inv_def ring_contents_def ring_budget_def upt_conv_Cons)
qed

text \<open>C12. As long as fewer than \<open>2\<^sup>3\<^sup>2\<close> messages are sent over the life of an endpoint, the messages
  received are the messages sent, in order, each once and cut or padded to 64 bytes, and those
  not yet received are what the ring still holds, at most 63 of them.\<close>

theorem ring_fifo:
  assumes "length (filter is_push os) < 2 ^ 32"
    and "qrun ring_push (ring_pop MSG_SIZE) os ring_zero = (sent, received, r)"
  shows "map pad_msg sent = received @ ring_contents r \<and> length (ring_contents r) \<le> RING_CAPACITY"
proof -
  have z: "ring_inv ring_zero" "ring_contents ring_zero = []" "ring_budget ring_zero = 2 ^ 32 - 1"
    by (simp_all add: ring_inv_def ring_zero_def ring_contents_def ring_budget_def)
  from ring_q.run_fifo [OF z(1) _ assms(2)] assms(1) z have "ring_inv r" "map pad_msg sent = received @ ring_contents r"
    by auto
  then show ?thesis by (simp add: ring_inv_def ring_contents_def)
qed

text \<open>C33. Whatever the two counters hold, even values written by a process that maps the page, the
  slot the kernel copies into or out of lies inside the ring's data bytes.\<close>

theorem ring_slot_in_page:
  assumes "length (rdata r) = RING_DATA_BYTES"
  shows "slot_off (rtail r) + MSG_SIZE \<le> RING_DATA_BYTES \<and> slot_off (rhead r) + MSG_SIZE \<le> RING_DATA_BYTES
    \<and> (\<forall>r'. ring_push m r = Some r' \<longrightarrow> length (rdata r') = RING_DATA_BYTES)
    \<and> (\<forall>b r'. ring_pop n r = Some (b, r') \<longrightarrow> length b = min n MSG_SIZE \<and> rdata r' = rdata r)"
  using slot_bound [of "unat (rtail r)"] slot_bound [of "unat (rhead r)"] assms
  by (auto simp: slot_off_def ring_push_def ring_pop_def split: if_splits)

section \<open>The counters wrap before the slots do\<close>

lemma qrun_append:
  "qrun psh pp (os @ os') q = (let (i1, o1, q1) = qrun psh pp os q; (i2, o2, q2) = qrun psh pp os' q1
     in (i1 @ i2, o1 @ o2, q2))"
  by (induction psh pp os q rule: qrun.induct) (auto split: option.splits prod.splits)

lemma ring_cycle:
  assumes "rhead r = rtail r" "length (rdata r) = RING_DATA_BYTES"
  shows "\<exists>outs r'. qrun ring_push (ring_pop MSG_SIZE) (concat (replicate k [QPush [], QPop])) r
      = (replicate k [], outs, r') \<and> length outs = k \<and> rhead r' = rhead r + of_nat k
      \<and> rtail r' = rhead r' \<and> length (rdata r') = RING_DATA_BYTES"
  using assms
proof (induction k arbitrary: r)
  case (Suc k)
  obtain r1 where r1: "ring_push [] r = Some r1" "rhead r1 = rhead r" "rtail r1 = rtail r + 1"
    "length (rdata r1) = RING_DATA_BYTES"
    using Suc.prems slot_bound [of "unat (rtail r)"]
    by (simp add: ring_push_def ring_used_def RING_CAPACITY_def slot_off_def)
  obtain b r2 where r2: "ring_pop MSG_SIZE r1 = Some (b, r2)" "rhead r2 = rhead r + 1" "rtail r2 = rtail r + 1"
    "length (rdata r2) = RING_DATA_BYTES"
    using r1 Suc.prems(1) by (simp add: ring_pop_def)
  from Suc.IH [of r2] r2(2-4) Suc.prems(1) obtain outs r' where
    IH: "qrun ring_push (ring_pop MSG_SIZE) (concat (replicate k [QPush [], QPop])) r2 = (replicate k [], outs, r')"
    "length outs = k" "rhead r' = rhead r2 + of_nat k" "rtail r' = rhead r'" "length (rdata r') = RING_DATA_BYTES"
    by auto
  have "qrun ring_push (ring_pop MSG_SIZE) (concat (replicate (Suc k) [QPush [], QPop])) r
      = (replicate (Suc k) [], b # outs, r')" using r1(1) r2(1) IH(1) by simp
  moreover have "rhead r' = rhead r + of_nat (Suc k)" using IH(3) r2(2) by simp
  ultimately show ?case using IH by fastforce
qed simp

lemma ring_wrap_tail:
  assumes "rhead r = 4294967292" "rtail r = 4294967292" "length (rdata r) = RING_DATA_BYTES"
  shows "\<exists>r'. qrun ring_push (ring_pop MSG_SIZE)
      [QPush [1], QPush [2], QPush [3], QPush [4], QPush [5], QPop] r
    = ([[1], [2], [3], [4], [5]], [pad_msg [5]], r')"
proof -
  have s: "slot_off 4294967292 = 0" "slot_off 4294967293 = 64" "slot_off 4294967294 = 128"
    "slot_off 4294967295 = 192" "slot_off 4294967296 = 0" by (simp_all add: slot_off_def ring_consts)
  have l: "length (splice d a (pad_msg m)) = 4088" if "length d = 4088" "a + 64 \<le> 4088" for d a m
    using that by (simp add: MSG_SIZE_def)
  have g: "slice (splice d 0 (pad_msg m)) 0 64 = pad_msg m" if "length d = 4088" for d m
    using that by (simp add: MSG_SIZE_def)
  have "rdata r = rdata r \<and> length (rdata r) = 4088" using assms(3) by (simp add: RING_DATA_BYTES_def)
  then show ?thesis using assms(1,2)
    by (simp add: ring_push_def ring_pop_def ring_used_def RING_CAPACITY_def s l g MSG_SIZE_def
        del: length_splice slice_splice_same)
qed

text \<open>C34. The free-running 32-bit counters are not compatible with 63 slots: some sequence of sends
  and receives makes the ring deliver a message other than the one sent at that position, although
  it never holds more than five messages.\<close>

theorem ring_wrap_loses:
  "\<exists>os sent received r i. qrun ring_push (ring_pop MSG_SIZE) os ring_zero = (sent, received, r)
     \<and> i < length sent \<and> i < length received \<and> received ! i \<noteq> pad_msg (sent ! i)"
proof -
  obtain k :: nat where k: "(of_nat k :: u32) = 4294967292" using that [of 4294967292] by simp
  let ?a = "concat (replicate k [QPush [], QPop]) :: bytes qop list"
  let ?b = "[QPush [1], QPush [2], QPush [3], QPush [4], QPush [5], QPop] :: bytes qop list"
  have z: "rhead ring_zero = rtail ring_zero" "length (rdata ring_zero) = RING_DATA_BYTES"
    by (simp_all add: ring_zero_def)
  from ring_cycle [OF z, of k] obtain outs r where
    r: "qrun ring_push (ring_pop MSG_SIZE) ?a ring_zero = (replicate k [], outs, r)"
    "length outs = k" "rhead r = rhead ring_zero + of_nat k" "rtail r = rhead r" "length (rdata r) = RING_DATA_BYTES"
    by blast
  have "rhead r = 4294967292" using r(3) k by (simp add: ring_zero_def)
  with r(4,5) ring_wrap_tail [of r] obtain r' where
    "qrun ring_push (ring_pop MSG_SIZE) ?b r = ([[1], [2], [3], [4], [5]], [pad_msg [5]], r')" by auto
  with r(1) have run: "qrun ring_push (ring_pop MSG_SIZE) (?a @ ?b) ring_zero
      = (replicate k [] @ [[1], [2], [3], [4], [5]], outs @ [pad_msg [5]], r')"
    by (simp only: qrun_append Let_def prod.case)
  have "pad_msg [5] \<noteq> pad_msg [1]" by (simp add: pad_msg_def MSG_SIZE_def)
  then have "(outs @ [pad_msg [5]]) ! k \<noteq> pad_msg ((replicate k [] @ [[1], [2], [3], [4], [5]]) ! k)"
    using r(2) by (simp add: nth_append)
  moreover have "k < length (replicate k [] @ [[1], [2], [3], [4], [5 :: u8]])"
    "k < length (outs @ [pad_msg [5]])" using r(2) by simp_all
  ultimately show ?thesis using run by blast
qed

section \<open>A registered waiter is there for a reason\<close>

text \<open>A task is in the receiver slot only while the ring is empty, in the sender slot only while it
  is full.\<close>

definition ep_ok :: "ipc_endpoint \<Rightarrow> bool" where
  "ep_ok ep \<longleftrightarrow> (receiver_waiting ep \<noteq> None \<longrightarrow> rhead (ring ep) = rtail (ring ep))
     \<and> (sender_waiting ep \<noteq> None \<longrightarrow> RING_CAPACITY \<le> ring_used (ring ep))"

definition ipc_ok :: "ipc \<Rightarrow> bool" where
  "ipc_ok s \<longleftrightarrow> (\<forall>ep \<in> set (endpoints s). ep_ok ep)"

inductive ipc_step :: "ipc \<Rightarrow> ipc \<Rightarrow> bool" where
  create: "ipc_step s (snd (create_endpoint frame s))"
| bind: "ipc_step s (snd (bind_name name idx s))"
| send: "ipc_step s (snd (ipc_send idx msg s))"
| send_cap: "ipc_step s (snd (ipc_send_cap idx msg cap s))"
| recv: "ipc_step s (snd (ipc_recv idx n s))"
| recv_cap: "ipc_step s (snd (ipc_recv_cap idx n s))"
| try_recv: "ipc_step s (snd (ipc_try_recv idx n s))"
| recv_timeout: "ipc_step s (snd (ipc_recv_timeout idx n dl now s))"
| send_timeout: "ipc_step s (snd (ipc_send_timeout idx msg dl now s))"
| sched: "ipc_step s (s\<lparr>isched := sch\<rparr>)"

inductive ipc_reach :: "ipc \<Rightarrow> bool" where
  init: "endpoints s = [] \<Longrightarrow> ipc_reach s"
| step: "ipc_reach s \<Longrightarrow> ipc_step s s' \<Longrightarrow> ipc_reach s'"

lemma endpoints_wake_opt [simp]: "endpoints (wake_opt w s) = endpoints s"
  by (simp add: wake_opt_def split: option.splits)

lemma endpoints_at_switch [simp]: "endpoints (snd (at_switch f s)) = endpoints s"
  by (simp add: at_switch_def split: prod.splits)

lemma ipc_ok_put: "ipc_ok s \<Longrightarrow> ep_ok ep \<Longrightarrow> ipc_ok (put_ep idx ep s)"
  using set_update_subset_insert [of "endpoints s" idx ep] by (auto simp: ipc_ok_def put_ep_def)

lemma ipc_ok_frame: "endpoints s' = endpoints s \<Longrightarrow> ipc_ok s' = ipc_ok s"
  by (simp add: ipc_ok_def)

lemma ring_push_guard:
  "ring_push m r = None \<longleftrightarrow> RING_CAPACITY \<le> ring_used r"
  by (simp add: ring_push_def not_less)

lemma ring_pop_guard: "ring_pop n r = None \<longleftrightarrow> rhead r = rtail r"
  by (simp add: ring_pop_def)

lemma ep_ok_post:
  "ep_ok ep \<Longrightarrow> ring_push m (ring ep) = Some r \<Longrightarrow> ep_ok (ep\<lparr>ring := r, receiver_waiting := None\<rparr>)"
  by (auto simp: ep_ok_def ring_push_def split: if_splits)

lemma ep_ok_fetch:
  "ep_ok ep \<Longrightarrow> ring_pop n (ring ep) = Some (b, r) \<Longrightarrow> ep_ok (ep\<lparr>ring := r, sender_waiting := None\<rparr>)"
  by (auto simp: ep_ok_def ring_pop_def split: if_splits)

lemma ep_ok_cap [simp]: "ep_ok (ep\<lparr>pending_cap := c\<rparr>) = ep_ok ep"
  by (simp add: ep_ok_def)

lemma ipc_ok_post:
  "ipc_ok s \<Longrightarrow> ep_ok ep \<Longrightarrow> ring_push m (ring ep) = Some r \<Longrightarrow> ipc_ok (post idx r ep s)"
  by (simp add: post_def ipc_ok_frame [OF endpoints_wake_opt] ipc_ok_put ep_ok_post)

lemma ipc_ok_fetch:
  "ipc_ok s \<Longrightarrow> ep_ok ep \<Longrightarrow> ring_pop n (ring ep) = Some (b, r) \<Longrightarrow> ipc_ok (fetch idx r ep s)"
  by (simp add: fetch_def ipc_ok_frame [OF endpoints_wake_opt] ipc_ok_put ep_ok_fetch)

lemma ipc_ok_block_sender:
  "ipc_ok s \<Longrightarrow> ep_ok ep \<Longrightarrow> ring_push m (ring ep) = None \<Longrightarrow>
     ipc_ok (snd (at_switch f (block_sender idx ep s)))"
  by (simp add: ipc_ok_frame [OF endpoints_at_switch] block_sender_def ring_push_guard)
    (rule ipc_ok_put, auto simp: ep_ok_def)

lemma ipc_ok_block_receiver:
  "ipc_ok s \<Longrightarrow> ep_ok ep \<Longrightarrow> ring_pop n (ring ep) = None \<Longrightarrow>
     ipc_ok (snd (at_switch f (block_receiver idx ep s)))"
  by (simp add: ipc_ok_frame [OF endpoints_at_switch] block_receiver_def ring_pop_guard)
    (rule ipc_ok_put, auto simp: ep_ok_def)

lemma ipc_ok_nth: "ipc_ok s \<Longrightarrow> nth_opt (endpoints s) idx = Some ep \<Longrightarrow> ep_ok ep"
  by (auto simp: ipc_ok_def nth_opt_eq_Some)

lemma ipc_ok_post_cap:
  "ipc_ok s \<Longrightarrow> ep_ok ep \<Longrightarrow> ring_push m (ring ep) = Some r \<Longrightarrow>
     ipc_ok (post idx r (ep\<lparr>pending_cap := c\<rparr>) s)"
  by (rule ipc_ok_post) simp_all

lemma ipc_ok_fetch_cap:
  "ipc_ok s \<Longrightarrow> ep_ok ep \<Longrightarrow> ring_pop n (ring ep) = Some (b, r) \<Longrightarrow>
     ipc_ok (fetch idx r (ep\<lparr>pending_cap := c\<rparr>) s)"
  by (rule ipc_ok_fetch) simp_all

lemma ipc_ok_clear:
  "ipc_ok s \<Longrightarrow> ep_ok ep \<Longrightarrow> ipc_ok (put_ep idx (ep\<lparr>receiver_waiting := None\<rparr>) s)"
  "ipc_ok s \<Longrightarrow> ep_ok ep \<Longrightarrow> ipc_ok (put_ep idx (ep\<lparr>sender_waiting := None\<rparr>) s)"
  by (rule ipc_ok_put; auto simp: ep_ok_def)+

lemmas ipc_ok_intros = ipc_ok_post ipc_ok_fetch ipc_ok_block_sender ipc_ok_block_receiver ipc_ok_clear
  ipc_ok_post_cap ipc_ok_fetch_cap ipc_ok_nth

lemma ipc_step_ok: "ipc_step s s' \<Longrightarrow> ipc_ok s \<Longrightarrow> ipc_ok s'"
proof (induction rule: ipc_step.induct)
  case (create s frame)
  then show ?case by (auto simp: create_endpoint_def ipc_ok_def ep_ok_def split: option.splits)
next
  case (bind s name idx)
  then show ?case by (auto simp: bind_name_def ipc_ok_def split: option.splits)
next
  case (send s idx msg)
  then show ?case by (auto simp: ipc_send_def intro: ipc_ok_intros split: option.splits)
next
  case (send_cap s idx msg cap)
  then show ?case by (auto simp: ipc_send_cap_def intro: ipc_ok_intros split: option.splits)
next
  case (recv s idx n)
  then show ?case by (auto simp: ipc_recv_def intro: ipc_ok_intros split: option.splits)
next
  case (recv_cap s idx n)
  then show ?case by (auto simp: ipc_recv_cap_def intro: ipc_ok_intros split: option.splits)
next
  case (try_recv s idx n)
  then show ?case by (auto simp: ipc_try_recv_def intro: ipc_ok_intros split: option.splits)
next
  case (recv_timeout s idx n dl now)
  then show ?case by (auto simp: ipc_recv_timeout_def intro: ipc_ok_intros split: option.splits)
next
  case (send_timeout s idx msg dl now)
  then show ?case by (auto simp: ipc_send_timeout_def intro: ipc_ok_intros split: option.splits)
next
  case (sched s sch)
  then show ?case by (simp add: ipc_ok_def)
qed

lemma ipc_reach_ok: "ipc_reach s \<Longrightarrow> ipc_ok s"
proof (induction rule: ipc_reach.induct)
  case (init s)
  then show ?case by (simp add: ipc_ok_def)
next
  case (step s s')
  then show ?case by (blast intro: ipc_step_ok)
qed


section \<open>Concrete runs\<close>

definition demo_ring_ops :: "bytes qop list" where
  "demo_ring_ops = [QPush [1, 2], QPush [3], QPop]"

theorem ring_fifo_witness:
  "\<exists>r. qrun ring_push (ring_pop MSG_SIZE) demo_ring_ops ring_zero = ([[1, 2], [3]], [pad_msg [1, 2]], r)
     \<and> ring_contents r = [pad_msg [3]]"
proof -
  obtain sent received r where q: "qrun ring_push (ring_pop MSG_SIZE) demo_ring_ops ring_zero = (sent, received, r)"
    by (metis prod_cases3)
  then have s: "sent = [[1, 2], [3]]" "length received = 1"
    by (auto simp: demo_ring_ops_def ring_push_def ring_pop_def ring_used_def ring_zero_def RING_CAPACITY_def
        split: if_splits option.splits prod.splits)
  have "length (filter is_push demo_ring_ops) < 2 ^ 32" by (simp add: demo_ring_ops_def)
  from ring_fifo [OF this q] s have "received = [pad_msg [1, 2]]" "ring_contents r = [pad_msg [3]]"
    by (auto simp: length_Suc_conv)
  then show ?thesis using q s(1) by blast
qed

theorem ring_slot_witness:
  "slot_off 0xFFFFFFFF + MSG_SIZE \<le> RING_DATA_BYTES"
  using ring_slot_in_page [of "\<lparr>rhead = 5, rtail = 0xFFFFFFFF, rdata = replicate RING_DATA_BYTES 0\<rparr>" "[]" 0]
  by simp

definition demo_ipc :: ipc where
  "demo_ipc = snd (ipc_recv 0 64 (snd (create_endpoint (Some 0x1000)
     \<lparr>endpoints = [], name_tab = (\<lambda>_. None), isched = demo_spawned\<rparr>)))"

lemma demo_ipc_ep:
  "ipc_reach demo_ipc" "\<exists>ep. nth_opt (endpoints demo_ipc) 0 = Some ep \<and> receiver_waiting ep = Some 0"
proof -
  show "ipc_reach demo_ipc" unfolding demo_ipc_def
    by (rule ipc_reach.step [OF ipc_reach.step [OF ipc_reach.init ipc_step.create] ipc_step.recv]) simp
  have "current_task_id demo_spawned = 0" by code_simp
  then show "\<exists>ep. nth_opt (endpoints demo_ipc) 0 = Some ep \<and> receiver_waiting ep = Some 0"
    by (simp add: demo_ipc_def create_endpoint_def ipc_recv_def MAX_ENDPOINTS_def nth_opt_def ring_pop_def
        ring_zero_def block_receiver_def put_ep_def)
qed


end
