(* ===== verification/Authority.thy ===== *)
theory Authority
  imports Ipc
begin

unbundle bit_operations_syntax

text \<open>
  The capability and IPC system calls of \<^verbatim>\<open>kernel/src/syscall.rs\<close> over one kernel state, and the
  inheritance of capabilities by a spawned task (\<^verbatim>\<open>kernel/src/task.rs\<close>).  Bytes copied from or to
  user memory are arguments and results.  A call that blocks ends its turn at the scheduler's
  switch point; the turns that follow repeat the endpoint operation without a new check of the
  handle, as the source does.  A capability taken by a blocked \<^verbatim>\<open>SYS_IPC_SEND_CAP\<close> is held
  on that task's kernel stack, here in \<open>flight\<close>.
\<close>

section \<open>Kernel state\<close>

record kern =
  kcap :: cap_sys
  kos :: ko_table
  kipc :: ipc
  flight :: "(u64 \<times> nat \<times> bytes \<times> capability) list"

definition cur_id :: "kern \<Rightarrow> u64" where
  "cur_id k = current_task_id (isched (kipc k))"

definition cur_table :: "kern \<Rightarrow> cap_table option" where
  "cur_table k = cap_table_ptr (tables (kcap k)) (cur_id k)"

definition put_cur :: "cap_table \<Rightarrow> kern \<Rightarrow> kern" where
  "put_cur t k = k\<lparr>kcap := (kcap k)\<lparr>tables := put_table (cur_id k) t (tables (kcap k))\<rparr>\<rparr>"

definition valid_user_range :: "u64 \<Rightarrow> u64 \<Rightarrow> bool" where
  "valid_user_range ptr len =
     (if ptr = 0 then False
      else if len = 0 then True
      else if ptr + len < ptr then False
      else ptr + len \<le> 0x800000000000)"

section \<open>Checks of a handle\<close>

text \<open>The match on \<^verbatim>\<open>table.get(handle)\<close> of every IPC call, for the right the call needs.\<close>

definition resolve_endpoint :: "ko_table \<Rightarrow> cap_table \<Rightarrow> u64 \<Rightarrow> cap_rights \<Rightarrow> (u64, nat) res" where
  "resolve_endpoint ko t h need = (case cap_get t h of
      Ok c \<Rightarrow> if kind c = KindIpc \<and> rights_has (rights c) need
              then (case ko_get ko (object c) of Some (ObjIpc e) \<Rightarrow> Ok e | _ \<Rightarrow> Err ENOCAP)
              else Err ENOPERM
    | _ \<Rightarrow> Err ENOCAP)"

definition check_call :: "u64 \<Rightarrow> u64 \<Rightarrow> u64 \<Rightarrow> cap_rights \<Rightarrow> kern \<Rightarrow> (u64, nat) res" where
  "check_call h ptr len need k =
     (if \<not> valid_user_range ptr (min len 64) then Err EINVAL
      else (case cur_table k of
          None \<Rightarrow> Err ENOCAP
        | Some t \<Rightarrow> resolve_endpoint (kos k) t h need))"

section \<open>System calls\<close>

text \<open>Run an endpoint operation; \<open>f\<close> turns its result into the value of \<^verbatim>\<open>RAX\<close>.\<close>

definition on_ipc :: "(ipc \<Rightarrow> (unit, 'a turn) res \<times> ipc) \<Rightarrow> ('a \<Rightarrow> u64 \<times> bytes) \<Rightarrow> kern
    \<Rightarrow> (unit, (u64 \<times> bytes) turn) res \<times> kern" where
  "on_ipc op f k = (let (r, i) = op (kipc k)
     in (res_map (\<lambda>t. case t of Done x \<Rightarrow> Done (f x) | Waits w \<Rightarrow> Waits w) r, k\<lparr>kipc := i\<rparr>))"

definition fail :: "u64 \<Rightarrow> kern \<Rightarrow> (unit, (u64 \<times> bytes) turn) res \<times> kern" where
  "fail e k = (Ok (Done (e, [])), k)"

definition sys_ipc_create :: "u64 option \<Rightarrow> kern \<Rightarrow> (unit, (u64 \<times> bytes) turn) res \<times> kern" where
  "sys_ipc_create frame k = (case create_endpoint frame (kipc k) of
      (Ok (Some e), i) \<Rightarrow>
        (case ko_create (ObjIpc e) (kos k) of
          (Ok obj, ko) \<Rightarrow>
            (let k1 = k\<lparr>kipc := i, kos := ko\<rparr> in
             case cur_table k1 of
               None \<Rightarrow> fail ENOCAP k1
             | Some t \<Rightarrow>
                 (let (h, nid, t') = create_root_cap (next_cap_id (kcap k1)) t KindIpc RIGHTS_ALL obj;
                      k2 = put_cur t' k1
                  in (Ok (Done (h, [])), k2\<lparr>kcap := (kcap k2)\<lparr>next_cap_id := nid\<rparr>\<rparr>)))
        | (_, ko) \<Rightarrow> (Panic, k\<lparr>kipc := i, kos := ko\<rparr>))
    | (Ok None, i) \<Rightarrow> fail EINVAL (k\<lparr>kipc := i\<rparr>)
    | (_, i) \<Rightarrow> (Panic, k\<lparr>kipc := i\<rparr>))"

definition sys_ipc_send :: "u64 \<Rightarrow> u64 \<Rightarrow> u64 \<Rightarrow> bytes \<Rightarrow> kern \<Rightarrow> (unit, (u64 \<times> bytes) turn) res \<times> kern" where
  "sys_ipc_send h ptr len msg k = (case check_call h ptr len WRITE k of
      Ok e \<Rightarrow> on_ipc (ipc_send e msg) (\<lambda>_. (0, [])) k
    | Err c \<Rightarrow> fail c k
    | Panic \<Rightarrow> (Panic, k))"

text \<open>The kernel receives into a buffer of \<^verbatim>\<open>MSG_SIZE\<close> bytes, copies the caller's share of it
  and returns the size of the message.\<close>

definition deliver :: "u64 \<Rightarrow> bytes \<Rightarrow> u64 \<times> bytes" where
  "deliver len b = (of_nat (length b), take (min (length b) (unat (min len 64))) b)"

definition sys_ipc_recv :: "u64 \<Rightarrow> u64 \<Rightarrow> u64 \<Rightarrow> kern \<Rightarrow> (unit, (u64 \<times> bytes) turn) res \<times> kern" where
  "sys_ipc_recv h ptr len k = (case check_call h ptr len READ k of
      Ok e \<Rightarrow> on_ipc (ipc_recv e MSG_SIZE) (deliver len) k
    | Err c \<Rightarrow> fail c k
    | Panic \<Rightarrow> (Panic, k))"

definition sys_ipc_poll :: "u64 \<Rightarrow> u64 \<Rightarrow> u64 \<Rightarrow> kern \<Rightarrow> (unit, (u64 \<times> bytes) turn) res \<times> kern" where
  "sys_ipc_poll h ptr len k = (case check_call h ptr len READ k of
      Ok e \<Rightarrow> on_ipc (\<lambda>i. let (r, i') = ipc_try_recv e MSG_SIZE i in (res_map Done r, i'))
                (\<lambda>b. case b of None \<Rightarrow> (EAGAIN, []) | Some b \<Rightarrow> deliver len b) k
    | Err c \<Rightarrow> fail c k
    | Panic \<Rightarrow> (Panic, k))"

definition sys_ipc_recv_timeout ::
  "u64 \<Rightarrow> u64 \<Rightarrow> u64 \<Rightarrow> u64 \<Rightarrow> u64 \<Rightarrow> kern \<Rightarrow> (unit, (u64 \<times> bytes) turn) res \<times> kern" where
  "sys_ipc_recv_timeout h ptr len timeout_ms now k = (case check_call h ptr len READ k of
      Ok e \<Rightarrow> on_ipc (ipc_recv_timeout e MSG_SIZE (deadline_of now timeout_ms) now)
                (\<lambda>b. case b of None \<Rightarrow> (EAGAIN, []) | Some b \<Rightarrow> deliver len b) k
    | Err c \<Rightarrow> fail c k
    | Panic \<Rightarrow> (Panic, k))"

definition sys_ipc_send_timeout ::
  "u64 \<Rightarrow> u64 \<Rightarrow> u64 \<Rightarrow> bytes \<Rightarrow> u64 \<Rightarrow> u64 \<Rightarrow> kern \<Rightarrow> (unit, (u64 \<times> bytes) turn) res \<times> kern" where
  "sys_ipc_send_timeout h ptr len msg timeout_ms now k = (case check_call h ptr len WRITE k of
      Ok e \<Rightarrow> on_ipc (ipc_send_timeout e msg (deadline_of now timeout_ms) now)
                (\<lambda>ok. (if ok then 0 else EAGAIN, [])) k
    | Err c \<Rightarrow> fail c k
    | Panic \<Rightarrow> (Panic, k))"

text \<open>One turn of \<^verbatim>\<open>ipc::send_cap\<close> by the current task: the capability goes into the endpoint or
  stays in flight.\<close>

definition send_cap_turn :: "nat \<Rightarrow> bytes \<Rightarrow> capability \<Rightarrow> kern \<Rightarrow> (unit, (u64 \<times> bytes) turn) res \<times> kern" where
  "send_cap_turn e msg c k =
     (let me = cur_id k; (r, i) = ipc_send_cap e msg c (kipc k); k' = k\<lparr>kipc := i\<rparr>
      in (case r of
            Ok (Done _) \<Rightarrow> (Ok (Done (0, [])), k')
          | Ok (Waits w) \<Rightarrow> (Ok (Waits w), k'\<lparr>flight := (me, e, msg, c) # flight k'\<rparr>)
          | _ \<Rightarrow> (Panic, k')))"

definition sys_ipc_send_cap ::
  "u64 \<Rightarrow> u64 \<Rightarrow> u64 \<Rightarrow> bytes \<Rightarrow> u64 \<Rightarrow> kern \<Rightarrow> (unit, (u64 \<times> bytes) turn) res \<times> kern" where
  "sys_ipc_send_cap h ptr len msg ch k = (case check_call h ptr len WRITE k of
      Ok e \<Rightarrow> (case cur_table k of
          None \<Rightarrow> fail ENOCAP k
        | Some t \<Rightarrow> (case cap_take ch t of
              (Ok c, t') \<Rightarrow> send_cap_turn e msg c (put_cur t' k)
            | (_, t') \<Rightarrow> fail ENOCAP (put_cur t' k)))
    | Err c \<Rightarrow> fail c k
    | Panic \<Rightarrow> (Panic, k))"

text \<open>The next turn of a blocked \<^verbatim>\<open>send_cap\<close>, when its task runs again.\<close>

definition resume_send_cap :: "kern \<Rightarrow> (unit, (u64 \<times> bytes) turn) res \<times> kern" where
  "resume_send_cap k = (case position (\<lambda>(t, _). t = cur_id k) (flight k) of
      None \<Rightarrow> fail 0 k
    | Some n \<Rightarrow> (case flight k ! n of (_, e, msg, c) \<Rightarrow>
        send_cap_turn e msg c (k\<lparr>flight := take n (flight k) @ drop (Suc n) (flight k)\<rparr>)))"

text \<open>\<open>out\<close> is the optional pointer the new handle is written to, 0 if the caller has none; the
  result carries the value written there.\<close>

definition recv_cap_turn :: "nat \<Rightarrow> u64 \<Rightarrow> u64 \<Rightarrow> kern \<Rightarrow> (unit, (u64 \<times> bytes \<times> u64 option) turn) res \<times> kern" where
  "recv_cap_turn e len out k = (case ipc_recv_cap e MSG_SIZE (kipc k) of
      (Ok (Done (b, mc)), i) \<Rightarrow>
        (let k1 = k\<lparr>kipc := i\<rparr>; (n, d) = deliver len b in
         if out = 0 then (Ok (Done (n, d, None)), k1)
         else (case (mc, cur_table k) of
             (Some c, Some t) \<Rightarrow>
               (let (nh, t') = cap_insert c t
                in (Ok (Done (n, d, Some nh)),
                    k1\<lparr>kcap := (kcap k1)\<lparr>tables := put_table (cur_id k) t' (tables (kcap k1))\<rparr>\<rparr>))
           | _ \<Rightarrow> (Ok (Done (n, d, Some (- 1))), k1)))
    | (Ok (Waits w), i) \<Rightarrow> (Ok (Waits w), k\<lparr>kipc := i\<rparr>)
    | (_, i) \<Rightarrow> (Panic, k\<lparr>kipc := i\<rparr>))"

definition sys_ipc_recv_cap ::
  "u64 \<Rightarrow> u64 \<Rightarrow> u64 \<Rightarrow> u64 \<Rightarrow> kern \<Rightarrow> (unit, (u64 \<times> bytes \<times> u64 option) turn) res \<times> kern" where
  "sys_ipc_recv_cap h ptr len out k =
     (if \<not> valid_user_range ptr (min len 64) \<or> (out \<noteq> 0 \<and> \<not> valid_user_range out 8)
      then (Ok (Done (EINVAL, [], None)), k)
      else (case check_call h ptr len READ k of
          Ok e \<Rightarrow> recv_cap_turn e len out k
        | Err c \<Rightarrow> (Ok (Done (c, [], None)), k)
        | Panic \<Rightarrow> (Panic, k)))"

definition sys_ipc_bind :: "u64 \<Rightarrow> u64 \<Rightarrow> u64 \<Rightarrow> bytes \<Rightarrow> kern \<Rightarrow> u64 \<times> kern" where
  "sys_ipc_bind h ptr len name k =
     (if len = 0 \<or> len > 128 then (EINVAL, k)
      else if \<not> valid_user_range ptr len then (EINVAL, k)
      else (case cur_table k of
          None \<Rightarrow> (ENOCAP, k)
        | Some t \<Rightarrow> (case resolve_endpoint (kos k) t h GRANT of
              Ok e \<Rightarrow>
                if \<not> utf8_ok name then (EINVAL, k)
                else (let (ok, i) = bind_name name e (kipc k)
                      in (if ok then 0 else ENOSYS, k\<lparr>kipc := i\<rparr>))
            | Err c \<Rightarrow> (c, k)
            | Panic \<Rightarrow> (0, k))))"

definition lookup_rights :: "u64 \<Rightarrow> cap_rights" where
  "lookup_rights a3 = (let r = ucast a3 AND (READ OR WRITE) in if r = 0 then READ OR WRITE else r)"

definition sys_ipc_lookup :: "u64 \<Rightarrow> u64 \<Rightarrow> u64 \<Rightarrow> bytes \<Rightarrow> kern \<Rightarrow> (unit, u64) res \<times> kern" where
  "sys_ipc_lookup ptr len a3 name k =
     (if len = 0 \<or> len > 128 then (Ok EINVAL, k)
      else if \<not> valid_user_range ptr len then (Ok EINVAL, k)
      else if \<not> utf8_ok name then (Ok EINVAL, k)
      else (case lookup_name name (kipc k) of
          None \<Rightarrow> (Ok ENOENT, k)
        | Some e \<Rightarrow>
            (case ko_create (ObjIpc e) (kos k) of
              (Ok obj, ko) \<Rightarrow>
                (let k1 = k\<lparr>kos := ko\<rparr> in
                 case cur_table k1 of
                   None \<Rightarrow> (Ok ENOCAP, k1)
                 | Some t \<Rightarrow>
                     (let (h, nid, t') = create_root_cap (next_cap_id (kcap k1)) t KindIpc (lookup_rights a3) obj;
                          k2 = put_cur t' k1
                      in (Ok h, k2\<lparr>kcap := (kcap k2)\<lparr>next_cap_id := nid\<rparr>\<rparr>)))
            | (_, ko) \<Rightarrow> (Panic, k\<lparr>kos := ko\<rparr>))))"

definition sys_rollback_allowed :: "kern \<Rightarrow> bool" where
  "sys_rollback_allowed k = (case cur_table k of None \<Rightarrow> False | Some t \<Rightarrow> has_kind t KindRollback)"

section \<open>Spawning with inherited capabilities\<close>

fun inherit_all :: "u64 \<Rightarrow> cap_table \<Rightarrow> u64 list \<Rightarrow> cap_table \<Rightarrow> u64 \<times> cap_table" where
  "inherit_all nid caller [] to = (nid, to)"
| "inherit_all nid caller (h # hs) to =
     (let (_, nid', to') = cap_inherit nid caller h to in inherit_all nid' caller hs to')"

definition spawn_userspace_task :: "u64 list \<Rightarrow> u64 \<Rightarrow> kern \<Rightarrow> u64 \<times> kern" where
  "spawn_userspace_task caps pt k =
     (let (i, sch) = spawn_task (Some pt) (isched (kipc k));
          (nid, t) = inherit_all (next_cap_id (kcap k))
                       (case cur_table k of None \<Rightarrow> [] | Some c \<Rightarrow> c) caps []
      in (i, k\<lparr>kipc := (kipc k)\<lparr>isched := sch\<rparr>,
               kcap := \<lparr>next_cap_id = nid, tables = tables (kcap k) @ [(i, t)]\<rparr>\<rparr>))"

section \<open>Steps of the kernel\<close>

text \<open>Every system call above, by whichever task is current, the resumed turns of the blocking ones,
  a spawn, the exit of a task (its table goes) and any move of the scheduler.\<close>

inductive kern_step :: "kern \<Rightarrow> kern \<Rightarrow> bool" where
  grant: "kern_step k (k\<lparr>kcap := snd (sys_cap_grant (cur_id k) h target a3 (kcap k))\<rparr>)"
| revoke: "kern_step k (k\<lparr>kcap := snd (sys_cap_revoke (cur_id k) h (kcap k))\<rparr>)"
| create: "sys_ipc_create frame k = (Ok r, k') \<Longrightarrow> kern_step k k'"
| send: "kern_step k (snd (sys_ipc_send h ptr len msg k))"
| recv: "kern_step k (snd (sys_ipc_recv h ptr len k))"
| poll: "kern_step k (snd (sys_ipc_poll h ptr len k))"
| send_timeout: "kern_step k (snd (sys_ipc_send_timeout h ptr len msg ms now k))"
| recv_timeout: "kern_step k (snd (sys_ipc_recv_timeout h ptr len ms now k))"
| send_turn: "kern_step k (snd (on_ipc (ipc_send e msg) f k))"
| recv_turn: "kern_step k (snd (on_ipc (ipc_recv e n) f k))"
| send_timeout_turn: "kern_step k (snd (on_ipc (ipc_send_timeout e msg dl now) f k))"
| recv_timeout_turn: "kern_step k (snd (on_ipc (ipc_recv_timeout e n dl now) f k))"
| send_cap: "kern_step k (snd (sys_ipc_send_cap h ptr len msg ch k))"
| send_cap_turn: "kern_step k (snd (resume_send_cap k))"
| recv_cap: "kern_step k (snd (sys_ipc_recv_cap h ptr len out k))"
| recv_cap_turn: "kern_step k (snd (recv_cap_turn e len out k))"
| bind: "kern_step k (snd (sys_ipc_bind h ptr len name k))"
| lookup: "sys_ipc_lookup ptr len a3 name k = (Ok r, k') \<Longrightarrow> kern_step k k'"
| spawn: "kern_step k (snd (spawn_userspace_task caps pt k))"
| gone: "kern_step k (k\<lparr>kcap := (kcap k)\<lparr>tables := filter p (tables (kcap k))\<rparr>\<rparr>)"
| sched: "kern_step k (k\<lparr>kipc := (kipc k)\<lparr>isched := sch\<rparr>\<rparr>)"

section \<open>Authority\<close>

text \<open>Every capability somewhere in the kernel: in a table, attached to an endpoint, in flight.\<close>

definition pend :: "ipc \<Rightarrow> capability set" where
  "pend s = {c. \<exists>ep \<in> set (endpoints s). pending_cap ep = Some c}"

definition held :: "kern \<Rightarrow> capability set" where
  "held k = all_caps (tables (kcap k)) \<union> pend (kipc k) \<union> (\<lambda>f. snd (snd (snd f))) ` set (flight k)"

definition may :: "nat \<Rightarrow> cap_rights \<Rightarrow> kern \<Rightarrow> bool" where
  "may e r k \<longleftrightarrow> (\<exists>c \<in> held k. ko_get (kos k) (object c) = Some (ObjIpc e) \<and> rights_has (rights c) r)"

definition bound :: "nat \<Rightarrow> kern \<Rightarrow> bool" where
  "bound e k \<longleftrightarrow> (\<exists>name. name_tab (kipc k) name = Some e)"

definition objects_ok :: "kern \<Rightarrow> bool" where
  "objects_ok k \<longleftrightarrow> length (kos k) \<le> 2 ^ 32 \<and> (\<forall>c \<in> held k. ko_get (kos k) (object c) \<noteq> None)"

definition same_auth :: "capability \<Rightarrow> capability \<Rightarrow> bool" where
  "same_auth c d \<longleftrightarrow> object c = object d \<and> rights c AND NOT (rights d) = 0"

definition covered :: "capability set \<Rightarrow> capability set \<Rightarrow> bool" where
  "covered C D \<longleftrightarrow> (\<forall>c \<in> C. \<exists>d \<in> D. same_auth c d)"

lemma same_auth_refl [simp]: "same_auth c c"
  by (simp add: same_auth_def)

lemma covered_subset: "C \<subseteq> D \<Longrightarrow> covered C D"
  unfolding covered_def by (meson same_auth_refl subsetD)

lemma covered_mono: "covered C D \<Longrightarrow> D \<subseteq> E \<Longrightarrow> covered C E"
  by (fastforce simp: covered_def)

lemma covered_sub: "B \<subseteq> C \<Longrightarrow> covered C D \<Longrightarrow> covered B D"
  by (auto simp: covered_def)

lemma same_auth_trans: "same_auth c d \<Longrightarrow> same_auth d e \<Longrightarrow> same_auth c e"
  by (auto simp: same_auth_def bit_eq_iff bit_simps)

lemma covered_trans:
  assumes "covered C D" "covered D E"
  shows "covered C E"
  unfolding covered_def
proof
  fix c assume "c \<in> C"
  then obtain d where "d \<in> D" "same_auth c d" using assms(1) by (auto simp: covered_def)
  moreover from this(1) obtain e where "e \<in> E" "same_auth d e" using assms(2) by (auto simp: covered_def)
  ultimately show "\<exists>e \<in> E. same_auth c e" by (auto intro: same_auth_trans)
qed

lemma covered_Un: "covered (A \<union> B) D \<longleftrightarrow> covered A D \<and> covered B D"
  by (auto simp: covered_def)

lemma covered_insert:
  assumes "A \<subseteq> insert x B" "same_auth x c" "c \<in> D" "covered B D"
  shows "covered A D"
  unfolding covered_def
proof
  fix a assume "a \<in> A"
  then consider "a = x" | "a \<in> B" using assms(1) by blast
  then show "\<exists>d \<in> D. same_auth a d"
    by cases (use assms(2-4) in \<open>auto simp: covered_def\<close>)
qed

lemma rights_has_weaken:
  assumes "rights_has a r" "a AND NOT b = 0"
  shows "rights_has b r"
proof -
  have "bit b n" if "bit r n" for n
  proof -
    have "bit (a AND r) n = bit r n" using assms(1) by (simp add: rights_has_def)
    then have "bit a n" using that by (simp add: bit_simps)
    moreover have "\<not> bit (a AND NOT b) n" using assms(2) by simp
    ultimately show ?thesis using bit_imp_le_length [of a n] by (simp add: bit_simps)
  qed
  then show ?thesis unfolding rights_has_def by (auto intro!: bit_eqI simp: bit_simps)
qed

section \<open>Capability tables only lose authority\<close>

lemma caps_of_get_mut:
  "caps_of (snd (cap_get_mut f h t)) \<subseteq> caps_of t \<union> {f c |c. c \<in> caps_of t}"
proof -
  have "caps_of (t[h_index h := s\<lparr>slot_val := Some (f c)\<rparr>]) \<subseteq> caps_of t \<union> {f c |c. c \<in> caps_of t}"
    if "nth_opt t (h_index h) = Some s" "slot_val s = Some c" for s c
  proof -
    have i: "h_index h < length t" "t ! h_index h = s" using that(1) by (auto simp: nth_opt_eq_Some)
    then have "c \<in> caps_of t" using that(2) nth_mem [OF i(1)] by (auto simp: caps_of_def)
    then show ?thesis using caps_of_update [OF i(1), of "s\<lparr>slot_val := Some (f c)\<rparr>"] by auto
  qed
  then show ?thesis by (auto simp: cap_get_mut_def split: option.splits)
qed

lemma cap_get_caps: "cap_get t h = Ok c \<Longrightarrow> c \<in> caps_of t"
  by (simp add: cap_get_resolve resolve_caps_of)

lemma cap_grant_covered:
  assumes "cap_grant nid src h tgt dst m = (r, nid', src', dst')"
  shows "covered (caps_of src') (caps_of src)" "covered (caps_of dst') (caps_of dst \<union> caps_of src)"
proof -
  define f where "f nh = (\<lambda>c :: capability. c\<lparr>children := children c @ [(tgt, nh)]\<rparr>)" for nh
  have up: "covered (caps_of (snd (cap_get_mut (f nh) h src))) (caps_of src)" for nh
    using caps_of_get_mut [of "f nh" h src]
    by (rule covered_sub) (auto simp: covered_def f_def same_auth_def intro: bexI)
  show "covered (caps_of src') (caps_of src)"
  proof (cases "src' = src")
    case False
    then have "\<exists>nh x. cap_get_mut (f nh) h src = (x, src')"
      using assms by (auto simp: cap_grant_def Let_def f_def split: res.splits if_splits prod.splits)
    then show ?thesis using up by (metis snd_conv)
  qed (simp add: covered_subset)
  show "covered (caps_of dst') (caps_of dst \<union> caps_of src)"
  proof (cases "dst' = dst")
    case False
    then obtain c nh where c: "cap_get src h = Ok c" "(nh, dst') = cap_insert \<lparr>cid = nid, kind = kind c,
        rights = rights_intersect (rights c) m, object = object c, parent_id = Some (cid c), children = []\<rparr> dst"
      using assms by (auto simp: cap_grant_def Let_def split: res.splits if_splits prod.splits)
    have "same_auth \<lparr>cid = nid, kind = kind c, rights = rights_intersect (rights c) m, object = object c,
        parent_id = Some (cid c), children = []\<rparr> c"
      by (simp add: same_auth_def rights_intersect_def bit_eq_iff bit_simps)
    moreover have "caps_of dst' \<subseteq> insert \<lparr>cid = nid, kind = kind c, rights = rights_intersect (rights c) m,
        object = object c, parent_id = Some (cid c), children = []\<rparr> (caps_of dst)"
      using caps_of_insert c(2) by (metis snd_conv)
    ultimately show ?thesis using cap_get_caps [OF c(1)]
      by (auto intro: covered_insert covered_subset)
  qed (auto intro: covered_subset)
qed

lemma put_covered:
  assumes "covered (caps_of t) D" "all_caps ts \<subseteq> D"
  shows "covered (all_caps (put_table i t ts)) D"
  using covered_sub [OF all_caps_put [of i t ts]] assms by (simp add: covered_Un covered_subset)

lemma sys_cap_grant_covered:
  "covered (all_caps (tables (snd (sys_cap_grant cur h target a3 s)))) (all_caps (tables s))"
proof (cases "tables (snd (sys_cap_grant cur h target a3 s)) = tables s")
  case False
  then obtain src dst where st: "cap_table_ptr (tables s) cur = Some src" "cap_table_ptr (tables s) target = Some dst"
    by (cases "cap_table_ptr (tables s) cur"; cases "cap_table_ptr (tables s) target")
      (auto simp: sys_cap_grant_def split: if_splits)
  obtain r nid' src' dst' where g: "cap_grant (next_cap_id s) src h target dst (ucast a3) = (r, nid', src', dst')"
    by (metis prod_cases4)
  from False st g have t: "tables (snd (sys_cap_grant cur h target a3 s))
      = put_table target dst' (put_table cur src' (tables s))"
    by (auto simp: sys_cap_grant_def Let_def split: if_splits res.splits cap_error.splits)
  have D: "caps_of src \<subseteq> all_caps (tables s)" "caps_of dst \<subseteq> all_caps (tables s)"
    using st by (simp_all add: cap_table_ptr_caps)
  have "covered (caps_of src') (all_caps (tables s))" "covered (caps_of dst') (all_caps (tables s))"
    using cap_grant_covered [OF g] D by (auto intro: covered_mono)
  moreover have "covered (all_caps (put_table target dst' (put_table cur src' (tables s)))) (all_caps (tables s))"
    using calculation covered_sub [OF all_caps_put] covered_sub [OF all_caps_put [of cur src' "tables s"]]
    by (simp add: covered_Un covered_subset)
  ultimately show ?thesis using t by simp
qed (simp add: covered_subset)

lemma sys_cap_revoke_sub: "all_caps (tables (snd (sys_cap_revoke cur h s))) \<subseteq> all_caps (tables s)"
  using cascade_children_caps [of "tables s" "[(cur, h)]"]
  by (auto simp: sys_cap_revoke_def cap_cascade_revoke_def cascade_force_def Let_def
      split: option.splits res.splits cap_error.splits if_splits)

lemma inherit_all_covered:
  "inherit_all nid caller hs to = (nid', to') \<Longrightarrow> covered (caps_of to') (caps_of to \<union> caps_of caller)"
proof (induction nid caller hs to arbitrary: nid' to' rule: inherit_all.induct)
  case (1 nid caller to)
  then show ?case by (simp add: covered_subset)
next
  case (2 nid caller h hs to)
  obtain r n1 t1 where i: "cap_inherit nid caller h to = (r, n1, t1)" by (metis prod_cases3)
  with "2.prems" have rest: "inherit_all n1 caller hs t1 = (nid', to')" by simp
  have 1: "covered (caps_of t1) (caps_of to \<union> caps_of caller)"
  proof (cases "cap_get caller h")
    case (Ok src)
    let ?c = "\<lparr>cid = nid, kind = kind src, rights = rights src, object = object src,
      parent_id = parent_id src, children = []\<rparr>"
    have "t1 = snd (cap_insert ?c to)" using i Ok by (auto simp: cap_inherit_def split: prod.splits)
    moreover have "same_auth ?c src" by (simp add: same_auth_def)
    ultimately show ?thesis using caps_of_insert [of ?c to] cap_get_caps [OF Ok]
      by (auto intro: covered_insert covered_subset)
  qed (use i in \<open>auto simp: cap_inherit_def intro: covered_subset\<close>)
  from "2.IH" [OF i [symmetric] refl refl rest] have "covered (caps_of to') (caps_of t1 \<union> caps_of caller)" .
  with 1 show ?case by (meson covered_trans covered_Un covered_subset sup_ge2)
qed

section \<open>Endpoint operations move at most one capability\<close>

definition quiet :: "ipc \<Rightarrow> ipc \<Rightarrow> bool" where
  "quiet s s' \<longleftrightarrow> pend s' \<subseteq> pend s \<and> name_tab s' = name_tab s
     \<and> length (endpoints s') = length (endpoints s)"

lemma pend_put: "pend (put_ep idx ep s) \<subseteq> pend s \<union> set_option (pending_cap ep)"
  using set_update_subset_insert [of "endpoints s" idx ep] by (auto simp: pend_def put_ep_def)

lemma pend_nth: "nth_opt (endpoints s) idx = Some ep \<Longrightarrow> set_option (pending_cap ep) \<subseteq> pend s"
  by (auto simp: pend_def nth_opt_eq_Some intro: nth_mem)

lemma ipc_frame [simp]:
  "name_tab (wake_opt w s) = name_tab s" "pend (wake_opt w s) = pend s"
  "name_tab (snd (at_switch f s)) = name_tab s" "pend (snd (at_switch f s)) = pend s"
  "name_tab (put_ep idx ep s) = name_tab s" "length (endpoints (put_ep idx ep s)) = length (endpoints s)"
  "pend (s\<lparr>isched := x\<rparr>) = pend s"
  by (auto simp: wake_opt_def at_switch_def put_ep_def pend_def split: option.splits prod.splits)

lemma quiet_refl [simp]: "quiet s s"
  by (simp add: quiet_def)

lemma quiet_put:
  assumes "nth_opt (endpoints s) idx = Some ep" "set_option (pending_cap ep') \<subseteq> set_option (pending_cap ep)"
  shows "quiet s (put_ep idx ep' s)"
  using pend_put [of idx ep' s] pend_nth [OF assms(1)] assms(2) by (simp add: quiet_def) blast

lemma quiet_wake: "quiet s s' \<Longrightarrow> quiet s (wake_opt w s')"
  by (simp add: quiet_def)

lemma quiet_switch: "quiet s s' \<Longrightarrow> quiet s (snd (at_switch f s'))"
  by (simp add: quiet_def)

lemmas turn_defs = post_def fetch_def block_sender_def block_receiver_def

lemma quiet_ops:
  "quiet s (snd (ipc_send idx msg s))" "quiet s (snd (ipc_recv idx n s))"
  "quiet s (snd (ipc_try_recv idx n s))" "quiet s (snd (ipc_recv_timeout idx n dl now s))"
  "quiet s (snd (ipc_send_timeout idx msg dl now s))" "quiet s (snd (ipc_recv_cap idx n s))"
  unfolding ipc_send_def ipc_recv_def ipc_try_recv_def ipc_recv_timeout_def ipc_send_timeout_def
    ipc_recv_cap_def turn_defs
  by (auto intro!: quiet_wake quiet_switch intro: quiet_put split: option.splits)

lemma ipc_recv_cap_pend:
  assumes "ipc_recv_cap idx n s = (Ok (Done (b, Some c)), s')"
  shows "c \<in> pend s"
proof (cases "nth_opt (endpoints s) idx")
  case (Some ep)
  then have "pending_cap ep = Some c"
    using assms by (auto simp: ipc_recv_cap_def at_switch_def res_map_eq_Ok split: option.splits prod.splits)
  then show ?thesis using pend_nth [OF Some] by simp
qed (use assms in \<open>simp add: ipc_recv_cap_def\<close>)

lemma ipc_send_cap_pend:
  "pend (snd (ipc_send_cap idx msg c s)) \<subseteq> insert c (pend s)
   \<and> name_tab (snd (ipc_send_cap idx msg c s)) = name_tab s
   \<and> length (endpoints (snd (ipc_send_cap idx msg c s))) = length (endpoints s)"
proof (cases "nth_opt (endpoints s) idx")
  case (Some ep)
  show ?thesis
  proof (cases "ring_push msg (ring ep)")
    case None
    with Some quiet_switch [OF quiet_put [OF Some, of "ep\<lparr>sender_waiting := Some (current_task_id (isched s))\<rparr>"]]
    show ?thesis by (auto simp: ipc_send_cap_def block_sender_def quiet_def)
  next
    case (Some r)
    with \<open>nth_opt (endpoints s) idx = Some ep\<close>
      pend_put [of idx "ep\<lparr>pending_cap := Some c, ring := r, receiver_waiting := None\<rparr>" s]
    show ?thesis by (simp add: ipc_send_cap_def post_def)
  qed
qed (auto simp: ipc_send_cap_def)

section \<open>What one step can add\<close>

text \<open>A capability on an object that did not exist before: on a new endpoint, or on one found by
  name and then without the grant and revoke rights.\<close>

definition fresh_cap :: "kern \<Rightarrow> kern \<Rightarrow> capability \<Rightarrow> bool" where
  "fresh_cap k k' c \<longleftrightarrow> ko_get (kos k) (object c) = None
     \<and> (\<exists>e. ko_get (kos k') (object c) = Some (ObjIpc e)
         \<and> (length (endpoints (kipc k)) \<le> e
            \<or> bound e k \<and> \<not> rights_has (rights c) GRANT \<and> \<not> rights_has (rights c) REVOKE))"

definition step_ok :: "kern \<Rightarrow> kern \<Rightarrow> bool" where
  "step_ok k k' \<longleftrightarrow>
     (\<forall>r v. ko_get (kos k) r = Some v \<longrightarrow> ko_get (kos k') r = Some v)
     \<and> (\<forall>c \<in> held k'. (\<exists>d \<in> held k. same_auth c d) \<or> fresh_cap k k' c)
     \<and> (\<forall>e. bound e k' \<longrightarrow> bound e k \<or> may e GRANT k)
     \<and> length (endpoints (kipc k)) \<le> length (endpoints (kipc k'))
     \<and> (length (kos k) \<le> 2 ^ 32 \<longrightarrow> length (kos k') \<le> 2 ^ 32)"

lemma step_ok_covered:
  assumes "kos k' = kos k" "covered (held k') (held k)" "name_tab (kipc k') = name_tab (kipc k)"
    "length (endpoints (kipc k')) = length (endpoints (kipc k))"
  shows "step_ok k k'"
  using assms by (simp add: step_ok_def covered_def bound_def)

lemma step_ok_refl [simp]: "step_ok k k"
  by (rule step_ok_covered) (simp_all add: covered_subset)

lemma step_ok_caps:
  assumes "covered (all_caps (tables s')) (all_caps (tables (kcap k)))"
  shows "step_ok k (k\<lparr>kcap := s'\<rparr>)"
  by (rule step_ok_covered)
    (use assms in \<open>auto simp: held_def covered_Un intro: covered_mono covered_subset\<close>)

lemma step_ok_ipc:
  assumes "quiet (kipc k) i"
  shows "step_ok k (k\<lparr>kipc := i\<rparr>)"
  by (rule step_ok_covered)
    (use assms in \<open>auto simp: held_def covered_Un quiet_def intro: covered_mono covered_subset\<close>)

lemma on_ipc_quiet: "quiet (kipc k) (snd (op (kipc k))) \<Longrightarrow> step_ok k (snd (on_ipc op f k))"
  by (simp add: on_ipc_def split: prod.splits) (metis snd_conv step_ok_ipc)

lemma snd_fail [simp]: "snd (fail e k) = k"
  by (simp add: fail_def)

lemma step_ok_call:
  assumes "\<And>e. quiet (kipc k) (snd (op e (kipc k)))"
  shows "step_ok k (snd (case r of Ok e \<Rightarrow> on_ipc (op e) f k | Err c \<Rightarrow> fail c k | Panic \<Rightarrow> (Panic, k)))"
  by (cases r) (simp_all add: on_ipc_quiet assms)

lemma try_recv_quiet:
  "quiet i (snd (let (r, i') = ipc_try_recv e n i in (res_map Done r, i')))"
  using quiet_ops(3) [of i e n] by (cases "ipc_try_recv e n i") simp

lemma send_cap_turn_held:
  "held (snd (send_cap_turn e msg c k)) \<subseteq> insert c (held k)
   \<and> kos (snd (send_cap_turn e msg c k)) = kos k
   \<and> name_tab (kipc (snd (send_cap_turn e msg c k))) = name_tab (kipc k)
   \<and> length (endpoints (kipc (snd (send_cap_turn e msg c k)))) = length (endpoints (kipc k))"
proof -
  obtain r i where o: "ipc_send_cap e msg c (kipc k) = (r, i)" by fastforce
  from ipc_send_cap_pend [of e msg c "kipc k"] o have "pend i \<subseteq> insert c (pend (kipc k))"
    "name_tab i = name_tab (kipc k)" "length (endpoints i) = length (endpoints (kipc k))" by simp_all
  then show ?thesis
    by (auto simp: send_cap_turn_def o held_def Let_def split: res.splits turn.splits)
qed

lemma put_cur_frame [simp]:
  "kos (put_cur t k) = kos k" "kipc (put_cur t k) = kipc k" "flight (put_cur t k) = flight k"
  by (simp_all add: put_cur_def)

lemma held_put_cur: "held (put_cur t k) \<subseteq> held k \<union> caps_of t"
  using all_caps_put [of "cur_id k" t "tables (kcap k)"] by (auto simp: held_def put_cur_def)

lemma cur_table_held: "cur_table k = Some t \<Longrightarrow> caps_of t \<subseteq> held k"
  using cap_table_ptr_caps by (fastforce simp: cur_table_def held_def)

lemma sys_ipc_send_cap_ok: "step_ok k (snd (sys_ipc_send_cap h ptr len msg ch k))"
proof (cases "check_call h ptr len WRITE k")
  case (Ok e)
  show ?thesis
  proof (cases "cur_table k")
    case (Some t)
    obtain r t' where tk: "cap_take ch t = (r, t')" by fastforce
    have sub: "held (put_cur t' k) \<subseteq> held k"
      using held_put_cur [of t' k] caps_of_take [of ch t] tk cur_table_held [OF Some] by auto
    show ?thesis
    proof (cases r)
      case (Ok c)
      then have "cap_get t ch = Ok c"
        using tk by (auto simp: cap_take_def cap_get_def split: option.splits if_splits)
      then have "c \<in> held k" using cap_get_caps cur_table_held [OF Some] by blast
      with send_cap_turn_held [of e msg c "put_cur t' k"] sub have
        "step_ok k (snd (send_cap_turn e msg c (put_cur t' k)))"
        by (intro step_ok_covered) (auto intro!: covered_subset)
      then show ?thesis using \<open>check_call h ptr len WRITE k = Ok e\<close> Some tk Ok
        by (simp add: sys_ipc_send_cap_def)
    qed (use \<open>check_call h ptr len WRITE k = Ok e\<close> Some tk sub in
        \<open>auto simp: sys_ipc_send_cap_def intro!: step_ok_covered covered_subset\<close>)
  qed (use Ok in \<open>simp add: sys_ipc_send_cap_def\<close>)
qed (simp_all add: sys_ipc_send_cap_def)

lemma resume_send_cap_ok: "step_ok k (snd (resume_send_cap k))"
proof (cases "position (\<lambda>(t, _). t = cur_id k) (flight k)")
  case (Some n)
  then have n: "n < length (flight k)" by (auto dest: position_bound)
  obtain t e msg c where f: "flight k ! n = (t, e, msg, c)" by (metis prod_cases4)
  let ?k = "k\<lparr>flight := take n (flight k) @ drop (Suc n) (flight k)\<rparr>"
  have sub: "held ?k \<subseteq> held k"
    using set_take_subset [of n "flight k"] set_drop_subset [of "Suc n" "flight k"] by (auto simp: held_def)
  have "c \<in> held k" using nth_mem [OF n] f by (force simp: held_def)
  with send_cap_turn_held [of e msg c ?k] sub have "step_ok k (snd (send_cap_turn e msg c ?k))"
    by (intro step_ok_covered) (auto intro!: covered_subset)
  then show ?thesis using Some f by (simp add: resume_send_cap_def)
qed (simp add: resume_send_cap_def)

lemma recv_cap_turn_ok: "step_ok k (snd (recv_cap_turn e len out k))"
proof -
  obtain r i where o: "ipc_recv_cap e MSG_SIZE (kipc k) = (r, i)" by fastforce
  have q: "quiet (kipc k) i" using quiet_ops(6) [of "kipc k" e MSG_SIZE] o by simp
  note plain = step_ok_ipc [OF q]
  have moved: "step_ok k (k\<lparr>kipc := i, kcap := (kcap k)\<lparr>tables := put_table (cur_id k) t' (tables (kcap k))\<rparr>\<rparr>)"
    if "cur_table k = Some t" "cap_insert c t = (nh, t')" "r = Ok (Done (b, Some c))" for t t' c nh b
  proof (rule step_ok_covered)
    have c: "c \<in> held k" using ipc_recv_cap_pend [of e MSG_SIZE "kipc k" b c i] o that(3) by (simp add: held_def)
    have "caps_of t' \<subseteq> held k" using caps_of_insert [of c t] that(2) c cur_table_held [OF that(1)] by auto
    then show "covered (held (k\<lparr>kipc := i, kcap := (kcap k)\<lparr>tables := put_table (cur_id k) t' (tables (kcap k))\<rparr>\<rparr>)) (held k)"
      using all_caps_put [of "cur_id k" t' "tables (kcap k)"] q
      by (intro covered_subset) (auto simp: held_def quiet_def)
  qed (use q in \<open>simp_all add: quiet_def\<close>)
  show ?thesis using plain
    by (cases r; cases "out = 0")
      (auto simp: recv_cap_turn_def o Let_def split: turn.splits option.splits prod.splits intro: moved)
qed

lemma resolve_endpoint_may:
  assumes "cur_table k = Some t" "resolve_endpoint (kos k) t h need = Ok e"
  shows "may e need k"
proof -
  obtain c where c: "cap_get t h = Ok c" "rights_has (rights c) need" "ko_get (kos k) (object c) = Some (ObjIpc e)"
    using assms(2) by (auto simp: resolve_endpoint_def split: res.splits if_splits option.splits kernel_object.splits)
  have "c \<in> held k" using cap_get_caps [OF c(1)] cur_table_held [OF assms(1)] by blast
  then show ?thesis using c(2,3) by (auto simp: may_def)
qed

lemma sys_ipc_bind_ok: "step_ok k (snd (sys_ipc_bind h ptr len name k))"
proof (cases "snd (sys_ipc_bind h ptr len name k) = k")
  case False
  then obtain t e where te: "cur_table k = Some t" "resolve_endpoint (kos k) t h GRANT = Ok e"
    "snd (sys_ipc_bind h ptr len name k) = k\<lparr>kipc := snd (bind_name name e (kipc k))\<rparr>"
    by (auto simp: sys_ipc_bind_def split: if_splits option.splits res.splits prod.splits)
  have "bound d (k\<lparr>kipc := snd (bind_name name e (kipc k))\<rparr>) \<Longrightarrow> bound d k \<or> d = e" for d
    by (auto simp: bound_def bind_name_def split: option.splits if_splits)
  moreover have "held (k\<lparr>kipc := snd (bind_name name e (kipc k))\<rparr>) = held k"
    "length (endpoints (snd (bind_name name e (kipc k)))) = length (endpoints (kipc k))"
    by (auto simp: held_def pend_def bind_name_def split: option.splits)
  ultimately show ?thesis using te resolve_endpoint_may [OF te(1,2)]
    by (auto simp: step_ok_def intro: same_auth_refl)
qed simp

lemma ko_create_Ok:
  assumes "ko_create obj ko = (Ok r, ko')" "length ko \<le> 2 ^ 32"
  shows "ko_get ko r = None" "ko_get ko' r = Some obj" "length ko' \<le> 2 ^ 32"
    "ko_get ko x = Some v \<Longrightarrow> ko_get ko' x = Some v"
proof -
  have room: "has_room ko"
  proof (cases "reuse_vacant obj 0 ko")
    case None
    then show ?thesis using assms by (auto simp: ko_create_def has_room_def split: if_splits)
  next
    case (Some y)
    then have "\<exists>s \<in> set ko. slot_val s = None" using reuse_vacant_None [of obj 0 ko] by auto
    then show ?thesis using assms(2) by (auto simp: has_room_def)
  qed
  then have i: "ko_insert obj ko = (r, ko')" using assms by (simp add: ko_insert_def)
  show "ko_get ko r = None" by (rule ko_tab.insert_fresh [OF room i])
  show "ko_get ko' r = Some obj" using ko_tab.insert_lookup [OF room i, of r] by simp
  show "ko_get ko' x = Some v" if "ko_get ko x = Some v" by (rule ko_tab.insert_keeps(1) [OF room i that])
  show "length ko' \<le> 2 ^ 32"
  proof (cases "reuse_vacant obj 0 ko")
    case (Some y)
    then obtain n s where "snd y = ko[n := s]" by (metis prod.collapse reuse_vacant_Some)
    then show ?thesis using assms Some by (auto simp: ko_create_def split: prod.splits)
  qed (use assms in \<open>auto simp: ko_create_def split: if_splits\<close>)
qed

text \<open>A new root capability on a new object, given to the current task.\<close>

lemma root_cap_ok:
  assumes len: "length (kos k) \<le> 2 ^ 32"
    and ko: "ko_create (ObjIpc e) (kos k) = (Ok obj, ko)"
    and i: "pend i = pend (kipc k)" "name_tab i = name_tab (kipc k)"
      "length (endpoints (kipc k)) \<le> length (endpoints i)"
    and e: "length (endpoints (kipc k)) \<le> e
      \<or> bound e k \<and> \<not> rights_has rs GRANT \<and> \<not> rights_has rs REVOKE"
    and k': "kos k' = ko" "kipc k' = i" "flight k' = flight k"
      "\<And>c. c \<in> all_caps (tables (kcap k')) \<Longrightarrow> c \<in> held k \<or> (object c = obj \<and> rights c = rs)"
  shows "step_ok k k'"
  unfolding step_ok_def
proof (intro conjI allI ballI impI)
  note K = ko_create_Ok [OF ko len]
  show "ko_get (kos k') r = Some v" if "ko_get (kos k) r = Some v" for r v
    using K(4) that k'(1) by simp
  show "(\<exists>d \<in> held k. same_auth c d) \<or> fresh_cap k k' c" if "c \<in> held k'" for c
  proof (cases "c \<in> held k")
    case False
    then have "object c = obj \<and> rights c = rs" using that k'(2-4) i(1) by (auto simp: held_def)
    then show ?thesis using K(1,2) e k'(1) by (auto simp: fresh_cap_def)
  qed (auto intro: same_auth_refl)
  show "bound d k \<or> may d GRANT k" if "bound d k'" for d
    using that i(2) k'(2) by (simp add: bound_def)
  show "length (endpoints (kipc k)) \<le> length (endpoints (kipc k'))" using i(3) k'(2) by simp
  show "length (kos k') \<le> 2 ^ 32" using K(3) k'(1) by simp
qed

lemma create_root_cap_caps:
  assumes "create_root_cap nid t kd rs obj = (h, nid', t')" "c \<in> caps_of t'"
  shows "c \<in> caps_of t \<or> object c = obj \<and> rights c = rs"
proof -
  let ?c = "\<lparr>cid = nid, kind = kd, rights = rs, object = obj, parent_id = None, children = []\<rparr>"
  have "t' = snd (cap_insert ?c t)" using assms(1) by (auto simp: create_root_cap_def split: prod.splits)
  then have "c \<in> insert ?c (caps_of t)" using caps_of_insert [of ?c t] assms(2) by blast
  then show ?thesis by auto
qed

lemma root_put_caps:
  assumes "create_root_cap nid t kd rs obj = (h, nid', t')" "cur_table k = Some t" "kcap k1 = kcap k" "cur_id k1 = cur_id k"
    "c \<in> all_caps (tables (kcap (put_cur t' k1)))"
  shows "c \<in> held k \<or> object c = obj \<and> rights c = rs"
proof -
  have "c \<in> all_caps (tables (kcap k)) \<or> c \<in> caps_of t'"
    using assms(3-5) all_caps_put [of "cur_id k" t' "tables (kcap k)"] by (auto simp: put_cur_def)
  then show ?thesis
    using create_root_cap_caps [OF assms(1)] cur_table_held [OF assms(2)] by (auto simp: held_def)
qed

lemma create_endpoint_frame:
  assumes "create_endpoint frame s = (Ok (Some e), i)"
  shows "e = length (endpoints s)" "pend i = pend s" "name_tab i = name_tab s"
    "length (endpoints s) \<le> length (endpoints i)" "isched i = isched s"
  using assms by (auto simp: create_endpoint_def pend_def split: if_splits option.splits)

lemma sys_ipc_create_ok:
  assumes "sys_ipc_create frame k = (Ok r, k')" "length (kos k) \<le> 2 ^ 32"
  shows "step_ok k k'"
proof -
  obtain x i where ce: "create_endpoint frame (kipc k) = (x, i)" by fastforce
  consider "x = Ok None" "k' = k\<lparr>kipc := i\<rparr>" | e obj ko where "x = Ok (Some e)" "ko_create (ObjIpc e) (kos k) = (Ok obj, ko)"
    using assms(1) ce
    by (auto simp: sys_ipc_create_def fail_def split: res.splits option.splits prod.splits)
  then show ?thesis
  proof cases
    case 1
    then have "i = kipc k" using ce by (auto simp: create_endpoint_def split: if_splits option.splits)
    then show ?thesis using 1 by simp
  next
    case 2
    note F = create_endpoint_frame [OF ce [unfolded 2(1)]]
    let ?k1 = "k\<lparr>kipc := i, kos := ko\<rparr>"
    have same: "cur_id ?k1 = cur_id k" "cur_table ?k1 = cur_table k"
      using F(5) by (simp_all add: cur_id_def cur_table_def)
    show ?thesis
    proof (cases "cur_table k")
      case None
      then have "k' = ?k1" using assms(1) ce 2 same by (simp add: sys_ipc_create_def fail_def)
      then show ?thesis
        by (intro root_cap_ok [OF assms(2) 2(2) F(2,3,4)]) (use F(1) in \<open>auto simp: held_def\<close>)
    next
      case (Some t)
      obtain h nid t' where c: "create_root_cap (next_cap_id (kcap k)) t KindIpc RIGHTS_ALL obj = (h, nid, t')"
        by (metis prod_cases3)
      then have "k' = (put_cur t' ?k1)\<lparr>kcap := (kcap (put_cur t' ?k1))\<lparr>next_cap_id := nid\<rparr>\<rparr>"
        using assms(1) ce 2 same Some by (simp add: sys_ipc_create_def Let_def)
      then show ?thesis
        by (intro root_cap_ok [OF assms(2) 2(2) F(2,3,4), where rs = RIGHTS_ALL])
          (use F(1) root_put_caps [OF c Some, of ?k1] same(1) in auto)
    qed
  qed
qed

lemma lookup_rights_weak: "\<not> rights_has (lookup_rights a3) GRANT" "\<not> rights_has (lookup_rights a3) REVOKE"
proof -
  have b: "\<not> bit (lookup_rights a3) 2" "\<not> bit (lookup_rights a3) 3"
    by (simp_all add: lookup_rights_def Let_def READ_def WRITE_def bit_simps)
  have g: "bit GRANT 2" "bit REVOKE 3" by (simp_all add: GRANT_def REVOKE_def)
  show "\<not> rights_has (lookup_rights a3) GRANT" "\<not> rights_has (lookup_rights a3) REVOKE"
    using b g unfolding rights_has_def by (metis bit_and_iff)+
qed

lemma sys_ipc_lookup_ok:
  assumes "sys_ipc_lookup ptr len a3 name k = (Ok r, k')" "length (kos k) \<le> 2 ^ 32"
  shows "step_ok k k'"
proof (cases "k' = k")
  case False
  then obtain e obj ko where l: "lookup_name name (kipc k) = Some e" "ko_create (ObjIpc e) (kos k) = (Ok obj, ko)"
    "len \<noteq> 0" "\<not> len > 128" "valid_user_range ptr len" "utf8_ok name"
    using assms(1) by (auto simp: sys_ipc_lookup_def split: if_splits option.splits prod.splits res.splits)
  then have e: "bound e k" by (auto simp: bound_def lookup_name_def)
  let ?k1 = "k\<lparr>kos := ko\<rparr>"
  have same: "cur_id ?k1 = cur_id k" "cur_table ?k1 = cur_table k" by (simp_all add: cur_id_def cur_table_def)
  show ?thesis
  proof (cases "cur_table k")
    case None
    then have "k' = ?k1" using assms(1) l same by (simp add: sys_ipc_lookup_def)
    then show ?thesis
      by (intro root_cap_ok [OF assms(2) l(2), where i = "kipc k" and rs = "lookup_rights a3"])
        (use e lookup_rights_weak in \<open>auto simp: held_def\<close>)
  next
    case (Some t)
    obtain h nid t' where c: "create_root_cap (next_cap_id (kcap k)) t KindIpc (lookup_rights a3) obj = (h, nid, t')"
      by (metis prod_cases3)
    then have "k' = (put_cur t' ?k1)\<lparr>kcap := (kcap (put_cur t' ?k1))\<lparr>next_cap_id := nid\<rparr>\<rparr>"
      using assms(1) l same Some by (simp add: sys_ipc_lookup_def Let_def)
    then show ?thesis
      by (intro root_cap_ok [OF assms(2) l(2), where i = "kipc k" and rs = "lookup_rights a3"])
        (use e lookup_rights_weak root_put_caps [OF c Some, of ?k1] same(1) in auto)
  qed
qed simp

lemma spawn_userspace_task_ok: "step_ok k (snd (spawn_userspace_task caps pt k))"
proof -
  obtain i sch where s: "spawn_task (Some pt) (isched (kipc k)) = (i, sch)" by fastforce
  let ?caller = "case cur_table k of None \<Rightarrow> [] | Some c \<Rightarrow> c"
  obtain nid t where h: "inherit_all (next_cap_id (kcap k)) ?caller caps [] = (nid, t)" by fastforce
  have "caps_of ?caller \<subseteq> held k" using cur_table_held by (auto simp: caps_of_def [of "[]"] split: option.splits)
  moreover have "covered (caps_of t) (caps_of ?caller)"
    using inherit_all_covered [OF h] by (simp add: caps_of_def [of "[]"])
  ultimately have t: "covered (caps_of t) (held k)" by (rule covered_mono [rotated])
  show ?thesis
  proof (rule step_ok_covered)
    have "held (snd (spawn_userspace_task caps pt k)) \<subseteq> caps_of t \<union> held k"
      using s h by (auto simp: spawn_userspace_task_def held_def all_caps_def)
    then show "covered (held (snd (spawn_userspace_task caps pt k))) (held k)"
      by (rule covered_sub) (simp add: covered_Un t covered_subset)
  qed (use s h in \<open>simp_all add: spawn_userspace_task_def\<close>)
qed

lemma kern_step_ok: "kern_step k k' \<Longrightarrow> length (kos k) \<le> 2 ^ 32 \<Longrightarrow> step_ok k k'"
proof (induction rule: kern_step.induct)
  case grant
  show ?case by (rule step_ok_caps) (rule sys_cap_grant_covered)
next
  case revoke
  show ?case by (rule step_ok_caps) (rule covered_subset, rule sys_cap_revoke_sub)
next
  case create
  then show ?case by (rule sys_ipc_create_ok)
next
  case send
  show ?case unfolding sys_ipc_send_def by (rule step_ok_call) (rule quiet_ops)
next
  case recv
  show ?case unfolding sys_ipc_recv_def by (rule step_ok_call) (rule quiet_ops)
next
  case poll
  show ?case unfolding sys_ipc_poll_def by (rule step_ok_call) (rule try_recv_quiet)
next
  case send_timeout
  show ?case unfolding sys_ipc_send_timeout_def by (rule step_ok_call) (rule quiet_ops)
next
  case recv_timeout
  show ?case unfolding sys_ipc_recv_timeout_def by (rule step_ok_call) (rule quiet_ops)
next
  case (recv_cap k h ptr len out)
  show ?case using recv_cap_turn_ok by (simp add: sys_ipc_recv_cap_def split: res.splits)
next
  case lookup
  then show ?case by (rule sys_ipc_lookup_ok)
next
  case (gone k p)
  have "all_caps (filter p (tables (kcap k))) \<subseteq> all_caps (tables (kcap k))" by (auto simp: all_caps_def)
  then show ?case by (intro step_ok_caps) (simp add: covered_subset)
next
  case (sched k sch)
  show ?case by (rule step_ok_ipc) (simp add: quiet_def)
qed (rule on_ipc_quiet, rule quiet_ops
    | rule sys_ipc_send_cap_ok resume_send_cap_ok recv_cap_turn_ok sys_ipc_bind_ok spawn_userspace_task_ok)+

lemma step_ok_objects:
  assumes "step_ok k k'" "objects_ok k"
  shows "objects_ok k'"
  unfolding objects_ok_def
proof (intro conjI ballI)
  show "length (kos k') \<le> 2 ^ 32" using assms by (simp add: step_ok_def objects_ok_def)
  fix c assume "c \<in> held k'"
  then consider d where "d \<in> held k" "same_auth c d" | "fresh_cap k k' c"
    using assms(1) unfolding step_ok_def by blast
  then show "ko_get (kos k') (object c) \<noteq> None"
  proof cases
    case 1
    then obtain v where "ko_get (kos k) (object c) = Some v"
      using assms(2) by (auto simp: objects_ok_def same_auth_def)
    then show ?thesis using assms(1) by (simp add: step_ok_def)
  qed (auto simp: fresh_cap_def)
qed

lemma step_ok_may:
  assumes "step_ok k k'" "objects_ok k" "may e r k'" "e < length (endpoints (kipc k))"
  shows "may e r k \<or> bound e k \<and> r \<noteq> GRANT \<and> r \<noteq> REVOKE"
proof -
  obtain c where c: "c \<in> held k'" "ko_get (kos k') (object c) = Some (ObjIpc e)" "rights_has (rights c) r"
    using assms(3) by (auto simp: may_def)
  consider d where "d \<in> held k" "same_auth c d" | "fresh_cap k k' c"
    using assms(1) c(1) unfolding step_ok_def by blast
  then show ?thesis
  proof cases
    case 1
    then obtain v where v: "ko_get (kos k) (object d) = Some v" using assms(2) by (auto simp: objects_ok_def)
    then have "ko_get (kos k') (object d) = Some v" using assms(1) by (simp add: step_ok_def)
    then have "v = ObjIpc e" using 1(2) c(2) by (simp add: same_auth_def)
    moreover have "rights_has (rights d) r"
      using 1(2) c(3) by (auto simp: same_auth_def intro: rights_has_weaken)
    ultimately show ?thesis using 1(1) v by (auto simp: may_def)
  next
    case 2
    then show ?thesis using c assms(4) by (auto simp: fresh_cap_def)
  qed
qed


section \<open>A concrete run\<close>

text \<open>Task 0 holds a read-only capability on endpoint 0 and spawns a task that inherits it.\<close>

definition demo_kern :: kern where
  "demo_kern = \<lparr>kcap = \<lparr>next_cap_id = 2, tables = [(0, [\<lparr>slot_gen = 0, slot_val = Some \<lparr>cid = 1, kind = KindIpc,
       rights = READ, object = 0, parent_id = None, children = []\<rparr>\<rparr>])]\<rparr>,
     kos = [\<lparr>slot_gen = 0, slot_val = Some (ObjIpc 0)\<rparr>],
     kipc = snd (create_endpoint (Some 0x1000)
       \<lparr>endpoints = [], name_tab = (\<lambda>_. None), isched = sched_init\<rparr>),
     flight = []\<rparr>"

lemma demo_kern_facts:
  "objects_ok demo_kern" "\<not> may 0 WRITE demo_kern" "\<not> may 0 GRANT demo_kern" "\<not> bound 0 demo_kern"
  "0 < length (endpoints (kipc demo_kern))"
  by (auto simp: demo_kern_def objects_ok_def may_def bound_def held_def all_caps_def caps_of_def pend_def
      create_endpoint_def MAX_ENDPOINTS_def ko_get_def nth_opt_def h_index_def h_generation_def
      rights_has_def READ_def WRITE_def GRANT_def)


end
