(* ===== verification/Rfs_Layout.thy ===== *)
theory Rfs_Layout
  imports Prelude
begin

unbundle bit_operations_syntax

text \<open>
  The on-disk formats of RFS version 2: the constants, block pointers and static header of
  \<^verbatim>\<open>fs/rfs2/src/layout.rs\<close>, the inode of \<^verbatim>\<open>inode.rs\<close> and the superblock payload of
  \<^verbatim>\<open>superblock.rs\<close>.  A fixed-size byte array is a list whose length the well-formedness
  predicates fix.
\<close>

section \<open>Errors\<close>

datatype rfs_error = Io | Auth u64 | BadHeader | Unsupported | ReadOnly | NoSuperblock | NoSpace
  | NotFound | Exists | NotDir | IsDir | NotEmpty | Perm | GenExhausted | Invalid | Corrupt

section \<open>Constants and integers\<close>

definition BLOCK_SIZE :: nat where "BLOCK_SIZE = 4096"
definition MAGIC :: bytes where "MAGIC = [0x52, 0x46, 0x53, 0x5F, 0x56, 0x32, 0, 0]"
definition SB_MAGIC :: bytes where "SB_MAGIC = [0x52, 0x46, 0x53, 0x53, 0x42, 0, 0, 0]"
definition FORMAT_VERSION :: u16 where "FORMAT_VERSION = 2"
definition HEADER_VERSION :: u16 where "HEADER_VERSION = 1"
definition SB_SLOT_A :: u64 where "SB_SLOT_A = 1"
definition SB_SLOT_B :: u64 where "SB_SLOT_B = 2"
definition FIRST_DATA_BLOCK :: u64 where "FIRST_DATA_BLOCK = 3"
definition FANOUT :: nat where "FANOUT = 128"
definition INODES_PER_LEAF :: nat where "INODES_PER_LEAF = 32"
definition INODE_SIZE :: nat where "INODE_SIZE = 128"
definition BLOCK_PTR_SIZE :: nat where "BLOCK_PTR_SIZE = 32"
definition SB_PAYLOAD_SIZE :: nat where "SB_PAYLOAD_SIZE = 4072"
definition SB_GEN_COPY_OFFSET :: nat where "SB_GEN_COPY_OFFSET = 4072"
definition SB_TAG_OFFSET :: nat where "SB_TAG_OFFSET = 4080"
definition GEN_LIMIT :: u64 where "GEN_LIMIT = - 1 - 255"
definition INLINE_SYMLINK_MAX :: nat where "INLINE_SYMLINK_MAX = 48"
definition ROOT_INO :: u64 where "ROOT_INO = 1"
definition FIRST_GENERAL_INO :: u64 where "FIRST_GENERAL_INO = 10"
definition INCOMPAT_ENCRYPTION :: u64 where "INCOMPAT_ENCRYPTION = 1"
definition RO_COMPAT_HARDLINKS :: u64 where "RO_COMPAT_HARDLINKS = 1"
definition KNOWN_INCOMPAT :: u64 where "KNOWN_INCOMPAT = INCOMPAT_ENCRYPTION"
definition KNOWN_RO_COMPAT :: u64 where "KNOWN_RO_COMPAT = RO_COMPAT_HARDLINKS"

definition rd_u16 :: "bytes \<Rightarrow> nat \<Rightarrow> u16" where "rd_u16 b off = le_word (slice b off 2)"
definition rd_u32 :: "bytes \<Rightarrow> nat \<Rightarrow> u32" where "rd_u32 b off = le_word (slice b off 4)"
definition rd_u64 :: "bytes \<Rightarrow> nat \<Rightarrow> u64" where "rd_u64 b off = le_word (slice b off 8)"
definition wr_u16 :: "u16 \<Rightarrow> bytes" where "wr_u16 v = le_bytes 2 v"
definition wr_u32 :: "u32 \<Rightarrow> bytes" where "wr_u32 v = le_bytes 4 v"
definition wr_u64 :: "u64 \<Rightarrow> bytes" where "wr_u64 v = le_bytes 8 v"

lemma length_wr [simp, slice_simps]:
  "length (wr_u16 a) = 2" "length (wr_u32 b) = 4" "length (wr_u64 c) = 8"
  by (simp_all add: wr_u16_def wr_u32_def wr_u64_def)

lemma rd_wr:
  "slice b off 2 = wr_u16 v16 \<Longrightarrow> rd_u16 b off = v16"
  "slice b off 4 = wr_u32 v32 \<Longrightarrow> rd_u32 b off = v32"
  "slice b off 8 = wr_u64 v64 \<Longrightarrow> rd_u64 b off = v64"
  by (simp_all add: rd_u16_def rd_u32_def rd_u64_def wr_u16_def wr_u32_def wr_u64_def)

section \<open>Block pointers\<close>

record block_ptr =
  block :: u64
  gen :: u64
  tag :: bytes

definition ptr_null :: block_ptr where
  "ptr_null = \<lparr>block = 0, gen = 0, tag = replicate 16 0\<rparr>"

definition is_null :: "block_ptr \<Rightarrow> bool" where
  "is_null p \<longleftrightarrow> block p = 0"

definition ptr_to_bytes :: "block_ptr \<Rightarrow> bytes" where
  "ptr_to_bytes p = write_fields [(0, wr_u64 (block p)), (8, wr_u64 (gen p)), (16, tag p)]
     (replicate BLOCK_PTR_SIZE 0)"

definition ptr_from_bytes :: "bytes \<Rightarrow> block_ptr" where
  "ptr_from_bytes b = \<lparr>block = rd_u64 b 0, gen = rd_u64 b 8, tag = slice b 16 16\<rparr>"

definition ptr_ok :: "block_ptr \<Rightarrow> bool" where
  "ptr_ok p \<longleftrightarrow> length (tag p) = 16"

lemma ptr_null_ok [simp]: "ptr_ok ptr_null" "is_null ptr_null"
  by (simp_all add: ptr_ok_def ptr_null_def is_null_def)

definition ptr_fields :: "block_ptr \<Rightarrow> (nat \<times> bytes) list" where
  "ptr_fields p = [(0, wr_u64 (block p)), (8, wr_u64 (gen p)), (16, tag p)]"

lemma ptr_fields_ok: "ptr_ok p \<Longrightarrow> fields_ok 0 (length (replicate BLOCK_PTR_SIZE (0 :: u8))) (ptr_fields p)"
  by (simp add: ptr_ok_def BLOCK_PTR_SIZE_def ptr_fields_def)

lemma length_ptr_to_bytes [simp, slice_simps]: "ptr_ok p \<Longrightarrow> length (ptr_to_bytes p) = BLOCK_PTR_SIZE"
  using length_write_fields [OF ptr_fields_ok, of p] by (simp add: ptr_to_bytes_def ptr_fields_def)

lemma ptr_round_trip: "ptr_ok p \<Longrightarrow> ptr_from_bytes (ptr_to_bytes p) = p"
proof -
  assume ok: "ptr_ok p"
  have s: "slice (ptr_to_bytes p) off n = b" if "(off, b) \<in> set (ptr_fields p)" "n = length b" for off n b
    unfolding ptr_to_bytes_def ptr_fields_def [symmetric]
    by (rule slice_field [OF that(1) ptr_fields_ok [OF ok] that(2)])
  have "rd_u64 (ptr_to_bytes p) 0 = block p" "rd_u64 (ptr_to_bytes p) 8 = gen p"
    by (rule rd_wr; rule s; simp add: ptr_fields_def)+
  moreover have "slice (ptr_to_bytes p) 16 16 = tag p"
    by (rule s) (use ok in \<open>simp_all add: ptr_ok_def ptr_fields_def\<close>)
  ultimately show ?thesis by (simp add: ptr_from_bytes_def)
qed

lemma ptr_from_bytes_ok: "32 \<le> length b \<Longrightarrow> ptr_ok (ptr_from_bytes b)"
  by (simp add: ptr_ok_def ptr_from_bytes_def)

lemma nth_of_slice: "slice b off 1 = [v] \<Longrightarrow> b ! off = v"
  by (cases "off < length b") (auto simp: slice_def take_Suc hd_drop_conv_nth)

section \<open>The static header\<close>

record static_header =
  format_version :: u16
  header_version :: u16
  block_size :: u32
  h_total_blocks :: u64
  sb_slot_a :: u64
  sb_slot_b :: u64
  first_data_block :: u64
  h_uuid :: bytes
  feature_compat :: u64
  feature_incompat :: u64
  feature_ro_compat :: u64
  kdf_algo :: u8
  kdf_salt :: bytes
  argon_m_cost :: u32
  argon_t_cost :: u32
  argon_p :: u32
  dek_wrap_nonce :: bytes
  dek_wrapped :: bytes
  dek_wrap_tag :: bytes
  hdr_label :: bytes

definition header_fields :: "static_header \<Rightarrow> (nat \<times> bytes) list" where
  "header_fields h =
     [(0, MAGIC), (8, wr_u16 (format_version h)), (10, wr_u16 (header_version h)),
      (12, wr_u32 (block_size h)), (16, wr_u64 (h_total_blocks h)), (24, wr_u64 (sb_slot_a h)),
      (32, wr_u64 (sb_slot_b h)), (40, wr_u64 (first_data_block h)), (48, h_uuid h),
      (64, wr_u64 (feature_compat h)), (72, wr_u64 (feature_incompat h)),
      (80, wr_u64 (feature_ro_compat h)), (88, [kdf_algo h]), (96, kdf_salt h),
      (112, wr_u32 (argon_m_cost h)), (116, wr_u32 (argon_t_cost h)), (120, wr_u32 (argon_p h)),
      (128, dek_wrap_nonce h), (144, dek_wrapped h), (176, dek_wrap_tag h), (192, hdr_label h)]"

definition header_encode :: "static_header \<Rightarrow> bytes" where
  "header_encode h = write_fields (header_fields h) (replicate BLOCK_SIZE 0)"

definition header_decode :: "bytes \<Rightarrow> (rfs_error, static_header) res" where
  "header_decode buf =
     (if length buf \<noteq> BLOCK_SIZE then Panic
      else if slice buf 0 8 \<noteq> MAGIC then Err BadHeader
      else if rd_u16 buf 8 \<noteq> FORMAT_VERSION then Err Unsupported
      else if rd_u16 buf 10 < 1 then Err BadHeader
      else if unat (rd_u32 buf 12) \<noteq> BLOCK_SIZE then Err Unsupported
      else Ok \<lparr>format_version = rd_u16 buf 8, header_version = rd_u16 buf 10,
               block_size = rd_u32 buf 12, h_total_blocks = rd_u64 buf 16,
               sb_slot_a = rd_u64 buf 24, sb_slot_b = rd_u64 buf 32,
               first_data_block = rd_u64 buf 40, h_uuid = slice buf 48 16,
               feature_compat = rd_u64 buf 64, feature_incompat = rd_u64 buf 72,
               feature_ro_compat = rd_u64 buf 80, kdf_algo = buf ! 88, kdf_salt = slice buf 96 16,
               argon_m_cost = rd_u32 buf 112, argon_t_cost = rd_u32 buf 116,
               argon_p = rd_u32 buf 120, dek_wrap_nonce = slice buf 128 12,
               dek_wrapped = slice buf 144 32, dek_wrap_tag = slice buf 176 16,
               hdr_label = slice buf 192 64\<rparr>)"

definition header_ok :: "static_header \<Rightarrow> bool" where
  "header_ok h \<longleftrightarrow> length (h_uuid h) = 16 \<and> length (kdf_salt h) = 16 \<and> length (dek_wrap_nonce h) = 12
     \<and> length (dek_wrapped h) = 32 \<and> length (dek_wrap_tag h) = 16 \<and> length (hdr_label h) = 64"

lemma length_magic [simp]: "length MAGIC = 8" "length SB_MAGIC = 8"
  by (simp_all add: MAGIC_def SB_MAGIC_def)

lemma header_fields_ok:
  "header_ok h \<Longrightarrow> fields_ok 0 (length (replicate BLOCK_SIZE (0 :: u8))) (header_fields h)"
  by (simp add: header_ok_def header_fields_def BLOCK_SIZE_def)

lemma length_header_encode [simp]: "header_ok h \<Longrightarrow> length (header_encode h) = BLOCK_SIZE"
  unfolding header_encode_def by (subst length_write_fields [OF header_fields_ok]) simp_all

lemma header_slice:
  "header_ok h \<Longrightarrow> (off, b) \<in> set (header_fields h) \<Longrightarrow> n = length b \<Longrightarrow> slice (header_encode h) off n = b"
  unfolding header_encode_def by (rule slice_field [OF _ header_fields_ok])

lemma header_reads:
  assumes "header_ok h"
  shows "rd_u16 (header_encode h) 8 = format_version h" "rd_u16 (header_encode h) 10 = header_version h"
    "rd_u32 (header_encode h) 12 = block_size h" "rd_u64 (header_encode h) 16 = h_total_blocks h"
    "rd_u64 (header_encode h) 24 = sb_slot_a h" "rd_u64 (header_encode h) 32 = sb_slot_b h"
    "rd_u64 (header_encode h) 40 = first_data_block h" "rd_u64 (header_encode h) 64 = feature_compat h"
    "rd_u64 (header_encode h) 72 = feature_incompat h" "rd_u64 (header_encode h) 80 = feature_ro_compat h"
    "rd_u32 (header_encode h) 112 = argon_m_cost h" "rd_u32 (header_encode h) 116 = argon_t_cost h"
    "rd_u32 (header_encode h) 120 = argon_p h"
  by (rule rd_wr, rule header_slice [OF assms], simp add: header_fields_def, simp)+

lemma header_slices:
  assumes "header_ok h"
  shows "slice (header_encode h) 0 8 = MAGIC" "slice (header_encode h) 48 16 = h_uuid h"
    "header_encode h ! 88 = kdf_algo h" "slice (header_encode h) 96 16 = kdf_salt h"
    "slice (header_encode h) 128 12 = dek_wrap_nonce h" "slice (header_encode h) 144 32 = dek_wrapped h"
    "slice (header_encode h) 176 16 = dek_wrap_tag h" "slice (header_encode h) 192 64 = hdr_label h"
proof -
  note s = header_slice [OF assms]
  show "header_encode h ! 88 = kdf_algo h"
    by (rule nth_of_slice, rule s) (simp_all add: header_fields_def)
qed (rule header_slice [OF assms], simp add: header_fields_def,
    use assms in \<open>simp add: header_ok_def\<close>)+

lemma header_decode_encode:
  assumes "header_ok h" "format_version h = FORMAT_VERSION" "1 \<le> header_version h" "block_size h = 4096"
  shows "header_decode (header_encode h) = Ok h"
  using assms
  by (simp add: header_decode_def header_reads header_slices not_less [symmetric] BLOCK_SIZE_def [symmetric])
    (simp add: BLOCK_SIZE_def)

text \<open>C36. A static header survives encoding: decoding the block gives the header back, for every
  header of the current format version, a non-zero header version and 4096-byte blocks.\<close>
theorem header_round_trip:
  assumes "header_ok h" "format_version h = FORMAT_VERSION" "1 \<le> header_version h" "block_size h = 4096"
  shows "header_decode (header_encode h) = Ok h"
  using assms by (rule header_decode_encode)

section \<open>Inodes\<close>

definition FLAG_USED :: u16 where "FLAG_USED = 1"
definition FLAG_FAST_SYMLINK :: u16 where "FLAG_FAST_SYMLINK = 2"
definition S_IFMT :: u16 where "S_IFMT = 0xF000"
definition S_IFREG :: u16 where "S_IFREG = 0x8000"
definition S_IFDIR :: u16 where "S_IFDIR = 0x4000"
definition S_IFLNK :: u16 where "S_IFLNK = 0xA000"

record inode =
  mode :: u16
  flags :: u16
  uid :: u32
  gid :: u32
  nlink :: u32
  isize :: u64
  iblocks :: u64
  mtime :: u64
  ctime :: u64
  atime :: u64
  btime :: u64
  inode_gen :: u64
  bmap_height :: u8
  rdev :: u64
  bmap_root :: block_ptr
  inline :: bytes

definition inode_free :: inode where
  "inode_free = \<lparr>mode = 0, flags = 0, uid = 0, gid = 0, nlink = 0, isize = 0, iblocks = 0, mtime = 0,
     ctime = 0, atime = 0, btime = 0, inode_gen = 0, bmap_height = 0, rdev = 0, bmap_root = ptr_null,
     inline = replicate INLINE_SYMLINK_MAX 0\<rparr>"

definition is_used :: "inode \<Rightarrow> bool" where "is_used i \<longleftrightarrow> flags i AND FLAG_USED \<noteq> 0"
definition is_dir :: "inode \<Rightarrow> bool" where "is_dir i \<longleftrightarrow> mode i AND S_IFMT = S_IFDIR"
definition is_reg :: "inode \<Rightarrow> bool" where "is_reg i \<longleftrightarrow> mode i AND S_IFMT = S_IFREG"
definition is_symlink :: "inode \<Rightarrow> bool" where "is_symlink i \<longleftrightarrow> mode i AND S_IFMT = S_IFLNK"
definition is_fast_symlink :: "inode \<Rightarrow> bool" where
  "is_fast_symlink i \<longleftrightarrow> flags i AND FLAG_FAST_SYMLINK \<noteq> 0"

definition inode_fields :: "inode \<Rightarrow> (nat \<times> bytes) list" where
  "inode_fields i =
     [(0, wr_u16 (mode i)), (2, wr_u16 (flags i)), (4, wr_u32 (uid i)), (8, wr_u32 (gid i)),
      (12, wr_u32 (nlink i)), (16, wr_u64 (isize i)), (24, wr_u64 (iblocks i)), (32, wr_u64 (mtime i)),
      (40, wr_u64 (ctime i)), (48, wr_u64 (atime i)), (56, wr_u64 (btime i)), (64, wr_u64 (inode_gen i)),
      (72, [bmap_height i])]
     @ (if is_fast_symlink i then [(80, inline i)]
        else [(80, wr_u64 (rdev i)), (96, ptr_to_bytes (bmap_root i))])"

definition inode_encode :: "inode \<Rightarrow> bytes" where
  "inode_encode i = write_fields (inode_fields i) (replicate INODE_SIZE 0)"

definition inode_decode :: "bytes \<Rightarrow> inode" where
  "inode_decode buf =
     (let fl = rd_u16 buf 2; fast = (fl AND FLAG_FAST_SYMLINK \<noteq> 0) in
      \<lparr>mode = rd_u16 buf 0, flags = fl, uid = rd_u32 buf 4, gid = rd_u32 buf 8, nlink = rd_u32 buf 12,
       isize = rd_u64 buf 16, iblocks = rd_u64 buf 24, mtime = rd_u64 buf 32, ctime = rd_u64 buf 40,
       atime = rd_u64 buf 48, btime = rd_u64 buf 56, inode_gen = rd_u64 buf 64,
       bmap_height = buf ! 72, rdev = (if fast then 0 else rd_u64 buf 80),
       bmap_root = (if fast then ptr_null else ptr_from_bytes (slice buf 96 32)),
       inline = (if fast then slice buf 80 48 else replicate INLINE_SYMLINK_MAX 0)\<rparr>)"

text \<open>An inode of the in-memory form: a fast symlink has no block map, the others no inline target.\<close>

definition inode_ok :: "inode \<Rightarrow> bool" where
  "inode_ok i \<longleftrightarrow> ptr_ok (bmap_root i) \<and> length (inline i) = INLINE_SYMLINK_MAX
     \<and> (if is_fast_symlink i then rdev i = 0 \<and> bmap_root i = ptr_null
        else inline i = replicate INLINE_SYMLINK_MAX 0)"

lemma inode_fields_ok:
  "inode_ok i \<Longrightarrow> fields_ok 0 (length (replicate INODE_SIZE (0 :: u8))) (inode_fields i)"
  by (simp add: inode_ok_def inode_fields_def INODE_SIZE_def INLINE_SYMLINK_MAX_def BLOCK_PTR_SIZE_def)

lemma length_inode_encode [simp, slice_simps]: "inode_ok i \<Longrightarrow> length (inode_encode i) = INODE_SIZE"
  unfolding inode_encode_def by (subst length_write_fields [OF inode_fields_ok]) simp_all

lemma inode_slice:
  "inode_ok i \<Longrightarrow> (off, b) \<in> set (inode_fields i) \<Longrightarrow> n = length b \<Longrightarrow> slice (inode_encode i) off n = b"
  unfolding inode_encode_def by (rule slice_field [OF _ inode_fields_ok])

lemma inode_reads:
  assumes "inode_ok i"
  shows "rd_u16 (inode_encode i) 0 = mode i" "rd_u16 (inode_encode i) 2 = flags i"
    "rd_u32 (inode_encode i) 4 = uid i" "rd_u32 (inode_encode i) 8 = gid i"
    "rd_u32 (inode_encode i) 12 = nlink i" "rd_u64 (inode_encode i) 16 = isize i"
    "rd_u64 (inode_encode i) 24 = iblocks i" "rd_u64 (inode_encode i) 32 = mtime i"
    "rd_u64 (inode_encode i) 40 = ctime i" "rd_u64 (inode_encode i) 48 = atime i"
    "rd_u64 (inode_encode i) 56 = btime i" "rd_u64 (inode_encode i) 64 = inode_gen i"
  by (rule rd_wr, rule inode_slice [OF assms], simp add: inode_fields_def, simp)+

lemma inode_height: "inode_ok i \<Longrightarrow> inode_encode i ! 72 = bmap_height i"
  by (rule nth_of_slice, rule inode_slice) (simp_all add: inode_fields_def)

lemma inode_decode_encode:
  assumes "inode_ok i"
  shows "inode_decode (inode_encode i) = i"
proof (cases "is_fast_symlink i")
  case True
  have "slice (inode_encode i) 80 48 = inline i"
    by (rule inode_slice [OF assms])
      (use assms True in \<open>simp_all add: inode_fields_def inode_ok_def INLINE_SYMLINK_MAX_def\<close>)
  then show ?thesis using assms True
    by (simp add: inode_decode_def inode_reads inode_height is_fast_symlink_def inode_ok_def Let_def)
next
  case False
  have "rd_u64 (inode_encode i) 80 = rdev i"
    by (rule rd_wr, rule inode_slice [OF assms]) (use False in \<open>simp_all add: inode_fields_def\<close>)
  moreover have "slice (inode_encode i) 96 32 = ptr_to_bytes (bmap_root i)"
    by (rule inode_slice [OF assms])
      (use False assms in \<open>simp_all add: inode_fields_def inode_ok_def BLOCK_PTR_SIZE_def\<close>)
  moreover have "ptr_from_bytes (ptr_to_bytes (bmap_root i)) = bmap_root i"
    using assms by (intro ptr_round_trip) (simp add: inode_ok_def)
  ultimately show ?thesis using assms False
    by (simp add: inode_decode_def inode_reads inode_height is_fast_symlink_def inode_ok_def Let_def)
qed

text \<open>C37. An inode survives encoding into its 128 bytes, whether it carries a block map or the target
  of a fast symlink.\<close>
theorem inode_round_trip:
  assumes "inode_ok i"
  shows "inode_decode (inode_encode i) = i"
  using assms by (rule inode_decode_encode)

lemma inode_free_ok [simp]: "inode_ok inode_free" "\<not> is_used inode_free" "\<not> is_fast_symlink inode_free"
  by (simp_all add: inode_ok_def inode_free_def is_used_def is_fast_symlink_def)

lemma inode_free_encode: "inode_encode inode_free = replicate INODE_SIZE 0"
  by code_simp

lemma inode_decode_ok: "INODE_SIZE \<le> length b \<Longrightarrow> inode_ok (inode_decode b)"
  by (auto simp: inode_ok_def inode_decode_def is_fast_symlink_def Let_def INODE_SIZE_def
      INLINE_SYMLINK_MAX_def intro!: ptr_from_bytes_ok)

section \<open>The superblock payload\<close>

record superblock =
  sb_gen :: u64
  sb_total_blocks :: u64
  inode_map_root :: block_ptr
  inode_map_height :: u64
  next_inode :: u64
  inode_count :: u64
  block_count :: u64
  commit_time :: u64
  sb_uuid :: bytes

definition sb_fields :: "superblock \<Rightarrow> (nat \<times> bytes) list" where
  "sb_fields s =
     [(0, SB_MAGIC), (8, wr_u64 (sb_gen s)), (16, wr_u64 (sb_total_blocks s)),
      (24, ptr_to_bytes (inode_map_root s)), (56, wr_u64 (inode_map_height s)),
      (64, wr_u64 (next_inode s)), (72, wr_u64 (inode_count s)), (80, wr_u64 (block_count s)),
      (88, wr_u64 (commit_time s)), (96, sb_uuid s)]"

text \<open>\<^verbatim>\<open>encode_payload\<close> clears and fills the first 4072 bytes of a slot buffer.\<close>

definition encode_payload :: "superblock \<Rightarrow> bytes \<Rightarrow> bytes" where
  "encode_payload s out = write_fields (sb_fields s) (splice out 0 (replicate SB_PAYLOAD_SIZE 0))"

definition decode_payload :: "bytes \<Rightarrow> (rfs_error, superblock) res" where
  "decode_payload buf =
     (if slice buf 0 8 \<noteq> SB_MAGIC then Err NoSuperblock
      else Ok \<lparr>sb_gen = rd_u64 buf 8, sb_total_blocks = rd_u64 buf 16,
               inode_map_root = ptr_from_bytes (slice buf 24 32), inode_map_height = rd_u64 buf 56,
               next_inode = rd_u64 buf 64, inode_count = rd_u64 buf 72, block_count = rd_u64 buf 80,
               commit_time = rd_u64 buf 88, sb_uuid = slice buf 96 16\<rparr>)"

definition sb_ok :: "superblock \<Rightarrow> bool" where
  "sb_ok s \<longleftrightarrow> ptr_ok (inode_map_root s) \<and> length (sb_uuid s) = 16"

lemma sb_fields_ok: "sb_ok s \<Longrightarrow> fields_ok 0 SB_PAYLOAD_SIZE (sb_fields s)"
  by (simp add: sb_ok_def sb_fields_def SB_PAYLOAD_SIZE_def BLOCK_PTR_SIZE_def)

lemma fields_ok_mono: "fields_ok pos lim fs \<Longrightarrow> lim \<le> lim' \<Longrightarrow> fields_ok pos lim' fs"
  by (induction pos lim fs rule: fields_ok.induct) auto

lemma length_encode_payload [simp]:
  "sb_ok s \<Longrightarrow> SB_PAYLOAD_SIZE \<le> length out \<Longrightarrow> length (encode_payload s out) = length out"
  unfolding encode_payload_def
  using fields_ok_mono [OF sb_fields_ok, of s "length out"] by (subst length_write_fields [of 0]) simp_all

lemma payload_slice:
  assumes "sb_ok s" "SB_PAYLOAD_SIZE \<le> length out" "(off, b) \<in> set (sb_fields s)" "n = length b"
    and "slice buf 0 SB_PAYLOAD_SIZE = slice (encode_payload s out) 0 SB_PAYLOAD_SIZE"
  shows "slice buf off n = b"
proof -
  have "off + n \<le> SB_PAYLOAD_SIZE" using fields_ok_bounds [OF sb_fields_ok [OF assms(1)] assms(3)] assms(4) by simp
  then have "slice buf off n = slice (slice (encode_payload s out) 0 SB_PAYLOAD_SIZE) off n"
    by (simp add: assms(5) [symmetric] slice_slice)
  also have "\<dots> = slice (encode_payload s out) off n"
    using \<open>off + n \<le> SB_PAYLOAD_SIZE\<close> by (simp add: slice_slice)
  also have "\<dots> = b" unfolding encode_payload_def
    by (rule slice_field [OF assms(3)])
      (use assms(2,4) fields_ok_mono [OF sb_fields_ok [OF assms(1)], of "length out"] in simp_all)
  finally show ?thesis .
qed

lemma payload_round_trip:
  assumes "sb_ok s" "SB_PAYLOAD_SIZE \<le> length out"
    and "slice buf 0 SB_PAYLOAD_SIZE = slice (encode_payload s out) 0 SB_PAYLOAD_SIZE"
  shows "decode_payload buf = Ok s"
proof -
  note p = payload_slice [OF assms(1,2) _ _ assms(3)]
  have "slice buf 0 8 = SB_MAGIC" "slice buf 24 32 = ptr_to_bytes (inode_map_root s)" "slice buf 96 16 = sb_uuid s"
    by (rule p; use assms(1) in \<open>simp add: sb_fields_def sb_ok_def BLOCK_PTR_SIZE_def\<close>)+
  moreover have "rd_u64 buf 8 = sb_gen s" "rd_u64 buf 16 = sb_total_blocks s" "rd_u64 buf 56 = inode_map_height s"
    "rd_u64 buf 64 = next_inode s" "rd_u64 buf 72 = inode_count s" "rd_u64 buf 80 = block_count s"
    "rd_u64 buf 88 = commit_time s" by (rule rd_wr, rule p, simp add: sb_fields_def, simp)+
  moreover have "ptr_from_bytes (ptr_to_bytes (inode_map_root s)) = inode_map_root s"
    using assms(1) by (intro ptr_round_trip) (simp add: sb_ok_def)
  ultimately show ?thesis by (simp add: decode_payload_def)
qed

section \<open>Concrete values\<close>

definition demo_header :: static_header where
  "demo_header = \<lparr>format_version = FORMAT_VERSION, header_version = HEADER_VERSION, block_size = 4096,
     h_total_blocks = 64, sb_slot_a = SB_SLOT_A, sb_slot_b = SB_SLOT_B, first_data_block = FIRST_DATA_BLOCK,
     h_uuid = replicate 16 7, feature_compat = 0, feature_incompat = 0, feature_ro_compat = RO_COMPAT_HARDLINKS,
     kdf_algo = 1, kdf_salt = replicate 16 0, argon_m_cost = 65536, argon_t_cost = 3, argon_p = 1,
     dek_wrap_nonce = replicate 12 0, dek_wrapped = replicate 32 0, dek_wrap_tag = replicate 16 0,
     hdr_label = replicate 64 0\<rparr>"

theorem header_round_trip_witness: "header_decode (header_encode demo_header) = Ok demo_header"
  by (rule header_round_trip)
    (simp_all add: header_ok_def demo_header_def FORMAT_VERSION_def HEADER_VERSION_def)

theorem inode_round_trip_witness:
  "inode_decode (inode_encode (inode_free\<lparr>flags := 3, inline := replicate 48 65\<rparr>))
     = inode_free\<lparr>flags := 3, inline := replicate 48 65\<rparr>"
  by (rule inode_round_trip)
    (simp add: inode_ok_def inode_free_def is_fast_symlink_def FLAG_FAST_SYMLINK_def INLINE_SYMLINK_MAX_def)

end
