(* ===== verification/Rfs_Device.thy ===== *)
theory Rfs_Device
  imports Rfs_Layout
begin

text \<open>
  The two seams RFS v2 is generic over, and the code that sits directly on them.

  \<^item> The traits \<^verbatim>\<open>BlockDevice\<close> (\<^verbatim>\<open>device.rs\<close>) and \<^verbatim>\<open>BlockTransform\<close>
    (\<^verbatim>\<open>transform.rs\<close>) together with the clock passed to \<^verbatim>\<open>mount\<close> are the record \<open>env\<close>;
    its functions are arguments of every definition that uses them, and \<open>'w\<close> is the state of the device and
    of the clock.  What the filesystem relies on is stated by the locales \<open>block_device\<close> and
    \<open>block_transform\<close>; \<open>mem_env\<close>, the in-memory image \<^verbatim>\<open>MemDisk\<close> of
    \<^verbatim>\<open>tools/mkrfs2\<close> with the crate's \<^verbatim>\<open>IdentityTransform\<close>, is their interpretation.
  \<^item> Superblock sealing and opening (\<^verbatim>\<open>transform.rs\<close>), slot writes and reads
    (\<^verbatim>\<open>superblock.rs\<close>) and pointer dereference (\<^verbatim>\<open>space.rs\<close>).
\<close>

section \<open>Device, transform and clock\<close>

record 'w env =
  dev_total :: "'w \<Rightarrow> u64"
  dev_read :: "u64 \<Rightarrow> ('w, rfs_error, bytes) sm"
  dev_write :: "u64 \<Rightarrow> bytes \<Rightarrow> ('w, rfs_error, unit) sm"
  dev_flush :: "('w, rfs_error, unit) sm"
  clock :: "'w \<Rightarrow> u64 \<times> 'w"
  encrypt_block :: "u64 \<Rightarrow> u64 \<Rightarrow> bytes \<Rightarrow> bytes \<Rightarrow> bytes \<times> bytes"
  decrypt_block :: "u64 \<Rightarrow> u64 \<Rightarrow> bytes \<Rightarrow> bytes \<Rightarrow> bytes \<Rightarrow> (rfs_error, bytes) res"
  incompat_features :: u64

text \<open>
  The trait contracts: a read returns the block's 4096 bytes and changes nothing; a completed write replaces
  exactly the addressed block, and one that fails may leave that block torn but no other block changed; a flush
  and a clock reading change no block.
\<close>

definition same_disk :: "'w env \<Rightarrow> ('w \<Rightarrow> bool) \<Rightarrow> ('w \<Rightarrow> u64 \<Rightarrow> bytes) \<Rightarrow> 'w \<Rightarrow> 'w \<Rightarrow> bool" where
  "same_disk E valid content w w' \<longleftrightarrow> valid w' \<and> dev_total E w' = dev_total E w \<and> content w' = content w"

locale block_device =
  fixes E :: "'w env" and valid :: "'w \<Rightarrow> bool" and content :: "'w \<Rightarrow> u64 \<Rightarrow> bytes"
  assumes read_same: "valid w \<Longrightarrow> dev_read E b w = (r, w') \<Longrightarrow> same_disk E valid content w w'"
    and read_ok: "valid w \<Longrightarrow> dev_read E b w = (Ok d, w')
          \<Longrightarrow> length d = BLOCK_SIZE \<and> d = content w b"
    and write_valid: "valid w \<Longrightarrow> dev_write E b d w = (r1, w') \<Longrightarrow> valid w' \<and> dev_total E w' = dev_total E w"
    and write_frame: "valid w \<Longrightarrow> dev_write E b d w = (r1, w') \<Longrightarrow> b < dev_total E w
          \<Longrightarrow> b' < dev_total E w \<Longrightarrow> b' \<noteq> b \<Longrightarrow> content w' b' = content w b'"
    and write_ok: "valid w \<Longrightarrow> dev_write E b d w = (Ok u, w') \<Longrightarrow> b < dev_total E w \<Longrightarrow> content w' b = d"
    and flush_same: "valid w \<Longrightarrow> dev_flush E w = (r1, w') \<Longrightarrow> same_disk E valid content w w'"
    and clock_same: "valid w \<Longrightarrow> clock E w = (t, w') \<Longrightarrow> same_disk E valid content w w'"

text \<open>A driver reports failure as an error; it does not panic on a well-formed request.\<close>

locale sound_driver = block_device +
  assumes read_no_panic: "valid w \<Longrightarrow> fst (dev_read E b w) \<noteq> Panic"
    and write_no_panic: "valid w \<Longrightarrow> length d = BLOCK_SIZE \<Longrightarrow> fst (dev_write E b d w) \<noteq> Panic"

text \<open>The transform seals in place and opens what it sealed under the same block, generation and AAD.\<close>

locale block_transform =
  fixes E :: "'w env"
  assumes open_seal: "encrypt_block E b g aad d = (tg, c) \<Longrightarrow> decrypt_block E b g aad tg c = Ok d"
    and seal_length: "encrypt_block E b g aad d = (tg, c) \<Longrightarrow> length c = length d \<and> length tg = 16"

section \<open>Superblock slots\<close>

definition TAG_SIZE :: nat where "TAG_SIZE = 16"

definition dyn_aad :: "u64 \<Rightarrow> u64 \<Rightarrow> bytes" where
  "dyn_aad b g = write_fields [(0, wr_u64 b), (8, wr_u64 g)] (replicate 16 0)"

definition sb_aad :: "u64 \<Rightarrow> u64 \<Rightarrow> bytes \<Rightarrow> bytes" where
  "sb_aad g slot u = write_fields [(0, SB_MAGIC), (8, wr_u64 g), (16, wr_u64 slot), (24, u)] (replicate 40 0)"

definition seal_superblock :: "'w env \<Rightarrow> u64 \<Rightarrow> u64 \<Rightarrow> bytes \<Rightarrow> bytes \<Rightarrow> bytes" where
  "seal_superblock E slot g u buf =
     (let aad = sb_aad g slot u;
          (tg, c) = encrypt_block E slot g aad (slice buf 0 SB_PAYLOAD_SIZE)
      in write_fields [(0, c), (SB_GEN_COPY_OFFSET, wr_u64 g), (SB_TAG_OFFSET, tg)] buf)"

definition open_superblock :: "'w env \<Rightarrow> u64 \<Rightarrow> bytes \<Rightarrow> bytes \<Rightarrow> (rfs_error, u64 \<times> bytes) res" where
  "open_superblock E slot u buf =
     (let g = rd_u64 buf SB_GEN_COPY_OFFSET;
          aad = sb_aad g slot u;
          tg = slice buf SB_TAG_OFFSET TAG_SIZE
      in res_map (\<lambda>d. (g, splice buf 0 d)) (decrypt_block E slot g aad tg (slice buf 0 SB_PAYLOAD_SIZE)))"

definition write_slot :: "'w env \<Rightarrow> u64 \<Rightarrow> superblock \<Rightarrow> ('w, rfs_error, unit) sm" where
  "write_slot E slot s =
     (let buf = encode_payload s (replicate BLOCK_SIZE 0);
          buf = seal_superblock E slot (sb_gen s) (sb_uuid s) buf
      in dev_write E slot buf)"

text \<open>The checks \<^verbatim>\<open>read_slot\<close> makes on the 4096 bytes it read; the function itself returns
  \<^verbatim>\<open>None\<close> when the read fails, too.\<close>

definition slot_valid :: "'w env \<Rightarrow> u64 \<Rightarrow> static_header \<Rightarrow> bytes \<Rightarrow> superblock option" where
  "slot_valid E slot hdr buf =
     (case open_superblock E slot (h_uuid hdr) buf of
        Ok (trailer_gen, buf') \<Rightarrow>
          (case decode_payload buf' of
             Ok s \<Rightarrow> if sb_gen s = 0 \<or> sb_gen s \<noteq> trailer_gen \<or> sb_total_blocks s \<noteq> h_total_blocks hdr
                       \<or> sb_uuid s \<noteq> h_uuid hdr
                    then None else Some s
           | _ \<Rightarrow> None)
      | _ \<Rightarrow> None)"

definition read_slot :: "'w env \<Rightarrow> u64 \<Rightarrow> static_header \<Rightarrow> 'w \<Rightarrow> superblock option \<times> 'w" where
  "read_slot E slot hdr w =
     (case dev_read E slot w of
        (Ok buf, w') \<Rightarrow> (slot_valid E slot hdr buf, w')
      | (_, w') \<Rightarrow> (None, w'))"

text \<open>\<^verbatim>\<open>space::read_ptr\<close>\<close>

definition read_ptr :: "'w env \<Rightarrow> block_ptr \<Rightarrow> ('w, rfs_error, bytes) sm" where
  "read_ptr E ptr = bindS (dev_read E (block ptr)) (\<lambda>buf.
     liftS (decrypt_block E (block ptr) (gen ptr) (dyn_aad (block ptr) (gen ptr)) (tag ptr) buf))"

section \<open>The crate's transform and the image tool's device\<close>

definition identity_encrypt :: "u64 \<Rightarrow> u64 \<Rightarrow> bytes \<Rightarrow> bytes \<Rightarrow> bytes \<times> bytes" where
  "identity_encrypt b g aad d = (replicate TAG_SIZE 0, d)"

definition identity_decrypt :: "u64 \<Rightarrow> u64 \<Rightarrow> bytes \<Rightarrow> bytes \<Rightarrow> bytes \<Rightarrow> (rfs_error, bytes) res" where
  "identity_decrypt b g aad expected d = (if expected \<noteq> replicate TAG_SIZE 0 then Err (Auth b) else Ok d)"

record mem_disk =
  mdata :: bytes
  mtime_now :: u64

definition mem_total :: "mem_disk \<Rightarrow> u64" where
  "mem_total d = of_nat (length (mdata d) div BLOCK_SIZE)"

definition mem_off :: "u64 \<Rightarrow> nat" where
  "mem_off b = unat (b * 4096)"

definition mem_read :: "u64 \<Rightarrow> (mem_disk, rfs_error, bytes) sm" where
  "mem_read b d = (if mem_off b + BLOCK_SIZE > length (mdata d) then (Err Io, d)
                   else (Ok (slice (mdata d) (mem_off b) BLOCK_SIZE), d))"

definition mem_write :: "u64 \<Rightarrow> bytes \<Rightarrow> (mem_disk, rfs_error, unit) sm" where
  "mem_write b buf d =
     (if mem_off b + BLOCK_SIZE > length (mdata d) then (Err Io, d)
      else if length buf \<noteq> BLOCK_SIZE then (Panic, d)
      else (Ok (), d\<lparr>mdata := splice (mdata d) (mem_off b) buf\<rparr>))"

definition mem_env :: "mem_disk env" where
  "mem_env = \<lparr>dev_total = mem_total, dev_read = mem_read, dev_write = mem_write, dev_flush = retS (),
     clock = (\<lambda>d. (mtime_now d, d\<lparr>mtime_now := mtime_now d + 1\<rparr>)),
     encrypt_block = identity_encrypt, decrypt_block = identity_decrypt, incompat_features = 0\<rparr>"

definition mem_content :: "mem_disk \<Rightarrow> u64 \<Rightarrow> bytes" where
  "mem_content d b = slice (mdata d) (mem_off b) BLOCK_SIZE"


definition mem_valid :: "mem_disk \<Rightarrow> bool" where
  "mem_valid d \<longleftrightarrow> length (mdata d) < 2 ^ 63"

lemma mem_env_simps [simp]:
  "dev_total mem_env = mem_total" "dev_read mem_env = mem_read" "dev_write mem_env = mem_write"
  "dev_flush mem_env = retS ()" "clock mem_env d = (mtime_now d, d\<lparr>mtime_now := mtime_now d + 1\<rparr>)"
  "encrypt_block mem_env = identity_encrypt" "decrypt_block mem_env = identity_decrypt"
  "incompat_features mem_env = 0"
  by (simp_all add: mem_env_def)

lemma mem_off_exact:
  assumes "mem_valid d" "b < mem_total d"
  shows "mem_off b = 4096 * unat b" "mem_off b + BLOCK_SIZE \<le> length (mdata d)"
proof -
  have "unat b < length (mdata d) div 4096"
    using assms by (simp add: mem_total_def word_less_nat_alt unat_of_nat BLOCK_SIZE_def mem_valid_def)
  then have f: "4096 * unat b + 4096 \<le> length (mdata d)" by linarith
  then have "4096 * unat b < 2 ^ 64" using assms(1) by (simp add: mem_valid_def)
  then show e: "mem_off b = 4096 * unat b"
    by (simp add: mem_off_def unat_word_ariths mult.commute)
  show "mem_off b + BLOCK_SIZE \<le> length (mdata d)" unfolding e BLOCK_SIZE_def using f .
qed

interpretation memdisk: block_device mem_env mem_valid mem_content
proof unfold_locales
  fix w w' b d and r :: "(rfs_error, bytes) res"
  show "same_disk mem_env mem_valid mem_content w w'" if "mem_valid w" "dev_read mem_env b w = (r, w')"
    using that by (auto simp: same_disk_def mem_read_def split: if_splits)
  show "length d = BLOCK_SIZE \<and> d = mem_content w b"
    if "mem_valid w" "dev_read mem_env b w = (Ok d, w')"
    using that by (auto simp: mem_read_def mem_content_def split: if_splits)
next
  fix w w' b d and r :: "(rfs_error, unit) res" and u
  show "mem_valid w' \<and> dev_total mem_env w' = dev_total mem_env w"
    if "mem_valid w" "dev_write mem_env b d w = (r, w')"
    using that by (auto simp: mem_write_def mem_valid_def mem_total_def split: if_splits)
  show "mem_content w' b = d"
    if "mem_valid w" "dev_write mem_env b d w = (Ok u, w')" "b < dev_total mem_env w"
    using that by (auto simp: mem_write_def mem_content_def split: if_splits)
next
  fix w w' b b' d and r :: "(rfs_error, unit) res"
  assume v: "mem_valid w" "dev_write mem_env b d w = (r, w')"
    and b: "b < dev_total mem_env w" "b' < dev_total mem_env w" "b' \<noteq> b"
  note e = mem_off_exact [OF v(1), of b] mem_off_exact [OF v(1), of b']
  have "unat b' \<noteq> unat b" using b(3) by (simp add: word_unat_eq_iff)
  then have "mem_off b' + BLOCK_SIZE \<le> mem_off b \<or> mem_off b + BLOCK_SIZE \<le> mem_off b'"
    using e b(1,2) by (simp add: BLOCK_SIZE_def) linarith
  then show "mem_content w' b' = mem_content w b'" using v(2) e b(1,2)
    by (auto simp: mem_write_def mem_content_def slice_splice_disjoint split: if_splits)
qed (auto simp: same_disk_def retS_def mem_valid_def mem_total_def mem_content_def fun_eq_iff)

interpretation memdisk: sound_driver mem_env mem_valid mem_content
  by unfold_locales (auto simp: mem_read_def mem_write_def)

interpretation memdisk: block_transform mem_env
  by unfold_locales (auto simp: identity_encrypt_def identity_decrypt_def TAG_SIZE_def)

section \<open>What a slot holds after it was written\<close>

definition slot_image :: "'w env \<Rightarrow> u64 \<Rightarrow> superblock \<Rightarrow> bytes" where
  "slot_image E slot s = seal_superblock E slot (sb_gen s) (sb_uuid s) (encode_payload s (replicate BLOCK_SIZE 0))"

definition sb_for :: "static_header \<Rightarrow> superblock \<Rightarrow> bool" where
  "sb_for hdr s \<longleftrightarrow> sb_ok s \<and> sb_gen s \<noteq> 0 \<and> sb_total_blocks s = h_total_blocks hdr \<and> sb_uuid s = h_uuid hdr"

lemma write_slot_image: "write_slot E slot s = dev_write E slot (slot_image E slot s)"
  by (simp add: write_slot_def slot_image_def Let_def)

context block_transform
begin

lemma slot_image_parts:
  assumes "sb_ok s"
  obtains tg c where
    "encrypt_block E slot (sb_gen s) (sb_aad (sb_gen s) slot (sb_uuid s))
       (slice (encode_payload s (replicate BLOCK_SIZE 0)) 0 SB_PAYLOAD_SIZE) = (tg, c)"
    "length (slot_image E slot s) = BLOCK_SIZE" "slice (slot_image E slot s) 0 SB_PAYLOAD_SIZE = c"
    "slice (slot_image E slot s) SB_GEN_COPY_OFFSET 8 = wr_u64 (sb_gen s)"
    "slice (slot_image E slot s) SB_TAG_OFFSET TAG_SIZE = tg"
proof -
  let ?p = "encode_payload s (replicate BLOCK_SIZE 0)"
  obtain tg c where e: "encrypt_block E slot (sb_gen s) (sb_aad (sb_gen s) slot (sb_uuid s))
      (slice ?p 0 SB_PAYLOAD_SIZE) = (tg, c)" by fastforce
  have lp: "length ?p = BLOCK_SIZE" using assms by (simp add: SB_PAYLOAD_SIZE_def BLOCK_SIZE_def)
  have l: "length c = SB_PAYLOAD_SIZE" "length tg = TAG_SIZE"
    using seal_length [OF e] lp by (simp_all add: SB_PAYLOAD_SIZE_def BLOCK_SIZE_def TAG_SIZE_def)
  let ?fs = "[(0, c), (SB_GEN_COPY_OFFSET, wr_u64 (sb_gen s)), (SB_TAG_OFFSET, tg)]"
  have im: "slot_image E slot s = write_fields ?fs ?p"
    by (simp add: slot_image_def seal_superblock_def e Let_def)
  have ok: "fields_ok 0 (length ?p) ?fs" using l lp
    by (simp add: SB_GEN_COPY_OFFSET_def SB_TAG_OFFSET_def SB_PAYLOAD_SIZE_def TAG_SIZE_def BLOCK_SIZE_def)
  note f = slice_field [OF _ ok]
  show ?thesis
  proof (rule that [OF e])
    show "length (slot_image E slot s) = BLOCK_SIZE" using ok lp by (simp add: im)
    show "slice (slot_image E slot s) 0 SB_PAYLOAD_SIZE = c" unfolding im using l by (intro f) simp_all
    show "slice (slot_image E slot s) SB_GEN_COPY_OFFSET 8 = wr_u64 (sb_gen s)" unfolding im by (intro f) simp_all
    show "slice (slot_image E slot s) SB_TAG_OFFSET TAG_SIZE = tg" unfolding im using l by (intro f) simp_all
  qed
qed

lemma slot_image_valid:
  assumes "sb_for hdr s"
  shows "slot_valid E slot hdr (slot_image E slot s) = Some s"
proof -
  have s: "sb_ok s" "sb_gen s \<noteq> 0" "sb_total_blocks s = h_total_blocks hdr" "sb_uuid s = h_uuid hdr"
    using assms by (simp_all add: sb_for_def)
  let ?p = "encode_payload s (replicate BLOCK_SIZE 0)" and ?i = "slot_image E slot s"
  obtain tg c where e: "encrypt_block E slot (sb_gen s) (sb_aad (sb_gen s) slot (sb_uuid s))
      (slice ?p 0 SB_PAYLOAD_SIZE) = (tg, c)"
    and l: "length ?i = BLOCK_SIZE" and c: "slice ?i 0 SB_PAYLOAD_SIZE = c"
    and g: "slice ?i SB_GEN_COPY_OFFSET 8 = wr_u64 (sb_gen s)" and tg: "slice ?i SB_TAG_OFFSET TAG_SIZE = tg"
    by (rule slot_image_parts [OF s(1)])
  have gg: "rd_u64 ?i SB_GEN_COPY_OFFSET = sb_gen s" using g by (rule rd_wr)
  have op: "open_superblock E slot (h_uuid hdr) ?i = Ok (sb_gen s, splice ?i 0 (slice ?p 0 SB_PAYLOAD_SIZE))"
    using open_seal [OF e] s(4) by (simp add: open_superblock_def gg c tg Let_def)
  have lp: "length ?p = BLOCK_SIZE" using s(1) by (simp add: SB_PAYLOAD_SIZE_def BLOCK_SIZE_def)
  have le: "SB_PAYLOAD_SIZE \<le> BLOCK_SIZE" by (simp add: SB_PAYLOAD_SIZE_def BLOCK_SIZE_def)
  then have "decode_payload (splice ?i 0 (slice ?p 0 SB_PAYLOAD_SIZE)) = Ok s"
    by (intro payload_round_trip [OF s(1), of "replicate BLOCK_SIZE 0"]) (simp_all add: lp l)
  then show ?thesis using s by (simp add: slot_valid_def op)
qed

end

text \<open>
  The slot choice of \<^verbatim>\<open>Rfs2::mount\<close>: the valid slot with the higher generation, and the other one
  as the previous tree.
\<close>

definition pick_superblock ::
  "superblock option \<Rightarrow> superblock option \<Rightarrow> (rfs_error, superblock \<times> u64 \<times> superblock option) res" where
  "pick_superblock sa sbb = (case (sa, sbb) of
     (Some a, Some b) \<Rightarrow> if sb_gen a = sb_gen b then Err Corrupt
                        else if sb_gen a > sb_gen b then Ok (a, SB_SLOT_A, Some b) else Ok (b, SB_SLOT_B, Some a)
   | (Some a, None) \<Rightarrow> Ok (a, SB_SLOT_A, None)
   | (None, Some b) \<Rightarrow> Ok (b, SB_SLOT_B, None)
   | (None, None) \<Rightarrow> Err NoSuperblock)"

text \<open>The bytes of a slot after a write of \<open>new\<close> over \<open>old\<close> that power loss cut after \<open>k\<close> bytes: what
  \<^verbatim>\<open>CrashDisk\<close> of \<^verbatim>\<open>tools/mkrfs2\<close> leaves behind.\<close>

definition torn :: "nat \<Rightarrow> bytes \<Rightarrow> bytes \<Rightarrow> bytes" where
  "torn k new old = take k new @ drop k old"

lemma slice_torn_new: "a + n \<le> k \<Longrightarrow> k \<le> length new \<Longrightarrow> slice (torn k new old) a n = slice new a n"
proof -
  assume h: "a + n \<le> k" "k \<le> length new"
  then have "slice (torn k new old) a n = slice (take k new) a n"
    unfolding torn_def by (intro slice_append_left) simp
  also have "\<dots> = slice new a n" using h(1) by (simp add: slice_def drop_take min_def)
  finally show ?thesis .
qed

lemma slice_torn_old:
  "k \<le> a \<Longrightarrow> k \<le> length new \<Longrightarrow> slice (torn k new old) a n = slice old a n"
  by (simp add: torn_def slice_def)

lemma torn_agree:
  assumes "a \<le> k" "k \<le> b" "slice (torn k new old) a (b - a) = slice old a (b - a)"
    and "length new = length old" "b \<le> length old" "slice new 0 a = slice old 0 a"
  shows "torn k new old = old"
proof -
  have tk: "take k new = take k old"
  proof -
    have "slice new a (k - a) = slice old a (k - a)"
    proof -
      have "slice (slice (torn k new old) a (b - a)) 0 (k - a) = slice (slice old a (b - a)) 0 (k - a)"
        using assms(3) by simp
      then have "slice (torn k new old) a (k - a) = slice old a (k - a)"
        using assms(1,2) by (simp add: slice_slice)
      then show ?thesis using slice_torn_new [of a "k - a" k new old] assms by simp
    qed
    moreover have "take k zs = slice zs 0 a @ slice zs a (k - a)" for zs :: bytes
      using assms(1) by (simp add: slice_def take_add [symmetric])
    ultimately show ?thesis using assms(6) by simp
  qed
  then show ?thesis by (simp add: torn_def)
qed

definition identity_env :: "'w env \<Rightarrow> bool" where
  "identity_env E \<longleftrightarrow> encrypt_block E = identity_encrypt \<and> decrypt_block E = identity_decrypt"

lemma identity_transform: "identity_env E \<Longrightarrow> block_transform E"
  by unfold_locales (auto simp: identity_env_def identity_encrypt_def identity_decrypt_def TAG_SIZE_def)

lemma decode_payload_head:
  "decode_payload b = Ok x \<Longrightarrow> sb_gen x = rd_u64 b 8 \<and> slice b 0 8 = SB_MAGIC"
  by (auto simp: decode_payload_def split: if_splits)

lemma identity_slot_valid:
  assumes "identity_env E" "length buf = BLOCK_SIZE" "slot_valid E slot hdr buf = Some x"
  shows "decode_payload buf = Ok x" "sb_gen x = rd_u64 buf SB_GEN_COPY_OFFSET" "sb_gen x \<noteq> 0"
    "slice buf 0 8 = SB_MAGIC" "sb_gen x = rd_u64 buf 8"
proof -
  have "SB_PAYLOAD_SIZE \<le> length buf" using assms(2) by (simp add: SB_PAYLOAD_SIZE_def BLOCK_SIZE_def)
  then have id: "splice buf 0 (slice buf 0 SB_PAYLOAD_SIZE) = buf" by simp
  show d: "decode_payload buf = Ok x" and "sb_gen x = rd_u64 buf SB_GEN_COPY_OFFSET" "sb_gen x \<noteq> 0"
    using assms(1,3)
    by (auto simp: slot_valid_def open_superblock_def identity_env_def identity_decrypt_def id Let_def
        split: res.splits if_splits)
  then show "slice buf 0 8 = SB_MAGIC" "sb_gen x = rd_u64 buf 8"
    using decode_payload_head by auto
qed

lemma identity_slot_image:
  assumes "identity_env E" "sb_ok s"
  shows "length (slot_image E slot s) = BLOCK_SIZE"
    "slice (slot_image E slot s) 0 SB_PAYLOAD_SIZE = slice (encode_payload s (replicate BLOCK_SIZE 0)) 0 SB_PAYLOAD_SIZE"
    "rd_u64 (slot_image E slot s) SB_GEN_COPY_OFFSET = sb_gen s"
    "decode_payload (slot_image E slot s) = Ok s"
proof -
  obtain tg c where p: "encrypt_block E slot (sb_gen s) (sb_aad (sb_gen s) slot (sb_uuid s))
       (slice (encode_payload s (replicate BLOCK_SIZE 0)) 0 SB_PAYLOAD_SIZE) = (tg, c)"
    "length (slot_image E slot s) = BLOCK_SIZE" "slice (slot_image E slot s) 0 SB_PAYLOAD_SIZE = c"
    "slice (slot_image E slot s) SB_GEN_COPY_OFFSET 8 = wr_u64 (sb_gen s)"
    using block_transform.slot_image_parts [OF identity_transform [OF assms(1)] assms(2)] by metis
  show "length (slot_image E slot s) = BLOCK_SIZE" by fact
  show c: "slice (slot_image E slot s) 0 SB_PAYLOAD_SIZE = slice (encode_payload s (replicate BLOCK_SIZE 0)) 0 SB_PAYLOAD_SIZE"
    using p(1,3) assms(1) by (simp add: identity_env_def identity_encrypt_def)
  show "rd_u64 (slot_image E slot s) SB_GEN_COPY_OFFSET = sb_gen s" using p(4) by (rule rd_wr)
  show "decode_payload (slot_image E slot s) = Ok s"
    by (rule payload_round_trip [OF assms(2) _ c]) (simp add: SB_PAYLOAD_SIZE_def BLOCK_SIZE_def)
qed

lemma identity_slot_gen:
  assumes "identity_env E" "sb_ok s"
  shows "rd_u64 (slot_image E slot s) 8 = sb_gen s" "slice (slot_image E slot s) 0 8 = SB_MAGIC"
  using decode_payload_head [OF identity_slot_image(4) [OF assms, of slot]] by simp_all

lemma rd_u64_inj:
  assumes "rd_u64 x a = rd_u64 y b" "a + 8 \<le> length x" "b + 8 \<le> length y"
  shows "slice x a 8 = slice y b 8"
proof -
  have "le_bytes 8 (rd_u64 z c) = slice z c 8" if "c + 8 \<le> length z" for z c
    using le_bytes_le_word [of "slice z c 8", where 'a = 64] that by (simp add: rd_u64_def)
  then show ?thesis using assms by metis
qed

lemma rd_zero: "a + 8 \<le> n \<Longrightarrow> rd_u64 (replicate n 0) a = 0"
  by (simp add: rd_u64_def min_def numeral_eq_Suc)

lemma blank_slot_invalid: "identity_env E \<Longrightarrow> slot_valid E slot hdr (replicate BLOCK_SIZE 0) = None"
proof (rule ccontr)
  assume E: "identity_env E" and "slot_valid E slot hdr (replicate BLOCK_SIZE 0) \<noteq> None"
  then obtain x where x: "slot_valid E slot hdr (replicate BLOCK_SIZE 0) = Some x" by blast
  have "sb_gen x = rd_u64 (replicate BLOCK_SIZE 0) 8" "sb_gen x \<noteq> 0"
    using identity_slot_valid [OF E _ x] by simp_all
  moreover have "8 + 8 \<le> BLOCK_SIZE" by (simp add: BLOCK_SIZE_def)
  ultimately show False by (simp add: rd_zero)
qed

lemma before_slot_facts:
  assumes "identity_env E" "g \<noteq> 0"
    and "old = replicate BLOCK_SIZE 0 \<or> (\<exists>s0. sb_for hdr s0 \<and> sb_gen s0 \<noteq> g \<and> old = slot_image E slot s0)"
  shows "length old = BLOCK_SIZE" "rd_u64 old SB_GEN_COPY_OFFSET = rd_u64 old 8" "rd_u64 old 8 \<noteq> g"
    "rd_u64 old 8 = 0 \<or> slice old 0 8 = SB_MAGIC"
proof -
  have "length old = BLOCK_SIZE \<and> rd_u64 old SB_GEN_COPY_OFFSET = rd_u64 old 8 \<and> rd_u64 old 8 \<noteq> g
      \<and> (rd_u64 old 8 = 0 \<or> slice old 0 8 = SB_MAGIC)"
    using assms(3)
  proof
    assume o: "old = replicate BLOCK_SIZE 0"
    have "8 + 8 \<le> BLOCK_SIZE" "SB_GEN_COPY_OFFSET + 8 \<le> BLOCK_SIZE"
      by (simp_all add: BLOCK_SIZE_def SB_GEN_COPY_OFFSET_def)
    then show ?thesis using assms(2) by (simp add: o rd_zero)
  next
    assume "\<exists>s0. sb_for hdr s0 \<and> sb_gen s0 \<noteq> g \<and> old = slot_image E slot s0"
    then show ?thesis
      using identity_slot_image [OF assms(1)] identity_slot_gen [OF assms(1)] by (auto simp: sb_for_def)
  qed
  then show "length old = BLOCK_SIZE" "rd_u64 old SB_GEN_COPY_OFFSET = rd_u64 old 8" "rd_u64 old 8 \<noteq> g"
    "rd_u64 old 8 = 0 \<or> slice old 0 8 = SB_MAGIC" by simp_all
qed

lemma torn_head:
  assumes "length new = BLOCK_SIZE" "length old = BLOCK_SIZE" "k \<le> 16"
    and "slice new 0 8 = slice old 0 8" "rd_u64 (torn k new old) 8 = rd_u64 old 8"
  shows "torn k new old = old"
proof (cases "k \<le> 8")
  case True
  have "take k new = take k old" using arg_cong [OF assms(4), of "take k"] True by (simp add: slice_def min_def)
  then show ?thesis by (simp add: torn_def)
next
  case False
  have "slice (torn k new old) 8 8 = slice old 8 8"
    by (rule rd_u64_inj) (use assms in \<open>simp_all add: torn_def BLOCK_SIZE_def\<close>)
  then show ?thesis
    using False assms by (intro torn_agree [of 8 k 16]) (simp_all add: BLOCK_SIZE_def)
qed

lemma torn_slot_cases:
  assumes "identity_env E" "sb_for hdr s" "k \<le> BLOCK_SIZE"
    and "old = replicate BLOCK_SIZE 0 \<or> (\<exists>s0. sb_for hdr s0 \<and> sb_gen s0 \<noteq> sb_gen s \<and> old = slot_image E slot s0)"
  shows "slot_valid E slot hdr (torn k (slot_image E slot s) old)
           \<in> {None, slot_valid E slot hdr old, Some s}"
proof (cases "slot_valid E slot hdr (torn k (slot_image E slot s) old)")
  case (Some x)
  let ?new = "slot_image E slot s" let ?b = "torn k ?new old"
  have s: "sb_ok s" "sb_gen s \<noteq> 0" using assms(2) by (simp_all add: sb_for_def)
  note new = identity_slot_image [OF assms(1) s(1), of slot] identity_slot_gen [OF assms(1) s(1), of slot]
  define g0 where "g0 = rd_u64 old 8"
  note old = before_slot_facts [OF assms(1) s(2) assms(4), folded g0_def]
  have lb: "length ?b = BLOCK_SIZE" using assms(3) old(1) new(1) by (simp add: torn_def)
  note v = identity_slot_valid [OF assms(1) lb Some]
  consider "k \<le> SB_GEN_COPY_OFFSET" | "SB_GEN_COPY_OFFSET < k" by linarith
  then show ?thesis
  proof cases
    case 1
    then have "rd_u64 ?b SB_GEN_COPY_OFFSET = g0"
      using slice_torn_old [of k SB_GEN_COPY_OFFSET ?new old 8] assms(3) new(1) old(2) by (simp add: rd_u64_def)
    then have g: "g0 \<noteq> 0" "rd_u64 ?b 8 = g0" using v by simp_all
    have "k \<le> 16"
    proof (rule ccontr)
      assume "\<not> k \<le> 16"
      then have "rd_u64 ?b 8 = sb_gen s"
        using slice_torn_new [of 8 8 k ?new old] assms(3) new(1,5) by (simp add: rd_u64_def)
      then show False using g old(3) by simp
    qed
    moreover have "slice ?new 0 8 = slice old 0 8" using old(4) g(1) new(6) by simp
    ultimately have "?b = old" using g(2) by (intro torn_head) (simp_all add: new(1) old(1) g0_def)
    then show ?thesis by simp
  next
    case 2
    then have "slice ?b 0 SB_PAYLOAD_SIZE = slice (encode_payload s (replicate BLOCK_SIZE 0)) 0 SB_PAYLOAD_SIZE"
      using slice_torn_new [of 0 SB_PAYLOAD_SIZE k ?new old] assms(3) new(1,2)
      by (simp add: SB_GEN_COPY_OFFSET_def SB_PAYLOAD_SIZE_def)
    then have "decode_payload ?b = Ok s"
      by (intro payload_round_trip [OF s(1)]) (simp_all add: SB_PAYLOAD_SIZE_def BLOCK_SIZE_def)
    then show ?thesis using v(1) Some by simp
  qed
qed simp


text \<open>
  C35. A superblock written into a slot through any transform that opens what it sealed, on any device that keeps
  its contract, is read back and validated as that superblock.
\<close>
theorem slot_write_read:
  assumes "block_device E valid content" "block_transform E" "sb_for hdr s"
    and "valid w" "slot < dev_total E w" "write_slot E slot s w = (Ok (), w')" "dev_read E slot w' = (Ok d, w'')"
  shows "read_slot E slot hdr w' = (Some s, w'')"
proof -
  have w: "dev_write E slot (slot_image E slot s) w = (Ok (), w')" using assms(6) by (simp add: write_slot_image)
  have v: "valid w'" "dev_total E w' = dev_total E w"
    using block_device.write_valid [OF assms(1,4) w] by simp_all
  have "content w' slot = slot_image E slot s" by (rule block_device.write_ok [OF assms(1,4) w assms(5)])
  then have "d = slot_image E slot s" using block_device.read_ok [OF assms(1) v(1) assms(7)] by simp
  then show ?thesis using block_transform.slot_image_valid [OF assms(2,3)] by (simp add: read_slot_def assms(7))
qed

definition demo_sb :: superblock where
  "demo_sb = \<lparr>sb_gen = 1, sb_total_blocks = 64, inode_map_root = \<lparr>block = 4, gen = 1, tag = replicate 16 0\<rparr>,
     inode_map_height = 0, next_inode = 10, inode_count = 1, block_count = 2, commit_time = 0,
     sb_uuid = replicate 16 7\<rparr>"

lemma demo_sb_for: "sb_for demo_header demo_sb"
  by (simp add: sb_for_def demo_sb_def demo_header_def sb_ok_def ptr_ok_def)

lemma mem_env_identity: "identity_env mem_env"
  by (simp add: identity_env_def)


definition demo_disk :: mem_disk where
  "demo_disk = \<lparr>mdata = replicate (64 * BLOCK_SIZE) 0, mtime_now = 0\<rparr>"

lemma demo_disk_facts: "mem_valid demo_disk" "mem_total demo_disk = 64"
  by (simp_all add: mem_valid_def demo_disk_def mem_total_def BLOCK_SIZE_def)

lemma demo_write:
  "write_slot mem_env SB_SLOT_A demo_sb demo_disk
     = (Ok (), demo_disk\<lparr>mdata := splice (mdata demo_disk) BLOCK_SIZE (slot_image mem_env SB_SLOT_A demo_sb)\<rparr>)"
proof -
  have "length (slot_image mem_env SB_SLOT_A demo_sb) = BLOCK_SIZE"
    using identity_slot_image(1) [OF mem_env_identity] demo_sb_for by (simp add: sb_for_def)
  moreover have "mem_off SB_SLOT_A = BLOCK_SIZE" by (simp add: mem_off_def SB_SLOT_A_def BLOCK_SIZE_def)
  ultimately show ?thesis by (simp add: write_slot_image mem_write_def demo_disk_def)
qed

theorem slot_write_read_witness:
  "\<exists>w'. write_slot mem_env SB_SLOT_A demo_sb demo_disk = (Ok (), w')
     \<and> read_slot mem_env SB_SLOT_A demo_header w' = (Some demo_sb, w')"
proof -
  let ?w = "demo_disk\<lparr>mdata := splice (mdata demo_disk) BLOCK_SIZE (slot_image mem_env SB_SLOT_A demo_sb)\<rparr>"
  have l: "length (slot_image mem_env SB_SLOT_A demo_sb) = BLOCK_SIZE"
    using identity_slot_image(1) [OF mem_env_identity] demo_sb_for by (simp add: sb_for_def)
  have "mem_off SB_SLOT_A = BLOCK_SIZE" by (simp add: mem_off_def SB_SLOT_A_def BLOCK_SIZE_def)
  then have "dev_read mem_env SB_SLOT_A ?w = (Ok (slice (mdata ?w) BLOCK_SIZE BLOCK_SIZE), ?w)"
    using l by (simp add: mem_read_def demo_disk_def)
  from slot_write_read [OF memdisk.block_device_axioms memdisk.block_transform_axioms demo_sb_for demo_disk_facts(1) _ demo_write this]
  show ?thesis using demo_write demo_disk_facts(2) by (simp add: SB_SLOT_A_def)
qed

end
