(* ===== verification/Rfs_Space.thy ===== *)
theory Rfs_Space
  imports Rfs_Device
begin

text \<open>
  Space management (\<^verbatim>\<open>fs/rfs2/src/space.rs\<close>): the in-memory bitmap and the mark phase of the
  mount-time mark-and-sweep.  The packed words are kept as they are; \<open>bm_mem\<close> is the set a bitmap stands
  for, and the lemmas relate every operation to it.  The recursion of the mark phase runs on the height of the
  radix trees, so it ends on every disk; its state is the device, the bitmap and the counter of newly marked
  blocks.
\<close>

section \<open>Bitmap\<close>

record bitmap =
  bm_words :: "u64 list"
  bm_nbits :: u64

definition bm_new :: "u64 \<Rightarrow> bitmap" where
  "bm_new n = \<lparr>bm_words = replicate ((unat n + 63) div 64) 0, bm_nbits = n\<rparr>"

definition bm_mask :: "u64 \<Rightarrow> u64" where
  "bm_mask i = push_bit (unat (i mod 64)) 1"

text \<open>An index outside the word vector is a panic, as in \<^verbatim>\<open>self.words[..]\<close>.\<close>

definition bm_get :: "bitmap \<Rightarrow> u64 \<Rightarrow> ('e, bool) res" where
  "bm_get bm i = (if unat (i div 64) < length (bm_words bm)
     then Ok (bm_words bm ! unat (i div 64) AND bm_mask i \<noteq> 0) else Panic)"

definition bm_set :: "bitmap \<Rightarrow> u64 \<Rightarrow> ('e, bool \<times> bitmap) res" where
  "bm_set bm i = (if unat (i div 64) < length (bm_words bm)
     then let w = bm_words bm ! unat (i div 64) in
          Ok (w AND bm_mask i \<noteq> 0, bm\<lparr>bm_words := (bm_words bm)[unat (i div 64) := w OR bm_mask i]\<rparr>)
     else Panic)"

definition bm_clear :: "bitmap \<Rightarrow> u64 \<Rightarrow> ('e, bitmap) res" where
  "bm_clear bm i = (if unat (i div 64) < length (bm_words bm)
     then Ok (bm\<lparr>bm_words := (bm_words bm)[unat (i div 64) := bm_words bm ! unat (i div 64) AND NOT (bm_mask i)]\<rparr>)
     else Panic)"

definition count_ones :: "u64 \<Rightarrow> nat" where
  "count_ones w = length (filter (bit w) [0..<64])"

definition bm_count :: "bitmap \<Rightarrow> u64" where
  "bm_count bm = (\<Sum>w\<leftarrow>bm_words bm. of_nat (count_ones w))"

definition bm_indices :: "bitmap \<Rightarrow> u64 list" where
  "bm_indices bm = filter (\<lambda>i. bm_get bm i = (Ok True :: (unit, bool) res)) (map of_nat [0..<unat (bm_nbits bm)])"

definition bm_mem :: "bitmap \<Rightarrow> u64 set" where
  "bm_mem bm = {i. unat i div 64 < length (bm_words bm) \<and> bit (bm_words bm ! (unat i div 64)) (unat i mod 64)}"

definition bm_covers :: "bitmap \<Rightarrow> u64 \<Rightarrow> bool" where
  "bm_covers bm n \<longleftrightarrow> length (bm_words bm) = (unat n + 63) div 64"

lemma unat_div64: "unat (i div 64 :: u64) = unat i div 64" "unat (i mod 64 :: u64) = unat i mod 64"
  by (simp_all add: unat_div unat_mod)

lemma bm_mask_bit: "bit (bm_mask i) k \<longleftrightarrow> k = unat i mod 64"
proof -
  have "unat i mod 64 < 64" by simp
  then show ?thesis by (auto simp: bm_mask_def unat_div64 bit_exp_iff possible_bit_word)
qed

lemma same_bit:
  assumes "unat x div 64 = unat (i :: u64) div 64"
  shows "unat x mod 64 = unat i mod 64 \<longleftrightarrow> x = i"
proof
  assume "unat x mod 64 = unat i mod 64"
  then have "unat x = unat i" using assms by (metis div_mult_mod_eq)
  then show "x = i" by (simp add: word_unat_eq_iff)
qed simp

lemma and_mask_iff: "w AND bm_mask i \<noteq> 0 \<longleftrightarrow> bit w (unat i mod 64)"
proof -
  have "w AND bm_mask i \<noteq> 0 \<longleftrightarrow> (\<exists>k. bit (w AND bm_mask i) k)"
    using bit_imp_le_length [of "w AND bm_mask i"] by (auto simp: bit_eq_iff)
  also have "\<dots> \<longleftrightarrow> bit w (unat i mod 64)" by (auto simp: bit_and_iff bm_mask_bit)
  finally show ?thesis .
qed

lemma covers_index: "bm_covers bm n \<Longrightarrow> i < n \<Longrightarrow> unat i div 64 < length (bm_words bm)"
  by (simp add: bm_covers_def word_less_nat_alt)

lemma bm_get_mem [bits_simps]:
  "unat i div 64 < length (bm_words bm) \<Longrightarrow> bm_get bm i = Ok (i \<in> bm_mem bm)"
  by (simp add: bm_get_def unat_div64 and_mask_iff bm_mem_def)

lemma bm_set_Ok:
  assumes "unat i div 64 < length (bm_words bm)"
  obtains bm' where "bm_set bm i = Ok (i \<in> bm_mem bm, bm')" "bm_mem bm' = insert i (bm_mem bm)"
    "length (bm_words bm') = length (bm_words bm)" "bm_nbits bm' = bm_nbits bm"
proof -
  let ?j = "unat i div 64" and ?k = "unat i mod 64"
  let ?bm = "bm\<lparr>bm_words := (bm_words bm)[?j := bm_words bm ! ?j OR bm_mask i]\<rparr>"
  have s: "bm_set bm i = Ok (i \<in> bm_mem bm, ?bm)"
    using assms by (simp add: bm_set_def unat_div64 and_mask_iff bm_mem_def Let_def)
  have "x \<in> bm_mem ?bm \<longleftrightarrow> x \<in> insert i (bm_mem bm)" for x
  proof (cases "unat x div 64 = ?j")
    case True
    then show ?thesis using True assms by (auto simp: bm_mem_def bit_or_iff bm_mask_bit same_bit)
  next
    case False
    then show ?thesis by (auto simp: bm_mem_def)
  qed
  then have "bm_mem ?bm = insert i (bm_mem bm)" by blast
  then show ?thesis by (intro that [OF s]) simp_all
qed

lemma bm_clear_Ok:
  assumes "unat i div 64 < length (bm_words bm)"
  obtains bm' where "bm_clear bm i = Ok bm'" "bm_mem bm' = bm_mem bm - {i}"
    "length (bm_words bm') = length (bm_words bm)" "bm_nbits bm' = bm_nbits bm"
proof -
  let ?j = "unat i div 64" and ?k = "unat i mod 64"
  let ?bm = "bm\<lparr>bm_words := (bm_words bm)[?j := bm_words bm ! ?j AND NOT (bm_mask i)]\<rparr>"
  have s: "bm_clear bm i = Ok ?bm" using assms by (simp add: bm_clear_def unat_div64)
  have "x \<in> bm_mem ?bm \<longleftrightarrow> x \<in> bm_mem bm - {i}" for x
  proof (cases "unat x div 64 = ?j")
    case True
    then show ?thesis using True assms
      by (auto simp: bm_mem_def bit_and_iff bit_not_iff bm_mask_bit same_bit dest: bit_imp_le_length)
  next
    case False
    then show ?thesis by (auto simp: bm_mem_def)
  qed
  then have "bm_mem ?bm = bm_mem bm - {i}" by blast
  then show ?thesis by (intro that [OF s]) simp_all
qed

lemma bm_new_mem [simp]: "bm_mem (bm_new n) = {}" "bm_covers (bm_new n) n" "bm_nbits (bm_new n) = n"
  by (auto simp: bm_mem_def bm_new_def bm_covers_def)

lemma count_ones_card: "count_ones w = card {k. k < 64 \<and> bit w k}"
proof -
  have "count_ones w = card (set (filter (bit w) [0..<64]))"
    unfolding count_ones_def by (rule distinct_card [symmetric]) simp
  also have "set (filter (bit w) [0..<64]) = {k. k < 64 \<and> bit w k}" by auto
  finally show ?thesis .
qed

text \<open>\<^verbatim>\<open>count\<close> is the size of the set.\<close>

lemma card_words:
  "card {p. fst p < length ws \<and> snd p < 64 \<and> bit (ws ! fst p :: u64) (snd p)} = (\<Sum>w\<leftarrow>ws. count_ones w)"
proof (induction ws rule: rev_induct)
  case (snoc w ws)
  let ?P = "\<lambda>ws. {p. fst p < length ws \<and> snd p < (64 :: nat) \<and> bit (ws ! fst p :: u64) (snd p)}"
  have fin: "finite (?P ws)" for ws
    by (rule finite_subset [of _ "{..<length ws} \<times> {..<64}"]) auto
  have "?P (ws @ [w]) = ?P ws \<union> Pair (length ws) ` {k. k < 64 \<and> bit w k}"
    by (auto simp: nth_append less_Suc_eq)
  moreover have "card (?P ws \<union> Pair (length ws) ` {k. k < 64 \<and> bit w k})
      = card (?P ws) + card (Pair (length ws) ` {k. k < 64 \<and> bit w k})"
    using fin by (intro card_Un_disjoint) auto
  moreover have "card (Pair (length ws) ` {k. k < 64 \<and> bit w k}) = card {k. k < 64 \<and> bit w k}"
    by (intro card_image inj_onI) simp
  ultimately show ?case using snoc by (simp add: count_ones_card)
qed simp

lemma bm_mem_image:
  assumes "64 * length (bm_words bm) \<le> 2 ^ 64"
  shows "card (bm_mem bm) = (\<Sum>w\<leftarrow>bm_words bm. count_ones w)"
proof -
  let ?Q = "{p. fst p < length (bm_words bm) \<and> snd p < 64 \<and> bit (bm_words bm ! fst p) (snd p)}"
  have "bij_betw (\<lambda>i. (unat i div 64, unat i mod 64)) (bm_mem bm) ?Q"
  proof (rule bij_betw_byWitness [of _ "\<lambda>p. of_nat (64 * fst p + snd p)"])
    show "\<forall>i\<in>bm_mem bm. of_nat (64 * fst (unat i div 64, unat i mod 64) + snd (unat i div 64, unat i mod 64)) = i"
      by simp
    have u: "unat (of_nat (64 * fst p + snd p) :: u64) = 64 * fst p + snd p" if "p \<in> ?Q" for p
    proof -
      have "fst p < length (bm_words bm)" "snd p < 64" using that by simp_all
      then have "64 * fst p + snd p < 64 * length (bm_words bm)" by simp
      then have "64 * fst p + snd p < 2 ^ LENGTH(64)" using assms by simp
      then show ?thesis by (subst unat_of_nat) (rule mod_less)
    qed
    show "\<forall>p\<in>?Q. (unat (of_nat (64 * fst p + snd p) :: u64) div 64, unat (of_nat (64 * fst p + snd p) :: u64) mod 64) = p"
    proof
      fix p assume p: "p \<in> ?Q"
      then show "(unat (of_nat (64 * fst p + snd p) :: u64) div 64, unat (of_nat (64 * fst p + snd p) :: u64) mod 64) = p"
        unfolding u [OF p] by (cases p) simp
    qed
    show "(\<lambda>i. (unat i div 64, unat i mod 64)) ` bm_mem bm \<subseteq> ?Q" by (auto simp: bm_mem_def)
    show "(\<lambda>p. of_nat (64 * fst p + snd p)) ` ?Q \<subseteq> bm_mem bm"
    proof
      fix i :: u64 assume "i \<in> (\<lambda>p. of_nat (64 * fst p + snd p)) ` ?Q"
      then obtain p where p: "p \<in> ?Q" "i = of_nat (64 * fst p + snd p)" by blast
      then have "unat i = 64 * fst p + snd p" using u by simp
      then show "i \<in> bm_mem bm" using p(1) by (auto simp: bm_mem_def)
    qed
  qed
  then have "card (bm_mem bm) = card ?Q" by (rule bij_betw_same_card)
  then show ?thesis by (simp add: card_words)
qed

lemma bm_count_card:
  assumes "bm_covers bm n" "unat n < 2 ^ 63"
  shows "bm_count bm = of_nat (card (bm_mem bm))"
proof -
  have "64 * length (bm_words bm) \<le> 2 ^ 64" using assms by (simp add: bm_covers_def)
  moreover have "(\<Sum>w\<leftarrow>ws. of_nat (count_ones w)) = (of_nat (\<Sum>w\<leftarrow>ws. count_ones w) :: u64)" for ws
    by (induction ws) simp_all
  ultimately show ?thesis by (simp add: bm_count_def bm_mem_image)
qed

section \<open>The mark phase\<close>

definition ptr_at :: "bytes \<Rightarrow> nat \<Rightarrow> block_ptr" where
  "ptr_at buf idx = ptr_from_bytes (slice buf (idx * BLOCK_PTR_SIZE) BLOCK_PTR_SIZE)"

record 'w marker =
  m_dev :: 'w
  m_bm :: bitmap
  m_count :: u64

definition devM :: "('w, 'e, 'a) sm \<Rightarrow> ('w marker, 'e, 'a) sm" where
  "devM m s = (let (r, w) = m (m_dev s) in (r, s\<lparr>m_dev := w\<rparr>))"

definition setM :: "u64 \<Rightarrow> ('w marker, rfs_error, bool) sm" where
  "setM b s = (case bm_set (m_bm s) b of
     Ok (prev, bm) \<Rightarrow> (Ok prev, s\<lparr>m_bm := bm\<rparr>)
   | Err e \<Rightarrow> (Err e, s)
   | Panic \<Rightarrow> (Panic, s))"

text \<open>The part \<^verbatim>\<open>mark_imap\<close> and \<^verbatim>\<open>mark_bmap\<close> have in common: skip a null pointer, mark the block
  (an already marked one ends the visit), count it and read it.\<close>

definition mark_visit :: "'w env \<Rightarrow> block_ptr \<Rightarrow> (bytes \<Rightarrow> ('w marker, rfs_error, unit) sm) \<Rightarrow> ('w marker, rfs_error, unit) sm" where
  "mark_visit E ptr k =
     (if is_null ptr then retS ()
      else bindS (setM (block ptr)) (\<lambda>prev.
        if prev then retS ()
        else bindS (modS (\<lambda>s. s\<lparr>m_count := m_count s + 1\<rparr>)) (\<lambda>_.
             bindS (devM (read_ptr E ptr)) k)))"

primrec mark_bmap :: "nat \<Rightarrow> 'w env \<Rightarrow> block_ptr \<Rightarrow> ('w marker, rfs_error, unit) sm" where
  "mark_bmap 0 E ptr = mark_visit E ptr (\<lambda>buf. retS ())"
| "mark_bmap (Suc h) E ptr = mark_visit E ptr (\<lambda>buf. forS [0..<FANOUT] (\<lambda>i. mark_bmap h E (ptr_at buf i)))"

definition inode_at :: "bytes \<Rightarrow> nat \<Rightarrow> inode" where
  "inode_at buf slot = inode_decode (slice buf (slot * INODE_SIZE) INODE_SIZE)"

primrec mark_imap :: "nat \<Rightarrow> 'w env \<Rightarrow> block_ptr \<Rightarrow> ('w marker, rfs_error, unit) sm" where
  "mark_imap 0 E ptr = mark_visit E ptr (\<lambda>buf. forS [0..<INODES_PER_LEAF] (\<lambda>slot.
     let ino = inode_at buf slot in
     whenS (is_used ino \<and> \<not> is_fast_symlink ino) (mark_bmap (unat (bmap_height ino)) E (bmap_root ino))))"
| "mark_imap (Suc l) E ptr = mark_visit E ptr (\<lambda>buf. forS [0..<FANOUT] (\<lambda>i. mark_imap l E (ptr_at buf i)))"

definition mark_tree :: "'w env \<Rightarrow> block_ptr \<Rightarrow> u64 \<Rightarrow> bitmap \<Rightarrow> 'w \<Rightarrow> (rfs_error, u64) res \<times> 'w \<times> bitmap" where
  "mark_tree E root height bm w =
     (let (r, s) = mark_imap (unat height) E root \<lparr>m_dev = w, m_bm = bm, m_count = 0\<rparr>
      in (res_map (\<lambda>_. m_count s) r, m_dev s, m_bm s))"

section \<open>What is reachable\<close>

text \<open>A node of the two radix trees as the walk meets it: an inode-map node at a level, or a block-map node (a
  data block at height 0).  \<open>kids\<close> are the pointers in its block, in the order of the loops.\<close>

datatype node = Imap nat block_ptr | Bmap nat block_ptr

fun nptr :: "node \<Rightarrow> block_ptr" where
  "nptr (Imap l p) = p"
| "nptr (Bmap h p) = p"

fun nrank :: "node \<Rightarrow> nat" where
  "nrank (Imap l p) = 256 + l"
| "nrank (Bmap h p) = h"

fun kids :: "bytes \<Rightarrow> node \<Rightarrow> node list" where
  "kids buf (Bmap 0 p) = []"
| "kids buf (Bmap (Suc h) p) = map (\<lambda>i. Bmap h (ptr_at buf i)) [0..<FANOUT]"
| "kids buf (Imap 0 p) = map (\<lambda>slot. let ino = inode_at buf slot in
     if is_used ino \<and> \<not> is_fast_symlink ino then Bmap (unat (bmap_height ino)) (bmap_root ino) else Bmap 0 ptr_null)
     [0..<INODES_PER_LEAF]"
| "kids buf (Imap (Suc l) p) = map (\<lambda>i. Imap l (ptr_at buf i)) [0..<FANOUT]"

fun mark_node :: "'w env \<Rightarrow> node \<Rightarrow> ('w marker, rfs_error, unit) sm" where
  "mark_node E (Imap l p) = mark_imap l E p"
| "mark_node E (Bmap h p) = mark_bmap h E p"

text \<open>The plaintext a pointer stands for on a disk with the given contents.\<close>

definition opened :: "'w env \<Rightarrow> (u64 \<Rightarrow> bytes) \<Rightarrow> block_ptr \<Rightarrow> (rfs_error, bytes) res" where
  "opened E c p = decrypt_block E (block p) (gen p) (dyn_aad (block p) (gen p)) (tag p) (c (block p))"

inductive reach :: "'w env \<Rightarrow> (u64 \<Rightarrow> bytes) \<Rightarrow> node \<Rightarrow> node \<Rightarrow> bool" for E c where
  reach_self: "\<not> is_null (nptr n) \<Longrightarrow> reach E c n n"
| reach_down: "\<not> is_null (nptr n) \<Longrightarrow> opened E c (nptr n) = Ok buf \<Longrightarrow> k \<in> set (kids buf n) \<Longrightarrow> reach E c k m
    \<Longrightarrow> reach E c n m"

lemma forS_map: "forS (map f xs) g = forS xs (\<lambda>x. g (f x))"
  by (induction xs) simp_all

lemma mark_visit_null: "is_null p \<Longrightarrow> mark_visit E p k = retS ()"
  by (simp add: mark_visit_def)

lemma mark_node_eq: "mark_node E n = mark_visit E (nptr n) (\<lambda>buf. forS (kids buf n) (mark_node E))"
proof (cases n)
  case (Imap l p)
  then show ?thesis
    by (cases l) (simp_all add: forS_map Let_def whenS_def mark_visit_null if_distrib [of "mark_node E"] cong: if_cong)
next
  case (Bmap h p)
  then show ?thesis by (cases h) (simp_all add: forS_map)
qed

lemma kids_rank: "k \<in> set (kids buf n) \<Longrightarrow> nrank k < nrank n"
proof -
  have h: "unat (x :: u8) < 256" for x using unsigned_less [of x, where 'a = nat] by simp
  show "k \<in> set (kids buf n) \<Longrightarrow> nrank k < nrank n"
  proof (cases n)
    case (Imap l p)
    then show "k \<in> set (kids buf n) \<Longrightarrow> nrank k < nrank n"
      using h by (cases l) (auto simp: Let_def trans_less_add1 split: if_splits)
  next
    case (Bmap h p)
    then show "k \<in> set (kids buf n) \<Longrightarrow> nrank k < nrank n" by (cases h) auto
  qed
qed

lemma reach_rank: "reach E c n m \<Longrightarrow> nrank m \<le> nrank n"
  by (induction rule: reach.induct) (auto dest: kids_rank)

lemma reach_trans: "reach E c n m \<Longrightarrow> reach E c m k \<Longrightarrow> reach E c n k"
  by (induction rule: reach.induct) (auto intro: reach_down)

lemma reach_kid:
  "reach E c r n \<Longrightarrow> opened E c (nptr n) = Ok buf \<Longrightarrow> k \<in> set (kids buf n) \<Longrightarrow> \<not> is_null (nptr k) \<Longrightarrow> reach E c r k"
proof (induction rule: reach.induct)
  case (reach_self n)
  then show ?case by (auto intro: reach.intros)
qed (auto intro: reach_down)

lemma reach_not_null: "reach E c n m \<Longrightarrow> \<not> is_null (nptr m) \<and> \<not> is_null (nptr n)"
  by (induction rule: reach.induct) auto

section \<open>Soundness and completeness of the mark phase\<close>

text \<open>All the blocks below a node are in \<open>M\<close>; and every marked node up to rank \<open>r\<close> is finished in that sense.\<close>

definition finished :: "'w env \<Rightarrow> (u64 \<Rightarrow> bytes) \<Rightarrow> u64 set \<Rightarrow> node \<Rightarrow> bool" where
  "finished E c M n \<longleftrightarrow> (\<forall>m. reach E c n m \<longrightarrow> block (nptr m) \<in> M)"

definition settled :: "'w env \<Rightarrow> (u64 \<Rightarrow> bytes) \<Rightarrow> node \<Rightarrow> nat \<Rightarrow> u64 set \<Rightarrow> bool" where
  "settled E c root r M \<longleftrightarrow> (\<forall>m. reach E c root m \<longrightarrow> nrank m \<le> r \<longrightarrow> block (nptr m) \<in> M \<longrightarrow> finished E c M m)"

text \<open>Every block is referenced in one role only: the two trees of one superblock are trees.\<close>

definition unshared :: "'w env \<Rightarrow> (u64 \<Rightarrow> bytes) \<Rightarrow> node \<Rightarrow> bool" where
  "unshared E c root \<longleftrightarrow>
     (\<forall>m m'. reach E c root m \<longrightarrow> reach E c root m' \<longrightarrow> block (nptr m) = block (nptr m') \<longrightarrow> m = m')"

definition below :: "'w env \<Rightarrow> (u64 \<Rightarrow> bytes) \<Rightarrow> node \<Rightarrow> u64 set" where
  "below E c n = (\<lambda>m. block (nptr m)) ` {m. reach E c n m}"

text \<open>What a visit of \<open>n\<close> does to the marker state, on a disk with contents \<open>c\<close>.\<close>

definition marked :: "'w env \<Rightarrow> (u64 \<Rightarrow> bytes) \<Rightarrow> node \<Rightarrow> node list \<Rightarrow> 'w marker \<Rightarrow> 'w marker \<Rightarrow> bool" where
  "marked E c root ns s s' \<longleftrightarrow>
     (let M = bm_mem (m_bm s); M' = bm_mem (m_bm s') in
      M \<subseteq> M' \<and> M' \<subseteq> M \<union> (\<Union>n\<in>set ns. below E c n)
      \<and> (\<forall>n\<in>set ns. \<not> is_null (nptr n) \<longrightarrow> block (nptr n) \<in> M')
      \<and> m_count s' = m_count s + of_nat (card (M' - M))
      \<and> length (bm_words (m_bm s')) = length (bm_words (m_bm s)) \<and> bm_nbits (m_bm s') = bm_nbits (m_bm s)
      \<and> (\<forall>r. unshared E c root \<longrightarrow> (\<forall>n\<in>set ns. nrank n \<le> r \<and> (is_null (nptr n) \<or> reach E c root n))
            \<longrightarrow> settled E c root r M \<longrightarrow> settled E c root r M'))"

lemma finished_mono: "finished E c M n \<Longrightarrow> M \<subseteq> M' \<Longrightarrow> finished E c M' n"
  by (auto simp: finished_def)

lemma below_kid:
  "opened E c (nptr n) = Ok buf \<Longrightarrow> \<not> is_null (nptr n) \<Longrightarrow> k \<in> set (kids buf n) \<Longrightarrow> below E c k \<subseteq> below E c n"
  by (auto simp: below_def intro: reach_down)

lemma finished_step:
  assumes "block (nptr n) \<in> M" "opened E c (nptr n) = Ok buf"
    and "\<And>k. k \<in> set (kids buf n) \<Longrightarrow> \<not> is_null (nptr k) \<Longrightarrow> finished E c M k"
  shows "finished E c M n"
  unfolding finished_def
proof (intro allI impI)
  fix m assume "reach E c n m"
  then show "block (nptr m) \<in> M"
  proof (cases rule: reach.cases)
    case (reach_down buf' k)
    then have "k \<in> set (kids buf n)" using assms(2) by simp
    then show ?thesis using assms(3) reach_not_null [OF reach_down(4)] reach_down(4) by (auto simp: finished_def)
  qed (use assms(1) in auto)
qed

lemma finite_bm_mem [simp]: "finite (bm_mem bm)"
  by (rule finite_subset [OF subset_UNIV finite])

lemma setM_Ok:
  assumes "setM b s = (Ok prev, s')"
  shows "prev = (b \<in> bm_mem (m_bm s))" "bm_mem (m_bm s') = insert b (bm_mem (m_bm s))"
    "length (bm_words (m_bm s')) = length (bm_words (m_bm s))" "bm_nbits (m_bm s') = bm_nbits (m_bm s)"
    "m_dev s' = m_dev s" "m_count s' = m_count s"
proof -
  have i: "unat b div 64 < length (bm_words (m_bm s))"
  proof (rule ccontr)
    assume "\<not> unat b div 64 < length (bm_words (m_bm s))"
    then have "setM b s = (Panic, s)" by (simp add: setM_def bm_set_def unat_div64)
    then show False using assms by simp
  qed
  obtain bm' where b: "bm_set (m_bm s) b = (Ok (b \<in> bm_mem (m_bm s), bm') :: (rfs_error, _) res)"
    and m: "bm_mem bm' = insert b (bm_mem (m_bm s))" "length (bm_words bm') = length (bm_words (m_bm s))"
    "bm_nbits bm' = bm_nbits (m_bm s)" by (rule bm_set_Ok [OF i])
  have "(Ok (b \<in> bm_mem (m_bm s)), s\<lparr>m_bm := bm'\<rparr>) = (Ok prev, s')" using assms by (simp add: setM_def b)
  then have "prev = (b \<in> bm_mem (m_bm s))" "s' = s\<lparr>m_bm := bm'\<rparr>" by simp_all
  with m show "prev = (b \<in> bm_mem (m_bm s))" "bm_mem (m_bm s') = insert b (bm_mem (m_bm s))"
    "length (bm_words (m_bm s')) = length (bm_words (m_bm s))" "bm_nbits (m_bm s') = bm_nbits (m_bm s)"
    "m_dev s' = m_dev s" "m_count s' = m_count s" by simp_all
qed

definition entered :: "'w env \<Rightarrow> ('w \<Rightarrow> bool) \<Rightarrow> ('w \<Rightarrow> u64 \<Rightarrow> bytes) \<Rightarrow> block_ptr \<Rightarrow> bytes \<Rightarrow> 'w marker \<Rightarrow> 'w marker \<Rightarrow> bool" where
  "entered E valid content p buf s s1 \<longleftrightarrow>
     block p \<notin> bm_mem (m_bm s) \<and> bm_mem (m_bm s1) = insert (block p) (bm_mem (m_bm s))
     \<and> m_count s1 = m_count s + 1 \<and> length (bm_words (m_bm s1)) = length (bm_words (m_bm s))
     \<and> bm_nbits (m_bm s1) = bm_nbits (m_bm s)
     \<and> same_disk E valid content (m_dev s) (m_dev s1) \<and> opened E (content (m_dev s)) p = Ok buf"

context block_device
begin

lemma read_ptr_opened:
  assumes "valid w" "read_ptr E p w = (r, w')"
  shows "same_disk E valid content w w'" "r = Ok d \<Longrightarrow> opened E (content w) p = Ok d"
proof -
  obtain r0 w0 where d: "dev_read E (block p) w = (r0, w0)" by fastforce
  have w': "w' = w0" using assms(2) d by (auto simp: read_ptr_def bindS_def liftS_def split: res.splits)
  then show "same_disk E valid content w w'" using read_same [OF assms(1) d] by simp
  assume "r = Ok d"
  then obtain d0 where d0: "r0 = Ok d0"
    "decrypt_block E (block p) (gen p) (dyn_aad (block p) (gen p)) (tag p) d0 = Ok d"
    using assms(2) d by (auto simp: read_ptr_def bindS_def liftS_def split: res.splits)
  have "d0 = content w (block p)" using read_ok [OF assms(1) d [unfolded d0(1)]] by simp
  then show "opened E (content w) p = Ok d" using d0(2) by (simp add: opened_def)
qed

lemma mark_visit_Ok:
  assumes "valid (m_dev s)" "mark_visit E p k s = (Ok (), s')"
  obtains "s' = s" "is_null p"
  | "\<not> is_null p" "block p \<in> bm_mem (m_bm s)" "m_dev s' = m_dev s" "m_count s' = m_count s"
      "bm_mem (m_bm s') = bm_mem (m_bm s)" "length (bm_words (m_bm s')) = length (bm_words (m_bm s))"
      "bm_nbits (m_bm s') = bm_nbits (m_bm s)"
  | buf s1 where "\<not> is_null p" "entered E valid content p buf s s1" "k buf s1 = (Ok (), s')"
proof (cases "is_null p")
  case True
  then show ?thesis using assms(2) by (intro that(1)) (simp_all add: mark_visit_def retS_def)
next
  case False
  let ?k = "\<lambda>prev. if prev then retS () else bindS (modS (\<lambda>s. s\<lparr>m_count := m_count s + 1\<rparr>))
              (\<lambda>_. bindS (devM (read_ptr E p)) k)"
  have "bindS (setM (block p)) ?k s = (Ok (), s')" using assms(2) False by (simp add: mark_visit_def)
  then obtain prev t where set: "setM (block p) s = (Ok prev, t)" and rest: "?k prev t = (Ok (), s')"
    by (rule bindS_OkE)
  note f = setM_Ok [OF set]
  show ?thesis
  proof (cases prev)
    case True
    then have "s' = t" using rest by (simp add: retS_def)
    moreover have m: "block p \<in> bm_mem (m_bm s)" using True f(1) by simp
    ultimately show ?thesis using f(2-6) by (intro that(2) [OF False m]) (simp_all add: insert_absorb)
  next
    case unmarked: False
    then have "bindS (devM (read_ptr E p)) k (t\<lparr>m_count := m_count t + 1\<rparr>) = (Ok (), s')"
      using rest by (simp add: bindS_def modS_def)
    then obtain buf t1 where rd: "devM (read_ptr E p) (t\<lparr>m_count := m_count t + 1\<rparr>) = (Ok buf, t1)"
      and k: "k buf t1 = (Ok (), s')" by (rule bindS_OkE)
    obtain w1 where w1: "read_ptr E p (m_dev t) = (Ok buf, w1)" "t1 = t\<lparr>m_count := m_count t + 1, m_dev := w1\<rparr>"
      using rd by (cases "read_ptr E p (m_dev t)") (simp add: devM_def)
    have v: "valid (m_dev t)" using assms(1) f(5) by simp
    have "entered E valid content p buf s t1"
      using read_ptr_opened [OF v w1(1)] f unmarked w1(2) by (simp add: entered_def)
    from that(3) [OF False this k] show ?thesis .
  qed
qed

end

lemma card_chain:
  assumes "finite C" "A \<subseteq> B" "B \<subseteq> C"
  shows "card (C - A) = card (B - A) + card (C - B)"
proof -
  have "C - A = (B - A) \<union> (C - B)" using assms(2,3) by blast
  moreover have "card ((B - A) \<union> (C - B)) = card (B - A) + card (C - B)"
    using assms(1) finite_subset [OF assms(3,1)] by (intro card_Un_disjoint) auto
  ultimately show ?thesis by simp
qed

lemma marked_Nil: "marked E c root [] s s"
  by (simp add: marked_def)

lemma marked_Cons:
  assumes "marked E c root [n] s t" "marked E c root ns t s'"
  shows "marked E c root (n # ns) s s'"
proof -
  let ?M = "bm_mem (m_bm s)" and ?T = "bm_mem (m_bm t)" and ?N = "bm_mem (m_bm s')"
  have sub: "?M \<subseteq> ?T" "?T \<subseteq> ?N" using assms by (simp_all add: marked_def Let_def)
  have "card (?N - ?M) = card (?T - ?M) + card (?N - ?T)" by (rule card_chain) (use sub in simp_all)
  then have c: "m_count s' = m_count s + of_nat (card (?N - ?M))" using assms by (simp add: marked_def Let_def)
  have u: "?N \<subseteq> ?M \<union> (\<Union>n\<in>set (n # ns). below E c n)" using assms by (auto simp: marked_def Let_def)
  have k: "\<forall>k\<in>set (n # ns). \<not> is_null (nptr k) \<longrightarrow> block (nptr k) \<in> ?N"
    using assms sub by (auto simp: marked_def Let_def)
  show ?thesis using assms sub c u k unfolding marked_def Let_def by simp
qed

lemma marked_skip:
  assumes "bm_mem (m_bm s') = bm_mem (m_bm s)" "m_count s' = m_count s"
    and "length (bm_words (m_bm s')) = length (bm_words (m_bm s))" "bm_nbits (m_bm s') = bm_nbits (m_bm s)"
    and "is_null (nptr n) \<or> block (nptr n) \<in> bm_mem (m_bm s)"
  shows "marked E c root [n] s s'"
  using assms by (auto simp: marked_def)

lemma settled_enter:
  assumes "unshared E c root" "reach E c root n" "settled E c root r M" "nrank n \<le> r"
    and "opened E c (nptr n) = Ok buf"
  shows "settled E c root (nrank n - 1) (insert (block (nptr n)) M)"
  unfolding settled_def
proof (intro allI impI)
  fix m assume m: "reach E c root m" "nrank m \<le> nrank n - 1" "block (nptr m) \<in> insert (block (nptr n)) M"
  show "finished E c (insert (block (nptr n)) M) m"
  proof (cases "block (nptr m) = block (nptr n)")
    case True
    then have "m = n" using assms(1,2) m(1) by (simp add: unshared_def)
    with m(2) have "nrank n = 0" by simp
    then have "kids buf n = []" using kids_rank [of _ buf n] by (cases "kids buf n") auto
    then show ?thesis unfolding \<open>m = n\<close> by (intro finished_step [OF _ assms(5)]) simp_all
  next
    case False
    then have "finished E c M m" using m assms(3,4) by (auto simp: settled_def)
    then show ?thesis by (rule finished_mono) blast
  qed
qed

lemma settled_leave:
  assumes "unshared E c root" "reach E c root n" "settled E c root r M" "opened E c (nptr n) = Ok buf"
    and "settled E c root (nrank n - 1) M'" "insert (block (nptr n)) M \<subseteq> M'"
    and "M' \<subseteq> insert (block (nptr n)) M \<union> (\<Union>k\<in>set (kids buf n). below E c k)"
    and "\<forall>k\<in>set (kids buf n). \<not> is_null (nptr k) \<longrightarrow> block (nptr k) \<in> M'"
  shows "settled E c root r M'"
  unfolding settled_def
proof (intro allI impI)
  have kid: "reach E c root k" "nrank k \<le> nrank n - 1" if "k \<in> set (kids buf n)" "\<not> is_null (nptr k)" for k
    using reach_kid [OF assms(2,4) that] kids_rank [OF that(1)] by auto
  fix m assume m: "reach E c root m" "nrank m \<le> r" "block (nptr m) \<in> M'"
  consider "block (nptr m) \<in> M" | "block (nptr m) = block (nptr n)"
    | k where "k \<in> set (kids buf n)" "block (nptr m) \<in> below E c k" using assms(7) m(3) by blast
  then show "finished E c M' m"
  proof cases
    case 1
    then have "finished E c M m" using m assms(3) by (auto simp: settled_def)
    then show ?thesis using assms(6) by (auto intro: finished_mono)
  next
    case 2
    then have mn: "m = n" using assms(1,2) m(1) by (simp add: unshared_def)
    show ?thesis unfolding mn
    proof (rule finished_step [OF _ assms(4)])
      show "block (nptr n) \<in> M'" using assms(6) by blast
      fix k assume k: "k \<in> set (kids buf n)" "\<not> is_null (nptr k)"
      then show "finished E c M' k" using assms(5,8) kid [OF k] by (auto simp: settled_def)
    qed
  next
    case 3
    then obtain m' where m': "reach E c k m'" "block (nptr m) = block (nptr m')" by (auto simp: below_def)
    note nn = reach_not_null [OF m'(1)]
    have "reach E c root m'" using reach_trans [OF kid(1) m'(1)] 3(1) nn by blast
    then have "m = m'" using assms(1) m(1) m'(2) by (simp add: unshared_def)
    then have "nrank m \<le> nrank n - 1" using reach_rank [OF m'(1)] kid(2) [OF 3(1)] nn by auto
    then show ?thesis using assms(5) m by (auto simp: settled_def)
  qed
qed

lemma marked_enter:
  assumes "\<not> is_null (nptr n)" "entered E valid content (nptr n) buf s s1" "c = content (m_dev s)"
    and "marked E c root (kids buf n) s1 s'"
  shows "marked E c root [n] s s'"
proof -
  let ?b = "block (nptr n)" and ?M = "bm_mem (m_bm s)" and ?N = "bm_mem (m_bm s')"
  have e: "?b \<notin> ?M" "bm_mem (m_bm s1) = insert ?b ?M" "m_count s1 = m_count s + 1"
    "length (bm_words (m_bm s1)) = length (bm_words (m_bm s))" "bm_nbits (m_bm s1) = bm_nbits (m_bm s)"
    "opened E c (nptr n) = Ok buf"
    using assms(2,3) by (simp_all add: entered_def)
  have k: "insert ?b ?M \<subseteq> ?N" "?N \<subseteq> insert ?b ?M \<union> (\<Union>k\<in>set (kids buf n). below E c k)"
    "\<forall>k\<in>set (kids buf n). \<not> is_null (nptr k) \<longrightarrow> block (nptr k) \<in> ?N"
    "m_count s' = m_count s1 + of_nat (card (?N - insert ?b ?M))"
    "length (bm_words (m_bm s')) = length (bm_words (m_bm s))" "bm_nbits (m_bm s') = bm_nbits (m_bm s)"
    using assms(4) e by (simp_all add: marked_def Let_def)
  have b: "?b \<in> below E c n" using assms(1) by (auto simp: below_def intro: reach_self)
  have "(\<Union>k\<in>set (kids buf n). below E c k) \<subseteq> below E c n" using below_kid [OF e(6) assms(1)] by blast
  then have sub: "?N \<subseteq> ?M \<union> below E c n" using k(2) b by blast
  have "card (?N - ?M) = card (insert ?b ?M - ?M) + card (?N - insert ?b ?M)"
    by (rule card_chain) (use k(1) in auto)
  moreover have "card (insert ?b ?M - ?M) = 1" using e(1) by (simp add: insert_Diff_if)
  ultimately have cnt: "m_count s' = m_count s + of_nat (card (?N - ?M))" using k(4) e(3) by simp
  have "settled E c root r ?N"
    if r: "unshared E c root" "nrank n \<le> r" "reach E c root n" "settled E c root r ?M" for r
  proof (rule settled_leave [OF r(1,3,4) e(6) _ k(1,2,3)])
    have "\<forall>x\<in>set (kids buf n). nrank x \<le> nrank n - 1 \<and> (is_null (nptr x) \<or> reach E c root x)"
      using reach_kid [OF r(3) e(6)] kids_rank [of _ buf n] by fastforce
    then show "settled E c root (nrank n - 1) ?N"
      using assms(4) settled_enter [OF r(1,3,4,2) e(6)] r(1) e(2) unfolding marked_def Let_def by simp
  qed
  then show ?thesis using assms(1) k(1,5,6) sub cnt unfolding marked_def Let_def by simp
qed

context block_device
begin

lemma mark_list:
  assumes "forS ns (mark_node E) s = (Ok (), s')" "valid (m_dev s)" "content (m_dev s) = c"
    and "\<And>n t t'. n \<in> set ns \<Longrightarrow> valid (m_dev t) \<Longrightarrow> content (m_dev t) = c \<Longrightarrow> mark_node E n t = (Ok (), t')
          \<Longrightarrow> valid (m_dev t') \<and> content (m_dev t') = c \<and> marked E c root [n] t t'"
  shows "valid (m_dev s') \<and> content (m_dev s') = c \<and> marked E c root ns s s'"
  using assms
proof (induction ns arbitrary: s)
  case Nil
  then show ?case by (simp add: retS_def marked_Nil)
next
  case (Cons n ns)
  from Cons.prems(1) have "bindS (mark_node E n) (\<lambda>_. forS ns (mark_node E)) s = (Ok (), s')" by simp
  then obtain u t where t: "mark_node E n s = (Ok u, t)" "forS ns (mark_node E) t = (Ok (), s')"
    by (rule bindS_OkE)
  have h: "valid (m_dev t)" "content (m_dev t) = c" "marked E c root [n] s t"
    using Cons.prems(4) [of n s t] t(1) Cons.prems(2,3) by simp_all
  have "valid (m_dev s') \<and> content (m_dev s') = c \<and> marked E c root ns t s'"
  proof (rule Cons.IH [OF t(2) h(1,2)])
    fix x t1 t2
    assume a: "x \<in> set ns" "valid (m_dev t1)" "content (m_dev t1) = c" "mark_node E x t1 = (Ok (), t2)"
    show "valid (m_dev t2) \<and> content (m_dev t2) = c \<and> marked E c root [x] t1 t2"
      by (rule Cons.prems(4) [OF _ a(2-4)]) (use a(1) in simp)
  qed
  then show ?case using marked_Cons [OF h(3)] by simp
qed

lemma mark_node_marked:
  "mark_node E n s = (Ok (), s') \<Longrightarrow> valid (m_dev s) \<Longrightarrow> content (m_dev s) = c
    \<Longrightarrow> valid (m_dev s') \<and> content (m_dev s') = c \<and> marked E c root [n] s s'"
proof (induction "nrank n" arbitrary: n s s' rule: less_induct)
  case less
  have mv: "mark_visit E (nptr n) (\<lambda>buf. forS (kids buf n) (mark_node E)) s = (Ok (), s')"
    using less.prems(1) unfolding mark_node_eq [of E n] .
  show ?case
  proof (rule mark_visit_Ok [OF less.prems(2) mv])
    assume "s' = s" "is_null (nptr n)"
    then show ?thesis using less.prems(2,3) by (simp add: marked_skip)
  next
    assume "\<not> is_null (nptr n)" "block (nptr n) \<in> bm_mem (m_bm s)" "m_dev s' = m_dev s" "m_count s' = m_count s"
      "bm_mem (m_bm s') = bm_mem (m_bm s)" "length (bm_words (m_bm s')) = length (bm_words (m_bm s))"
      "bm_nbits (m_bm s') = bm_nbits (m_bm s)"
    then show ?thesis using less.prems(2,3) by (simp add: marked_skip)
  next
    fix buf s1 assume h: "\<not> is_null (nptr n)" "entered E valid content (nptr n) buf s s1"
      "forS (kids buf n) (mark_node E) s1 = (Ok (), s')"
    have s1: "valid (m_dev s1)" "content (m_dev s1) = c"
      using h(2) less.prems(3) by (simp_all add: entered_def same_disk_def)
    have "valid (m_dev s') \<and> content (m_dev s') = c \<and> marked E c root (kids buf n) s1 s'"
    proof (rule mark_list [OF h(3) s1])
      fix k t t'
      assume k: "k \<in> set (kids buf n)" "valid (m_dev t)" "content (m_dev t) = c" "mark_node E k t = (Ok (), t')"
      show "valid (m_dev t') \<and> content (m_dev t') = c \<and> marked E c root [k] t t'"
        by (rule less.hyps [OF kids_rank [OF k(1)] k(4,2,3)])
    qed
    then show ?thesis using marked_enter [OF h(1,2) less.prems(3) [symmetric]] by simp
  qed
qed

end

text \<open>
  C7. The mark phase of the mount computes exactly the blocks reachable from a superblock's inode-map root: on a
  disk whose reachable blocks each have one role, a walk from an empty bitmap that does not fail marks every
  reachable block and no other, returns their number, and leaves the disk as it was.  A block the walk misses
  would be handed out again by the allocator while the tree still refers to it.
\<close>
theorem mark_tree_exact:
  assumes "block_device E valid content" "valid w"
    and "unshared E (content w) (Imap (unat height) root)"
    and "mark_tree E root height (bm_new n) w = (Ok cnt, w', bm)"
  shows "bm_mem bm = below E (content w) (Imap (unat height) root)
    \<and> cnt = of_nat (card (bm_mem bm)) \<and> bm_covers bm n \<and> content w' = content w"
proof -
  let ?n = "Imap (unat height) root" and ?s = "\<lparr>m_dev = w, m_bm = bm_new n, m_count = 0\<rparr>"
  obtain r s' where m: "mark_node E ?n ?s = (r, s')" by fastforce
  then have r: "r = Ok ()" and w': "w' = m_dev s'" "bm = m_bm s'" "cnt = m_count s'"
    using assms(4) by (auto simp: mark_tree_def res_map_eq_Ok)
  have k: "content (m_dev s') = content w" "marked E (content w) ?n [?n] ?s s'"
    using block_device.mark_node_marked [OF assms(1) m [unfolded r], where root = "?n"] assms(2) by simp_all
  have sub: "bm_mem bm \<subseteq> below E (content w) ?n" "cnt = of_nat (card (bm_mem bm))"
    "is_null root \<or> block root \<in> bm_mem bm" "length (bm_words bm) = length (bm_words (bm_new n))"
    using k(2) by (auto simp: marked_def Let_def w')
  have "below E (content w) ?n \<subseteq> bm_mem bm"
  proof (cases "is_null root")
    case True
    then have "\<not> reach E (content w) ?n m" for m using reach_not_null by fastforce
    then show ?thesis by (auto simp: below_def)
  next
    case False
    then have root: "reach E (content w) ?n ?n" by (auto intro: reach_self)
    have "settled E (content w) ?n (nrank ?n) {}" by (simp add: settled_def)
    then have "settled E (content w) ?n (nrank ?n) (bm_mem bm)"
      using k(2) assms(3) root unfolding marked_def Let_def by (simp add: w')
    then have "finished E (content w) (bm_mem bm) ?n" using root sub(3) False by (auto simp: settled_def)
    then show ?thesis by (auto simp: finished_def below_def)
  qed
  then show ?thesis using sub k(1) w'(1) bm_new_mem(2) [of n] by (auto simp: bm_covers_def)
qed

section \<open>A concrete walk\<close>

definition demo_root :: block_ptr where
  "demo_root = \<lparr>block = 4, gen = 1, tag = replicate 16 0\<rparr>"

lemma zero_leaf_kids: "kids (replicate BLOCK_SIZE 0) (Imap 0 p) = map (\<lambda>_. Bmap 0 ptr_null) [0..<INODES_PER_LEAF]"
proof -
  have "inode_at (replicate BLOCK_SIZE 0) slot = inode_decode (replicate INODE_SIZE 0)"
    if "slot < INODES_PER_LEAF" for slot
    using that by (simp add: inode_at_def BLOCK_SIZE_def INODE_SIZE_def INODES_PER_LEAF_def min_def)
  moreover have "\<not> is_used (inode_decode (replicate INODE_SIZE 0))"
    using inode_decode_encode [OF inode_free_ok(1)] inode_free_ok(2) by (simp add: inode_free_encode)
  ultimately show ?thesis by (simp add: Let_def)
qed

lemma forS_idle: "(\<And>x. x \<in> set xs \<Longrightarrow> f x = retS ()) \<Longrightarrow> forS xs f = retS ()"
  by (induction xs) (simp_all add: bindS_def retS_def fun_eq_iff)

lemma demo_opened: "opened mem_env (mem_content demo_disk) demo_root = Ok (replicate BLOCK_SIZE 0)"
  by (simp add: opened_def demo_root_def identity_decrypt_def mem_content_def demo_disk_def mem_off_def TAG_SIZE_def)
    (simp add: BLOCK_SIZE_def)

lemma demo_leaf_reach: "reach mem_env (mem_content demo_disk) (Imap 0 demo_root) m \<longleftrightarrow> m = Imap 0 demo_root"
proof
  assume "reach mem_env (mem_content demo_disk) (Imap 0 demo_root) m"
  then show "m = Imap 0 demo_root"
  proof (cases rule: reach.cases)
    case (reach_down buf k)
    then have "k \<in> set (kids (replicate BLOCK_SIZE 0) (Imap 0 demo_root))" using demo_opened by simp
    then have "k = Bmap 0 ptr_null" unfolding zero_leaf_kids by auto
    then show ?thesis using reach_not_null [OF reach_down(4)] by simp
  qed simp
qed (auto intro!: reach_self simp: demo_root_def is_null_def)

lemma demo_unshared: "unshared mem_env (mem_content demo_disk) (Imap (unat (0 :: u64)) demo_root)"
  by (simp add: unshared_def demo_leaf_reach)

lemma demo_mark: "\<exists>w' bm. mark_tree mem_env demo_root 0 (bm_new 64) demo_disk = (Ok 1, w', bm)"
proof -
  let ?s = "\<lparr>m_dev = demo_disk, m_bm = bm_new 64, m_count = 0\<rparr>"
  have rd: "read_ptr mem_env demo_root demo_disk = (Ok (replicate BLOCK_SIZE 0), demo_disk)"
  proof -
    have "dev_read mem_env (block demo_root) demo_disk = (Ok (mem_content demo_disk 4), demo_disk)"
      by (simp add: mem_read_def demo_root_def demo_disk_def mem_off_def mem_content_def BLOCK_SIZE_def)
    then show ?thesis using demo_opened
      by (simp add: read_ptr_def bindS_def liftS_def opened_def) (simp add: demo_root_def)
  qed
  obtain bm where b: "setM (block demo_root) ?s = (Ok False, ?s\<lparr>m_bm := bm\<rparr>)"
    by (simp add: setM_def bm_set_def bm_new_def demo_root_def Let_def bm_mask_def)
  have "mark_node mem_env (Imap 0 demo_root) ?s = (Ok (), ?s\<lparr>m_bm := bm, m_count := 1\<rparr>)"
  proof -
    have "\<not> is_null demo_root" by (simp add: demo_root_def is_null_def)
    moreover have "forS (kids (replicate BLOCK_SIZE 0) (Imap 0 demo_root)) (mark_node mem_env) = retS ()"
      unfolding zero_leaf_kids by (rule forS_idle) (auto simp: mark_visit_null)
    ultimately show ?thesis
      using b rd by (subst mark_node_eq) (simp add: mark_visit_def bindS_def modS_def devM_def retS_def)
  qed
  then show ?thesis by (simp add: mark_tree_def)
qed

theorem mark_tree_exact_witness:
  "\<exists>w' bm. mark_tree mem_env demo_root 0 (bm_new 64) demo_disk = (Ok 1, w', bm) \<and> bm_mem bm = {4}"
proof -
  obtain w' bm where m: "mark_tree mem_env demo_root 0 (bm_new 64) demo_disk = (Ok 1, w', bm)" using demo_mark by blast
  from mark_tree_exact [OF memdisk.block_device_axioms demo_disk_facts(1) demo_unshared m]
  have "bm_mem bm = {4}" by (simp add: below_def demo_leaf_reach) (simp add: demo_root_def)
  with m show ?thesis by blast
qed

end
