(* ===== verification/Rfs_Dirent.thy ===== *)
theory Rfs_Dirent
  imports Rfs_Layout
begin

text \<open>
  Directory blocks (\<^verbatim>\<open>fs/rfs2/src/dirent.rs\<close>): a 4096-byte block is a chain of records whose
  \<^verbatim>\<open>rec_len\<close> fields partition it exactly.  Every function parses the whole chain first, and a block
  that is not such a partition is \<^verbatim>\<open>Error::Corrupt\<close>.  The blocks handed to these functions are
  always \<open>BLOCK_SIZE\<close> bytes long (the buffer a device read fills), which the theorems take as part of
  \<open>dir_wf\<close>.

  The abstraction of a well-formed block is the finite map \<open>dir_map\<close> from names to inode and file type;
  the locale \<open>name_table\<close> is the contract the filesystem relies on (\<open>find\<close>, \<open>insert\<close>, \<open>remove\<close> and
  \<open>retarget\<close> act on the map as lookup, update, deletion and update), and \<open>dirblock\<close> its
  interpretation on the code's own block operations.
\<close>

section \<open>Records and the parser\<close>

definition DIRENT_HDR :: nat where "DIRENT_HDR = 12"
definition NAME_MAX :: nat where "NAME_MAX = 255"
definition FT_REG :: u8 where "FT_REG = 1"
definition FT_DIR :: u8 where "FT_DIR = 2"
definition FT_SYMLINK :: u8 where "FT_SYMLINK = 3"

definition align4 :: "nat \<Rightarrow> nat" where
  "align4 n = (n + 3) div 4 * 4"

record dirent =
  d_offset :: nat
  d_inode :: u64
  rec_len :: nat
  file_type :: u8
  d_name :: bytes

text \<open>The record at \<open>off\<close> as the loop body of \<^verbatim>\<open>parse_block\<close> reads it, and its checks.\<close>

definition dirent_at :: "bytes \<Rightarrow> nat \<Rightarrow> dirent" where
  "dirent_at blk off = \<lparr>d_offset = off, d_inode = rd_u64 blk off, rec_len = unat (rd_u16 blk (off + 8)),
     file_type = blk ! (off + 11), d_name = slice blk (off + DIRENT_HDR) (unat (blk ! (off + 10)))\<rparr>"

definition dirent_bad :: "bytes \<Rightarrow> nat \<Rightarrow> bool" where
  "dirent_bad blk off \<longleftrightarrow>
     (let rl = unat (rd_u16 blk (off + 8)); name_len = unat (blk ! (off + 10)) in
      rl < DIRENT_HDR \<or> rl mod 4 \<noteq> 0 \<or> off + rl > BLOCK_SIZE \<or> DIRENT_HDR + name_len > rl
      \<or> (rd_u64 blk off \<noteq> 0 \<and> name_len = 0))"

function parse_from :: "bytes \<Rightarrow> nat \<Rightarrow> (rfs_error, dirent list) res" where
  "parse_from blk off =
     (if off < BLOCK_SIZE
      then if off + DIRENT_HDR > BLOCK_SIZE then Err Corrupt
           else if dirent_bad blk off then Err Corrupt
           else let d = dirent_at blk off in
                res_map (\<lambda>ds. d # ds) (parse_from blk (off + rec_len d))
      else if off \<noteq> BLOCK_SIZE then Err Corrupt else Ok [])"
  by pat_completeness auto
termination parse_from
  by (relation "measure (\<lambda>(_, off). BLOCK_SIZE - off)")
    (auto simp: dirent_bad_def dirent_at_def DIRENT_HDR_def Let_def)

declare parse_from.simps [simp del]

definition parse_block :: "bytes \<Rightarrow> (rfs_error, dirent list) res" where
  "parse_block blk = parse_from blk 0"

definition init_empty :: "bytes \<Rightarrow> bytes" where
  "init_empty blk = splice (replicate (length blk) 0) 8 (wr_u16 (of_nat BLOCK_SIZE))"

definition write_entry :: "bytes \<Rightarrow> nat \<Rightarrow> nat \<Rightarrow> u64 \<Rightarrow> u8 \<Rightarrow> bytes \<Rightarrow> bytes" where
  "write_entry blk off rl ino ftype name =
     (let b1 = splice blk off (wr_u64 ino);
          b2 = splice b1 (off + 8) (wr_u16 (of_nat rl));
          b3 = b2[off + 10 := of_nat (length name), off + 11 := ftype];
          b4 = splice b3 (off + DIRENT_HDR) name;
          used_end = off + DIRENT_HDR + length name;
          pad_end = off + min (align4 (DIRENT_HDR + length name)) rl
      in splice b4 used_end (replicate (pad_end - used_end) 0))"

definition live_named :: "bytes \<Rightarrow> dirent \<Rightarrow> bool" where
  "live_named name d \<longleftrightarrow> d_inode d \<noteq> 0 \<and> d_name d = name"

definition find_entry :: "bytes \<Rightarrow> bytes \<Rightarrow> (rfs_error, (nat \<times> u64 \<times> u8) option) res" where
  "find_entry blk name = res_map
     (\<lambda>ds. map_option (\<lambda>d. (d_offset d, d_inode d, file_type d)) (List.find (live_named name) ds))
     (parse_block blk)"

text \<open>The loop of \<^verbatim>\<open>insert\<close>: the first hole with room, or the first live record with enough slack.\<close>

fun insert_loop :: "bytes \<Rightarrow> u64 \<Rightarrow> u8 \<Rightarrow> bytes \<Rightarrow> nat \<Rightarrow> dirent list \<Rightarrow> bool \<times> bytes" where
  "insert_loop blk ino ftype name needed [] = (False, blk)"
| "insert_loop blk ino ftype name needed (d # ds) =
     (if d_inode d = 0 \<and> rec_len d \<ge> needed
      then (True, write_entry blk (d_offset d) (rec_len d) ino ftype name)
      else let used = align4 (DIRENT_HDR + length (d_name d)) in
           if d_inode d \<noteq> 0 \<and> rec_len d - used \<ge> needed
           then (True, write_entry (splice blk (d_offset d + 8) (wr_u16 (of_nat used)))
                          (d_offset d + used) (rec_len d - used) ino ftype name)
           else insert_loop blk ino ftype name needed ds)"

definition insert_entry :: "bytes \<Rightarrow> u64 \<Rightarrow> u8 \<Rightarrow> bytes \<Rightarrow> (rfs_error, bool \<times> bytes) res" where
  "insert_entry blk ino ftype name =
     (if name = [] \<or> length name > NAME_MAX then Err Invalid
      else res_map (insert_loop blk ino ftype name (align4 (DIRENT_HDR + length name))) (parse_block blk))"

text \<open>The loop of \<^verbatim>\<open>remove\<close>, with the record before the current one.\<close>

fun remove_loop :: "bytes \<Rightarrow> bytes \<Rightarrow> dirent option \<Rightarrow> dirent list \<Rightarrow> bool \<times> bytes" where
  "remove_loop blk name prev [] = (False, blk)"
| "remove_loop blk name prev (d # ds) =
     (if live_named name d
      then (True, case prev of
              Some p \<Rightarrow> splice blk (d_offset p + 8) (wr_u16 (of_nat (rec_len p + rec_len d)))
            | None \<Rightarrow> (splice blk (d_offset d) (wr_u64 0))[d_offset d + 10 := 0, d_offset d + 11 := 0])
      else remove_loop blk name (Some d) ds)"

definition remove_entry :: "bytes \<Rightarrow> bytes \<Rightarrow> (rfs_error, bool \<times> bytes) res" where
  "remove_entry blk name = res_map (remove_loop blk name None) (parse_block blk)"

definition retarget :: "bytes \<Rightarrow> bytes \<Rightarrow> u64 \<Rightarrow> (rfs_error, bool \<times> bytes) res" where
  "retarget blk name new_ino = res_map
     (\<lambda>ds. case List.find (live_named name) ds of
        None \<Rightarrow> (False, blk)
      | Some d \<Rightarrow> (True, splice blk (d_offset d) (wr_u64 new_ino)))
     (parse_block blk)"

definition only_dots :: "bytes \<Rightarrow> (rfs_error, bool) res" where
  "only_dots blk = res_map
     (list_all (\<lambda>d. d_inode d = 0 \<or> d_name d = [0x2E] \<or> d_name d = [0x2E, 0x2E]))
     (parse_block blk)"

section \<open>Chains\<close>

text \<open>\<open>chain blk off ds e\<close>: the records \<open>ds\<close> lie one after the other from \<open>off\<close> to \<open>e\<close>.\<close>

definition rec_at :: "bytes \<Rightarrow> nat \<Rightarrow> dirent \<Rightarrow> bool" where
  "rec_at blk off d \<longleftrightarrow> off + DIRENT_HDR \<le> BLOCK_SIZE \<and> \<not> dirent_bad blk off \<and> d = dirent_at blk off"

fun chain :: "bytes \<Rightarrow> nat \<Rightarrow> dirent list \<Rightarrow> nat \<Rightarrow> bool" where
  "chain blk off [] e \<longleftrightarrow> off = e"
| "chain blk off (d # ds) e \<longleftrightarrow> rec_at blk off d \<and> chain blk (off + rec_len d) ds e"

lemma rec_at_bounds:
  assumes "rec_at blk off d"
  shows "d_offset d = off" "DIRENT_HDR + length (d_name d) \<le> rec_len d" "off + rec_len d \<le> BLOCK_SIZE"
    "rec_len d mod 4 = 0"
  using assms by (auto simp: rec_at_def dirent_bad_def dirent_at_def Let_def)

lemma chain_le: "chain blk off ds e \<Longrightarrow> off \<le> e"
  by (induction ds arbitrary: off) (auto dest: le_trans [OF le_add1])

lemma parse_from_chain:
  "parse_from blk off = Ok ds \<longleftrightarrow> chain blk off ds BLOCK_SIZE"
proof (induction ds arbitrary: off)
  case Nil
  show ?case by (subst parse_from.simps) (auto simp: Let_def res_map_eq_Ok)
next
  case (Cons d ds)
  show ?case
  proof (cases "off < BLOCK_SIZE")
    case True
    then show ?thesis
      by (subst parse_from.simps) (auto simp: Let_def res_map_eq_Ok rec_at_def Cons.IH)
  next
    case False
    then have "\<not> rec_at blk off d" by (auto simp: rec_at_def DIRENT_HDR_def)
    with False show ?thesis by (subst parse_from.simps) auto
  qed
qed

lemma parse_block_chain: "parse_block blk = Ok ds \<longleftrightarrow> chain blk 0 ds BLOCK_SIZE"
  by (simp add: parse_block_def parse_from_chain)

lemma chain_append:
  "chain blk off (xs @ ys) e \<longleftrightarrow> (\<exists>m. chain blk off xs m \<and> chain blk m ys e)"
  by (induction xs arbitrary: off) auto

lemma rec_at_cong:
  assumes "rec_at blk off d" "slice blk' off (rec_len d) = slice blk off (rec_len d)"
    and "length blk = BLOCK_SIZE" "length blk' = BLOCK_SIZE"
  shows "rec_at blk' off d"
proof -
  note b = rec_at_bounds [OF assms(1)]
  have rl: "12 \<le> rec_len d" "off + rec_len d \<le> BLOCK_SIZE" using b by (simp_all add: DIRENT_HDR_def)
  note s = slice_sub [OF assms(2)] nth_sub [OF assms(2)]
  have h: "slice blk' off 8 = slice blk off 8" "slice blk' (off + 8) 2 = slice blk (off + 8) 2"
    "blk' ! (off + 10) = blk ! (off + 10)" "blk' ! (off + 11) = blk ! (off + 11)"
    using rl assms(3,4) by (auto intro!: s)
  have d: "d = dirent_at blk off" using assms(1) by (simp add: rec_at_def)
  have "12 + unat (blk ! (off + 10)) \<le> rec_len d"
    using assms(1) by (auto simp: rec_at_def dirent_bad_def dirent_at_def Let_def DIRENT_HDR_def)
  then have "slice blk' (off + 12) (unat (blk ! (off + 10))) = slice blk (off + 12) (unat (blk ! (off + 10)))"
    by (intro s) simp_all
  then have "dirent_at blk' off = dirent_at blk off" "dirent_bad blk' off = dirent_bad blk off"
    by (simp_all add: dirent_at_def dirent_bad_def rd_u64_def rd_u16_def h DIRENT_HDR_def)
  with assms(1) show ?thesis by (simp add: rec_at_def)
qed

lemma chain_cong:
  "chain blk off ds e \<Longrightarrow> slice blk' off (e - off) = slice blk off (e - off)
    \<Longrightarrow> length blk = BLOCK_SIZE \<Longrightarrow> length blk' = BLOCK_SIZE \<Longrightarrow> chain blk' off ds e"
proof (induction ds arbitrary: off)
  case (Cons d ds)
  from Cons.prems have c: "rec_at blk off d" "chain blk (off + rec_len d) ds e" by simp_all
  have le: "off + rec_len d \<le> e" using chain_le [OF c(2)] .
  have "rec_at blk' off d"
    using le by (intro rec_at_cong [OF c(1) _ Cons.prems(3,4)] slice_sub [OF Cons.prems(2)]) simp_all
  moreover have "chain blk' (off + rec_len d) ds e"
    using le by (intro Cons.IH c(2) Cons.prems(3,4) slice_sub [OF Cons.prems(2)]) simp_all
  ultimately show ?case by simp
qed simp

lemma chain_replace:
  assumes "chain blk 0 (pre @ old @ post) BLOCK_SIZE" "chain blk 0 pre k" "chain blk k old m"
    and "length blk = BLOCK_SIZE" "length blk' = BLOCK_SIZE"
    and "slice blk' 0 k = slice blk 0 k" "slice blk' m (BLOCK_SIZE - m) = slice blk m (BLOCK_SIZE - m)"
    and "chain blk' k new m" "chain blk m post BLOCK_SIZE"
  shows "chain blk' 0 (pre @ new @ post) BLOCK_SIZE"
proof -
  have "chain blk' 0 pre k" by (rule chain_cong [OF assms(2)]) (use assms in simp_all)
  moreover have "chain blk' m post BLOCK_SIZE" by (rule chain_cong [OF assms(9)]) (use assms in simp_all)
  ultimately show ?thesis using assms(8) unfolding chain_append by blast
qed

lemma rec_atI:
  assumes "slice blk off 8 = wr_u64 ino" "slice blk (off + 8) 2 = wr_u16 (of_nat rl)"
    and "blk ! (off + 10) = of_nat (length name)" "blk ! (off + 11) = ft"
    and "slice blk (off + 12) (length name) = name"
    and "length name \<le> NAME_MAX" "12 + length name \<le> rl" "rl mod 4 = 0" "off + rl \<le> BLOCK_SIZE"
    and "ino = 0 \<or> name \<noteq> []"
  shows "rec_at blk off \<lparr>d_offset = off, d_inode = ino, rec_len = rl, file_type = ft, d_name = name\<rparr>"
proof -
  have r: "rd_u64 blk off = ino" "rd_u16 blk (off + 8) = of_nat rl" using assms(1,2) by (auto intro: rd_wr)
  have u: "unat (of_nat rl :: u16) = rl" "unat (of_nat (length name) :: u8) = length name"
    using assms(6-9) by (simp_all add: unat_of_nat NAME_MAX_def BLOCK_SIZE_def)
  show ?thesis using assms(3-)
    by (auto simp: rec_at_def dirent_bad_def dirent_at_def Let_def r u DIRENT_HDR_def)
qed

lemma align4_bounds: "n \<le> align4 n" "align4 n mod 4 = 0" "n \<le> m \<Longrightarrow> m mod 4 = 0 \<Longrightarrow> align4 n \<le> m"
proof -
  show "n \<le> align4 n" unfolding align4_def by presburger
  show "align4 n mod 4 = 0" by (simp add: align4_def)
  show "n \<le> m \<Longrightarrow> m mod 4 = 0 \<Longrightarrow> align4 n \<le> m" unfolding align4_def by presburger
qed

definition entry_fields :: "nat \<Rightarrow> nat \<Rightarrow> u64 \<Rightarrow> u8 \<Rightarrow> bytes \<Rightarrow> (nat \<times> bytes) list" where
  "entry_fields off rl ino ftype name =
     [(off, wr_u64 ino), (off + 8, wr_u16 (of_nat rl)), (off + 10, [of_nat (length name)]),
      (off + 11, [ftype]), (off + 12, name),
      (off + 12 + length name, replicate (min (align4 (12 + length name)) rl - (12 + length name)) 0)]"

lemma write_entry_fields:
  assumes "off + rl \<le> length blk" "12 + length name \<le> rl"
  shows "write_entry blk off rl ino ftype name = write_fields (entry_fields off rl ino ftype name) blk"
  using assms
  by (simp add: write_entry_def write_fields_def entry_fields_def Let_def DIRENT_HDR_def update_splice
      add.assoc)

lemma entry_fields_ok:
  "12 + length name \<le> rl \<Longrightarrow> fields_ok off (off + rl) (entry_fields off rl ino ftype name)"
  using align4_bounds(1) [of "12 + length name"] by (simp add: entry_fields_def min_def)

lemma write_entry_spec:
  assumes "off + rl \<le> BLOCK_SIZE" "length blk = BLOCK_SIZE" "12 + length name \<le> rl" "rl mod 4 = 0"
    and "name \<noteq> []" "length name \<le> NAME_MAX"
    and blk'_def: "blk' = write_entry blk off rl ino ftype name"
  shows "length blk' = BLOCK_SIZE"
    and "rec_at blk' off \<lparr>d_offset = off, d_inode = ino, rec_len = rl, file_type = ftype, d_name = name\<rparr>"
    and "k + n \<le> off \<Longrightarrow> slice blk' k n = slice blk k n"
    and "off + rl \<le> k \<Longrightarrow> slice blk' k n = slice blk k n"
proof -
  let ?fs = "entry_fields off rl ino ftype name"
  have e: "blk' = write_fields ?fs blk" unfolding blk'_def using assms by (intro write_entry_fields) simp_all
  note ok' = entry_fields_ok [OF assms(3), of off ino ftype]
  have ok: "fields_ok off (length blk) ?fs" using ok' assms(1,2) by (auto intro: fields_ok_mono)
  show len: "length blk' = BLOCK_SIZE" unfolding e using ok assms(2) by simp
  show "k + n \<le> off \<Longrightarrow> slice blk' k n = slice blk k n" unfolding e by (rule slice_write_fields_out [OF ok])
  show "off + rl \<le> k \<Longrightarrow> slice blk' k n = slice blk k n"
    unfolding e using ok' assms(1,2) by (intro slice_write_fields_after) simp_all
  have f: "(p, v) \<in> set ?fs \<Longrightarrow> n = length v \<Longrightarrow> slice blk' p n = v" for p v n
    unfolding e using slice_write_fields [OF ok] by blast
  show "rec_at blk' off \<lparr>d_offset = off, d_inode = ino, rec_len = rl, file_type = ftype, d_name = name\<rparr>"
    using assms by (intro rec_atI f nth_of_slice) (simp_all add: entry_fields_def)
qed

section \<open>The name map of a block\<close>

definition entries :: "dirent list \<Rightarrow> (bytes \<times> u64 \<times> u8) list" where
  "entries ds = map (\<lambda>d. (d_name d, d_inode d, file_type d)) (filter (\<lambda>d. d_inode d \<noteq> 0) ds)"

definition dir_entries :: "bytes \<Rightarrow> (bytes \<times> u64 \<times> u8) list" where
  "dir_entries blk = (case parse_block blk of Ok ds \<Rightarrow> entries ds | _ \<Rightarrow> [])"

definition dir_map :: "bytes \<Rightarrow> bytes \<Rightarrow> (u64 \<times> u8) option" where
  "dir_map blk = map_of (dir_entries blk)"

definition dir_wf :: "bytes \<Rightarrow> bool" where
  "dir_wf blk \<longleftrightarrow> length blk = BLOCK_SIZE \<and> is_ok (parse_block blk) \<and> distinct (map fst (dir_entries blk))"

lemma entries_append [simp]: "entries (xs @ ys) = entries xs @ entries ys"
  by (simp add: entries_def)

lemma entries_Cons: "entries (d # ds) = (if d_inode d = 0 then [] else [(d_name d, d_inode d, file_type d)]) @ entries ds"
  by (simp add: entries_def)

lemma entries_Nil [simp]: "entries [] = []" by (simp add: entries_def)

lemma dir_wf_chain:
  assumes "dir_wf blk"
  obtains ds where "chain blk 0 ds BLOCK_SIZE" "parse_block blk = Ok ds" "dir_entries blk = entries ds"
    "distinct (map fst (entries ds))" "length blk = BLOCK_SIZE"
  using assms by (cases "parse_block blk") (auto simp: dir_wf_def dir_entries_def parse_block_chain)

lemma chain_dir_entries: "chain blk 0 ds BLOCK_SIZE \<Longrightarrow> dir_entries blk = entries ds"
  by (simp add: parse_block_chain [symmetric] dir_entries_def)

lemma chain_wf:
  "chain blk 0 ds BLOCK_SIZE \<Longrightarrow> length blk = BLOCK_SIZE \<Longrightarrow> distinct (map fst (entries ds)) \<Longrightarrow> dir_wf blk"
  by (simp add: dir_wf_def chain_dir_entries) (simp add: parse_block_chain [symmetric])

lemma find_entries: "map_option (\<lambda>d. (d_inode d, file_type d)) (List.find (live_named name) ds)
    = map_of (entries ds) name"
  by (induction ds) (auto simp: entries_Cons live_named_def)

lemma find_entry_map:
  assumes "dir_wf blk"
  shows "res_map (map_option snd) (find_entry blk name) = Ok (dir_map blk name)"
proof -
  obtain ds where "parse_block blk = Ok ds" "dir_entries blk = entries ds"
    using assms by (rule dir_wf_chain)
  then show ?thesis
    by (simp add: find_entry_def dir_map_def find_entries [symmetric] option.map_comp comp_def)
qed

lemma rec_at_fields:
  assumes "rec_at blk off d" "length blk = BLOCK_SIZE"
  shows "slice blk off 8 = wr_u64 (d_inode d)" "blk ! (off + 10) = of_nat (length (d_name d))"
    "blk ! (off + 11) = file_type d" "slice blk (off + 12) (length (d_name d)) = d_name d"
    "length (d_name d) \<le> NAME_MAX" "d_inode d = 0 \<or> d_name d \<noteq> []"
proof -
  from assms have d: "d = dirent_at blk off" and nb: "\<not> dirent_bad blk off" and o: "off + 12 \<le> BLOCK_SIZE"
    by (simp_all add: rec_at_def DIRENT_HDR_def)
  have fit: "off + 12 + unat (blk ! (off + 10)) \<le> BLOCK_SIZE"
    using nb by (auto simp: dirent_bad_def Let_def DIRENT_HDR_def)
  then have n: "length (d_name d) = unat (blk ! (off + 10))"
    by (simp add: d dirent_at_def assms(2) DIRENT_HDR_def)
  show "slice blk off 8 = wr_u64 (d_inode d)"
    using le_bytes_le_word [of "slice blk off 8", where 'a = 64] o assms(2)
    by (simp add: d dirent_at_def rd_u64_def wr_u64_def min_def)
  show "blk ! (off + 10) = of_nat (length (d_name d))" by (simp add: n)
  show "blk ! (off + 11) = file_type d" by (simp add: d dirent_at_def)
  show "slice blk (off + 12) (length (d_name d)) = d_name d"
    unfolding n by (simp add: d dirent_at_def DIRENT_HDR_def)
  show "length (d_name d) \<le> NAME_MAX"
    using unsigned_less [of "blk ! (off + 10)", where 'a = nat] by (simp add: n NAME_MAX_def)
  have "d_inode d = 0 \<or> length (d_name d) \<noteq> 0"
    unfolding n using nb by (auto simp: d dirent_at_def dirent_bad_def Let_def)
  then show "d_inode d = 0 \<or> d_name d \<noteq> []" by simp
qed

lemma rec_at_change:
  assumes "rec_at blk off d" "length blk = BLOCK_SIZE" "length blk' = BLOCK_SIZE"
    and "slice blk' off 8 = wr_u64 ino" "slice blk' (off + 8) 2 = wr_u16 (of_nat rl)"
    and "slice blk' (off + 10) (2 + length (d_name d)) = slice blk (off + 10) (2 + length (d_name d))"
    and "12 + length (d_name d) \<le> rl" "rl mod 4 = 0" "off + rl \<le> BLOCK_SIZE" "ino = 0 \<or> d_inode d \<noteq> 0"
  shows "rec_at blk' off (d\<lparr>d_inode := ino, rec_len := rl\<rparr>)"
proof -
  note f = rec_at_fields [OF assms(1,2)] and b = rec_at_bounds [OF assms(1)]
  have "blk' ! (off + 10) = blk ! (off + 10)" "blk' ! (off + 11) = blk ! (off + 11)"
    by (rule nth_sub [OF assms(6)]; use assms in simp)+
  moreover have "slice blk' (off + 12) (length (d_name d)) = slice blk (off + 12) (length (d_name d))"
    by (rule slice_sub [OF assms(6)]) simp_all
  ultimately have "rec_at blk' off \<lparr>d_offset = off, d_inode = ino, rec_len = rl, file_type = file_type d, d_name = d_name d\<rparr>"
    using assms f by (intro rec_atI) auto
  then show ?thesis using b(1) by (cases d) simp
qed

lemma slice_rec_len:
  assumes "rec_at blk off d" "length blk = BLOCK_SIZE"
  shows "slice blk (off + 8) 2 = wr_u16 (of_nat (rec_len d))"
proof -
  have "off + 12 \<le> BLOCK_SIZE" "d = dirent_at blk off" using assms(1) by (simp_all add: rec_at_def DIRENT_HDR_def)
  moreover from this have "length (slice blk (off + 8) 2) = 2" by (simp add: assms(2))
  ultimately show ?thesis
    using le_bytes_le_word [of "slice blk (off + 8) 2", where 'a = 16]
    by (simp add: dirent_at_def rd_u16_def wr_u16_def)
qed

section \<open>Insertion\<close>

lemma insert_loop_True:
  assumes "insert_loop blk ino ftype name needed ds = (True, blk')"
  obtains pre d post where "ds = pre @ d # post" "d_inode d = 0" "needed \<le> rec_len d"
      "blk' = write_entry blk (d_offset d) (rec_len d) ino ftype name"
  | pre d post used where "ds = pre @ d # post" "d_inode d \<noteq> 0" "used = align4 (12 + length (d_name d))"
      "needed \<le> rec_len d - used"
      "blk' = write_entry (splice blk (d_offset d + 8) (wr_u16 (of_nat used))) (d_offset d + used)
                (rec_len d - used) ino ftype name"
  using assms
proof (induction ds arbitrary: thesis)
  case (Cons x xs)
  show ?case
  proof (cases "d_inode x = 0 \<and> needed \<le> rec_len x")
    case True
    then show ?thesis using Cons.prems(3) by (intro Cons.prems(1) [of "[]" x xs]) simp_all
  next
    case False
    define used where "used = align4 (12 + length (d_name x))"
    show ?thesis
    proof (cases "d_inode x \<noteq> 0 \<and> needed \<le> rec_len x - used")
      case True
      then show ?thesis using Cons.prems(3) False
        by (intro Cons.prems(2) [of "[]" x xs used]) (simp_all add: Let_def used_def DIRENT_HDR_def)
    next
      case nosplit: False
      have "insert_loop blk ino ftype name needed (x # xs) = insert_loop blk ino ftype name needed xs"
        using False nosplit by (simp add: Let_def used_def DIRENT_HDR_def) blast
      then have step: "insert_loop blk ino ftype name needed xs = (True, blk')" using Cons.prems(3) by simp
      show ?thesis
      proof (rule Cons.IH [OF _ _ step])
        fix pre d post
        assume "xs = pre @ d # post" "d_inode d = 0" "needed \<le> rec_len d"
          "blk' = write_entry blk (d_offset d) (rec_len d) ino ftype name"
        then show thesis by (intro Cons.prems(1) [of "x # pre" d post]) simp_all
      next
        fix pre d post u
        assume "xs = pre @ d # post" "d_inode d \<noteq> 0" "u = align4 (12 + length (d_name d))"
          "needed \<le> rec_len d - u"
          "blk' = write_entry (splice blk (d_offset d + 8) (wr_u16 (of_nat u))) (d_offset d + u)
                    (rec_len d - u) ino ftype name"
        then show thesis by (intro Cons.prems(2) [of "x # pre" d post u]) simp_all
      qed
    qed
  qed
qed simp

text \<open>The chain around one record.\<close>

lemma chain_split:
  assumes "chain blk 0 (pre @ d # post) BLOCK_SIZE"
  obtains k where "chain blk 0 pre k" "rec_at blk k d" "chain blk (k + rec_len d) post BLOCK_SIZE"
    "d_offset d = k"
  using assms by (auto simp: chain_append rec_at_bounds)

lemma chain_subst:
  assumes "chain blk 0 (pre @ d # post) BLOCK_SIZE" "d_offset d = k"
    and "length blk = BLOCK_SIZE" "length blk' = BLOCK_SIZE"
    and "slice blk' 0 k = slice blk 0 k" "chain blk' k new (k + rec_len d)"
    and "slice blk' (k + rec_len d) (BLOCK_SIZE - (k + rec_len d)) = slice blk (k + rec_len d) (BLOCK_SIZE - (k + rec_len d))"
  shows "chain blk' 0 (pre @ new @ post) BLOCK_SIZE"
proof -
  obtain m where m: "chain blk 0 pre m" "rec_at blk m d" "chain blk (m + rec_len d) post BLOCK_SIZE" "d_offset d = m"
    by (rule chain_split [OF assms(1)])
  then have mk: "m = k" using assms(2) by simp
  show ?thesis
    by (rule chain_replace [where old = "[d]" and k = k and m = "k + rec_len d"])
      (use m assms in \<open>simp_all add: mk\<close>)
qed

lemma insert_hole:
  assumes "chain blk 0 (pre @ d # post) BLOCK_SIZE" "length blk = BLOCK_SIZE" "d_inode d = 0"
    and "align4 (12 + length name) \<le> rec_len d" "name \<noteq> []" "length name \<le> NAME_MAX" "ino \<noteq> 0"
    and "blk' = write_entry blk (d_offset d) (rec_len d) ino ftype name"
  shows "\<exists>ds'. chain blk' 0 ds' BLOCK_SIZE \<and> length blk' = BLOCK_SIZE
           \<and> entries ds' = entries pre @ (name, ino, ftype) # entries (d # post)"
proof -
  obtain k where k: "rec_at blk k d" "d_offset d = k" using chain_split [OF assms(1)] by metis
  note b = rec_at_bounds [OF k(1)]
  have fit: "12 + length name \<le> rec_len d" using assms(4) align4_bounds(1) le_trans by blast
  note w = write_entry_spec [OF b(3) assms(2) fit b(4) assms(5,6), of blk' ino ftype]
  have eq: "blk' = write_entry blk k (rec_len d) ino ftype name" using assms(8) k(2) by simp
  let ?n = "\<lparr>d_offset = k, d_inode = ino, rec_len = rec_len d, file_type = ftype, d_name = name\<rparr>"
  have "chain blk' 0 (pre @ [?n] @ post) BLOCK_SIZE"
    using w [OF eq] by (intro chain_subst [OF assms(1) k(2) assms(2)]) simp_all
  moreover have "entries (pre @ [?n] @ post) = entries pre @ (name, ino, ftype) # entries (d # post)"
    using assms(3,7) by (simp add: entries_Cons)
  ultimately show ?thesis using w(1) [OF eq] by blast
qed

lemma insert_split:
  assumes "chain blk 0 (pre @ d # post) BLOCK_SIZE" "length blk = BLOCK_SIZE" "d_inode d \<noteq> 0"
    and "used = align4 (12 + length (d_name d))" "align4 (12 + length name) \<le> rec_len d - used"
    and "name \<noteq> []" "length name \<le> NAME_MAX" "ino \<noteq> 0"
    and "blk' = write_entry (splice blk (d_offset d + 8) (wr_u16 (of_nat used))) (d_offset d + used)
           (rec_len d - used) ino ftype name"
  shows "\<exists>ds'. chain blk' 0 ds' BLOCK_SIZE \<and> length blk' = BLOCK_SIZE
           \<and> entries ds' = entries (pre @ [d]) @ (name, ino, ftype) # entries post"
proof -
  obtain k where k: "rec_at blk k d" "d_offset d = k" using chain_split [OF assms(1)] by metis
  note b = rec_at_bounds [OF k(1)]
  define b1 where "b1 = splice blk (k + 8) (wr_u16 (of_nat used))"
  have u: "12 + length (d_name d) \<le> used" "used mod 4 = 0" "used \<le> rec_len d"
    using align4_bounds b(2,4) by (simp_all add: assms(4) DIRENT_HDR_def)
  have fit: "12 + length name \<le> rec_len d - used" using assms(5) align4_bounds(1) le_trans by blast
  have rl: "k + used + (rec_len d - used) \<le> BLOCK_SIZE" "(rec_len d - used) mod 4 = 0"
    "k + used + (rec_len d - used) = k + rec_len d"
    using b(3,4) u by (auto simp: mod_eq_0_iff_dvd)
  have l1: "length b1 = BLOCK_SIZE" using b(3) u by (simp add: b1_def assms(2))
  have eq: "blk' = write_entry b1 (k + used) (rec_len d - used) ino ftype name"
    using assms(9) k(2) by (simp add: b1_def)
  note w = write_entry_spec [OF rl(1) l1 fit rl(2) assms(6,7), of blk' ino ftype, OF eq]
  have before: "slice b1 x n = slice blk x n" if "x + n \<le> k + 8 \<or> k + 10 \<le> x" for x n
    unfolding b1_def using that b(3) u by (intro slice_splice_disjoint) (auto simp: assms(2))
  have sh: "rec_at blk' k (d\<lparr>d_inode := d_inode d, rec_len := used\<rparr>)"
  proof (rule rec_at_change [OF k(1) assms(2) w(1)])
    show "slice blk' k 8 = wr_u64 (d_inode d)"
      using w(3) [of k 8] before [of k 8] rec_at_fields(1) [OF k(1) assms(2)] u by simp
    show "slice blk' (k + 8) 2 = wr_u16 (of_nat used)"
      using w(3) [of "k + 8" 2] u b(3) by (simp add: b1_def assms(2))
    show "slice blk' (k + 10) (2 + length (d_name d)) = slice blk (k + 10) (2 + length (d_name d))"
      using w(3) [of "k + 10" "2 + length (d_name d)"] before [of "k + 10"] u by simp
  qed (use u b assms(3) in auto)
  let ?n = "\<lparr>d_offset = k + used, d_inode = ino, rec_len = rec_len d - used, file_type = ftype, d_name = name\<rparr>"
  have "chain blk' 0 (pre @ [d\<lparr>d_inode := d_inode d, rec_len := used\<rparr>, ?n] @ post) BLOCK_SIZE"
    using w sh before u rl(3)
    by (intro chain_subst [OF assms(1) k(2) assms(2)]) simp_all
  moreover have "entries (pre @ [d\<lparr>d_inode := d_inode d, rec_len := used\<rparr>, ?n] @ post)
      = entries (pre @ [d]) @ (name, ino, ftype) # entries post"
    using assms(3,8) by (simp add: entries_Cons)
  ultimately show ?thesis using w(1) by blast
qed

lemma insert_entry_chain:
  assumes "insert_entry blk ino ftype name = Ok (True, blk')" "length blk = BLOCK_SIZE" "ino \<noteq> 0"
  shows "\<exists>xs ys. dir_entries blk = xs @ ys \<and> dir_entries blk' = xs @ (name, ino, ftype) # ys
           \<and> is_ok (parse_block blk') \<and> length blk' = BLOCK_SIZE"
proof -
  obtain ds where nm: "name \<noteq> []" "length name \<le> NAME_MAX" and ds: "chain blk 0 ds BLOCK_SIZE"
    and lp: "insert_loop blk ino ftype name (align4 (12 + length name)) ds = (True, blk')"
    using assms(1)
    by (auto simp: insert_entry_def res_map_eq_Ok parse_block_chain DIRENT_HDR_def split: if_splits)
  have "\<exists>ds' xs ys. chain blk' 0 ds' BLOCK_SIZE \<and> length blk' = BLOCK_SIZE
      \<and> entries ds' = xs @ (name, ino, ftype) # ys \<and> entries ds = xs @ ys"
  proof (rule insert_loop_True [OF lp])
    fix pre d post
    assume h: "ds = pre @ d # post" "d_inode d = 0" "align4 (12 + length name) \<le> rec_len d"
      "blk' = write_entry blk (d_offset d) (rec_len d) ino ftype name"
    from insert_hole [OF ds [unfolded h(1)] assms(2) h(2,3) nm assms(3) h(4)]
    show ?thesis by (auto simp: h(1))
  next
    fix pre d post used
    assume h: "ds = pre @ d # post" "d_inode d \<noteq> 0" "used = align4 (12 + length (d_name d))"
      "align4 (12 + length name) \<le> rec_len d - used"
      "blk' = write_entry (splice blk (d_offset d + 8) (wr_u16 (of_nat used))) (d_offset d + used)
         (rec_len d - used) ino ftype name"
    from insert_split [OF ds [unfolded h(1)] assms(2) h(2,3,4) nm assms(3) h(5)]
    obtain ds' where "chain blk' 0 ds' BLOCK_SIZE" "length blk' = BLOCK_SIZE"
      "entries ds' = entries (pre @ [d]) @ (name, ino, ftype) # entries post" by blast
    moreover have "entries ds = entries (pre @ [d]) @ entries post" by (simp add: h(1) entries_Cons)
    ultimately show ?thesis by blast
  qed
  then show ?thesis
    using chain_dir_entries [OF ds] by (auto simp: chain_dir_entries) (auto simp: parse_block_chain [symmetric])
qed

section \<open>Removal and retargeting\<close>

lemma remove_loop_True:
  assumes "remove_loop blk name prev ds = (True, blk')"
  obtains pre d post where "ds = pre @ d # post" "live_named name d"
    "blk' = (case (if pre = [] then prev else Some (last pre)) of
       Some p \<Rightarrow> splice blk (d_offset p + 8) (wr_u16 (of_nat (rec_len p + rec_len d)))
     | None \<Rightarrow> (splice blk (d_offset d) (wr_u64 0))[d_offset d + 10 := 0, d_offset d + 11 := 0])"
  using assms
proof (induction ds arbitrary: prev thesis)
  case (Cons x xs)
  show ?case
  proof (cases "live_named name x")
    case True
    then show ?thesis using Cons.prems(2) by (intro Cons.prems(1) [of "[]" x xs]) simp_all
  next
    case False
    then have "remove_loop blk name (Some x) xs = (True, blk')" using Cons.prems(2) by simp
    then show ?thesis
    proof (rule Cons.IH [rotated], goal_cases)
      case (1 pre d post)
      then show ?thesis by (intro Cons.prems(1) [of "x # pre" d post]) (simp_all split: if_splits)
    qed
  qed
qed simp

lemma remove_merge:
  assumes "chain blk 0 (pre @ p # d # post) BLOCK_SIZE" "length blk = BLOCK_SIZE"
    and "blk' = splice blk (d_offset p + 8) (wr_u16 (of_nat (rec_len p + rec_len d)))"
  shows "\<exists>p'. chain blk' 0 (pre @ [p'] @ post) BLOCK_SIZE \<and> length blk' = BLOCK_SIZE \<and> entries [p'] = entries [p]"
proof -
  obtain k where k: "chain blk 0 pre k" "rec_at blk k p" "rec_at blk (k + rec_len p) d"
    "chain blk (k + rec_len p + rec_len d) post BLOCK_SIZE" "d_offset p = k"
    using chain_split [OF assms(1)] by auto
  note bp = rec_at_bounds [OF k(2)] and bd = rec_at_bounds [OF k(3)]
  have r: "12 \<le> rec_len p" using bp(2) by (simp add: DIRENT_HDR_def)
  have len: "length blk' = BLOCK_SIZE" using assms(2,3) k(5) bp(3) r by simp
  have out: "slice blk' x n = slice blk x n" if "x + n \<le> k + 8 \<or> k + 10 \<le> x" for x n
    unfolding assms(3) k(5) using that bp(3) r by (intro slice_splice_disjoint) (auto simp: assms(2))
  let ?p = "p\<lparr>d_inode := d_inode p, rec_len := rec_len p + rec_len d\<rparr>"
  have p': "rec_at blk' k ?p"
  proof (rule rec_at_change [OF k(2) assms(2) len])
    show "slice blk' k 8 = wr_u64 (d_inode p)"
      using out [of k 8] rec_at_fields(1) [OF k(2) assms(2)] by simp
    show "slice blk' (k + 8) 2 = wr_u16 (of_nat (rec_len p + rec_len d))"
      using assms(2,3) k(5) bp(3) r by simp
    show "slice blk' (k + 10) (2 + length (d_name p)) = slice blk (k + 10) (2 + length (d_name p))"
      by (rule out) simp
    show "(rec_len p + rec_len d) mod 4 = 0" using bp(4) bd(4) by (simp add: mod_add_eq [symmetric])
  qed (use bp bd in \<open>auto simp: DIRENT_HDR_def\<close>)
  have "chain blk' 0 (pre @ [?p] @ post) BLOCK_SIZE"
    by (rule chain_replace [where old = "[p, d]" and k = k and m = "k + rec_len p + rec_len d"])
      (use assms k len out p' r in \<open>simp_all add: add.assoc\<close>)
  then show ?thesis using len by (intro exI [of _ ?p]) (simp add: entries_Cons)
qed

lemma remove_first:
  assumes "chain blk 0 (d # post) BLOCK_SIZE" "length blk = BLOCK_SIZE"
    and "blk' = (splice blk (d_offset d) (wr_u64 0))[d_offset d + 10 := 0, d_offset d + 11 := 0]"
  shows "\<exists>d'. chain blk' 0 (d' # post) BLOCK_SIZE \<and> length blk' = BLOCK_SIZE \<and> entries [d'] = []"
proof -
  have r: "rec_at blk 0 d" using assms(1) by simp
  note b = rec_at_bounds [OF r]
  have l: "12 \<le> rec_len d" using b(2) by (simp add: DIRENT_HDR_def)
  let ?fs = "[(0, wr_u64 0), (10, [0]), (11, [0])] :: (nat \<times> bytes) list"
  have e: "blk' = write_fields ?fs blk"
    using assms(2,3) b(1) by (simp add: write_fields_def update_splice BLOCK_SIZE_def)
  have ok: "fields_ok 0 12 ?fs" "fields_ok 0 (length blk) ?fs" by (simp_all add: assms(2) BLOCK_SIZE_def)
  have len: "length blk' = BLOCK_SIZE" unfolding e using ok(2) assms(2) by simp
  have f: "(p, v) \<in> set ?fs \<Longrightarrow> n = length v \<Longrightarrow> slice blk' p n = v" for p v n
    unfolding e using slice_write_fields [OF ok(2)] by blast
  have "slice blk' 8 2 = slice blk 8 2"
  proof -
    have "slice (write_fields ?fs blk) 8 2 = slice (write_fields [(0, wr_u64 0)] blk) 8 2"
      by (simp add: write_fields_def assms(2) BLOCK_SIZE_def slice_splice_before)
    also have "\<dots> = slice blk 8 2" by (simp add: write_fields_def assms(2) BLOCK_SIZE_def slice_splice_after)
    finally show ?thesis by (simp add: e)
  qed
  then have rl: "slice blk' (0 + 8) 2 = wr_u16 (of_nat (rec_len d))" using slice_rec_len [OF r assms(2)] by simp
  let ?d = "\<lparr>d_offset = 0, d_inode = 0, rec_len = rec_len d, file_type = 0, d_name = []\<rparr>"
  have "slice blk' 0 8 = wr_u64 0" "blk' ! 10 = 0" "blk' ! 11 = 0"
    by (intro nth_of_slice f; simp)+
  then have "rec_at blk' 0 ?d"
    by (intro rec_atI) (use rl b l in \<open>auto simp: NAME_MAX_def slice_def\<close>)
  moreover have "chain blk' (rec_len d) post BLOCK_SIZE"
  proof (rule chain_cong [of blk])
    show "slice blk' (rec_len d) (BLOCK_SIZE - rec_len d) = slice blk (rec_len d) (BLOCK_SIZE - rec_len d)"
      unfolding e using l by (intro slice_write_fields_after [OF ok(1)]) (simp_all add: assms(2) BLOCK_SIZE_def)
  qed (use assms len in simp_all)
  ultimately show ?thesis using len by (intro exI [of _ ?d]) (simp add: entries_Cons)
qed

lemma remove_entry_chain:
  assumes "remove_entry blk name = Ok (True, blk')" "length blk = BLOCK_SIZE"
  shows "\<exists>xs ys i ft. dir_entries blk = xs @ (name, i, ft) # ys \<and> dir_entries blk' = xs @ ys
           \<and> is_ok (parse_block blk') \<and> length blk' = BLOCK_SIZE"
proof -
  obtain ds where ds: "chain blk 0 ds BLOCK_SIZE" and lp: "remove_loop blk name None ds = (True, blk')"
    using assms(1) by (auto simp: remove_entry_def res_map_eq_Ok parse_block_chain)
  obtain pre d post where s: "ds = pre @ d # post" "live_named name d"
    and b': "blk' = (case (if pre = [] then None else Some (last pre)) of
       Some p \<Rightarrow> splice blk (d_offset p + 8) (wr_u16 (of_nat (rec_len p + rec_len d)))
     | None \<Rightarrow> (splice blk (d_offset d) (wr_u64 0))[d_offset d + 10 := 0, d_offset d + 11 := 0])"
    by (rule remove_loop_True [OF lp])
  have "\<exists>ds'. chain blk' 0 ds' BLOCK_SIZE \<and> length blk' = BLOCK_SIZE \<and> entries ds' = entries pre @ entries post"
  proof (cases pre rule: rev_cases)
    case Nil
    then have "blk' = (splice blk (d_offset d) (wr_u64 0))[d_offset d + 10 := 0, d_offset d + 11 := 0]"
      using b' by simp
    from remove_first [OF _ assms(2) this, of post] ds s Nil
    obtain d' where "chain blk' 0 (d' # post) BLOCK_SIZE" "length blk' = BLOCK_SIZE" "entries [d'] = []" by auto
    then show ?thesis using Nil by (intro exI [of _ "d' # post"]) (simp add: entries_Cons)
  next
    case (snoc pre0 p)
    then have "blk' = splice blk (d_offset p + 8) (wr_u16 (of_nat (rec_len p + rec_len d)))" using b' by simp
    from remove_merge [OF _ assms(2) this, of pre0 post] ds s snoc
    obtain p' where "chain blk' 0 (pre0 @ [p'] @ post) BLOCK_SIZE" "length blk' = BLOCK_SIZE"
      "entries [p'] = entries [p]" by auto
    then show ?thesis using snoc by (intro exI [of _ "pre0 @ [p'] @ post"]) (simp add: entries_Cons)
  qed
  then obtain ds' where ds': "chain blk' 0 ds' BLOCK_SIZE" "length blk' = BLOCK_SIZE"
    "entries ds' = entries pre @ entries post" by blast
  moreover have "entries ds = entries pre @ (name, d_inode d, file_type d) # entries post"
    using s by (simp add: entries_Cons live_named_def)
  moreover have "is_ok (parse_block blk')" using ds'(1) by (simp add: parse_block_chain [symmetric])
  ultimately show ?thesis unfolding chain_dir_entries [OF ds] chain_dir_entries [OF ds'(1)] by blast
qed

lemma retarget_chain:
  assumes "retarget blk name ino = Ok (True, blk')" "length blk = BLOCK_SIZE" "ino \<noteq> 0"
  shows "\<exists>xs ys i ft. dir_entries blk = xs @ (name, i, ft) # ys \<and> dir_entries blk' = xs @ (name, ino, ft) # ys
           \<and> name \<notin> fst ` set xs \<and> is_ok (parse_block blk') \<and> length blk' = BLOCK_SIZE"
proof -
  obtain ds d where ds: "chain blk 0 ds BLOCK_SIZE" and fd: "List.find (live_named name) ds = Some d"
    and b': "blk' = splice blk (d_offset d) (wr_u64 ino)"
    using assms(1) by (auto simp: retarget_def res_map_eq_Ok parse_block_chain split: option.splits)
  obtain pre post where s: "ds = pre @ d # post" "live_named name d" "\<forall>x\<in>set pre. \<not> live_named name x"
  proof -
    from fd obtain i where i: "i < length ds" "live_named name (ds ! i)" "d = ds ! i"
      "\<forall>j<i. \<not> live_named name (ds ! j)" by (auto simp: find_Some_iff)
    show ?thesis by (rule that [of "take i ds" "drop (Suc i) ds"])
      (use i in \<open>auto simp: id_take_nth_drop [symmetric] in_set_conv_nth\<close>)
  qed
  obtain k where k: "rec_at blk k d" "d_offset d = k" using chain_split [OF ds [unfolded s(1)]] by metis
  note b = rec_at_bounds [OF k(1)]
  have l: "12 \<le> rec_len d" using b(2) by (simp add: DIRENT_HDR_def)
  have len: "length blk' = BLOCK_SIZE" using b' assms(2) b(3) k(2) l by simp
  have out: "slice blk' x n = slice blk x n" if "x + n \<le> k \<or> k + 8 \<le> x" for x n
    unfolding b' k(2) using that b(3) l by (intro slice_splice_disjoint) (auto simp: assms(2))
  have "rec_at blk' k (d\<lparr>d_inode := ino, rec_len := rec_len d\<rparr>)"
    using b l s(2) out [of "k + 8"] out [of "k + 10"] slice_rec_len [OF k(1) assms(2)] k(2) assms(2)
    by (intro rec_at_change [OF k(1) assms(2) len]) (auto simp: b' live_named_def DIRENT_HDR_def)
  then have c: "chain blk' 0 (pre @ [d\<lparr>d_inode := ino, rec_len := rec_len d\<rparr>] @ post) BLOCK_SIZE"
    using out l by (intro chain_subst [OF ds [unfolded s(1)] k(2) assms(2) len]) simp_all
  have "name \<notin> fst ` set (entries pre)" using s(3) by (auto simp: entries_def live_named_def)
  moreover have "dir_entries blk' = entries pre @ (name, ino, file_type d) # entries post"
    using s(2) assms(3) by (simp add: chain_dir_entries [OF c] entries_Cons live_named_def)
  moreover have "dir_entries blk = entries pre @ (name, d_inode d, file_type d) # entries post"
    using s(1,2) by (simp add: chain_dir_entries [OF ds] entries_Cons live_named_def)
  moreover have "is_ok (parse_block blk')" using c by (simp add: parse_block_chain [symmetric])
  ultimately show ?thesis using len by blast
qed

section \<open>The contract of a directory block\<close>

text \<open>
  What the filesystem relies on when it edits a directory block: the four operations act on the name map, a
  refused insertion and a removal that finds nothing leave the block alone.
\<close>

locale name_table =
  fixes wf :: "'b \<Rightarrow> bool"
    and absm :: "'b \<Rightarrow> 'n \<Rightarrow> 'v option"
    and good :: "'v \<Rightarrow> bool"
    and lookup :: "'b \<Rightarrow> 'n \<Rightarrow> (rfs_error, 'v option) res"
    and ins :: "'b \<Rightarrow> 'v \<Rightarrow> 'n \<Rightarrow> (rfs_error, bool \<times> 'b) res"
    and rem :: "'b \<Rightarrow> 'n \<Rightarrow> (rfs_error, bool \<times> 'b) res"
  assumes lookup_abs: "wf b \<Longrightarrow> lookup b n = Ok (absm b n)"
    and ins_true: "wf b \<Longrightarrow> absm b n = None \<Longrightarrow> good v \<Longrightarrow> ins b v n = Ok (True, b')
          \<Longrightarrow> wf b' \<and> absm b' = (absm b)(n \<mapsto> v)"
    and ins_false: "ins b v n = Ok (False, b') \<Longrightarrow> b' = b"
    and rem_true: "wf b \<Longrightarrow> rem b n = Ok (True, b') \<Longrightarrow> wf b' \<and> absm b' = (absm b)(n := None)"
    and rem_total: "wf b \<Longrightarrow> \<exists>b'. rem b n = Ok (absm b n \<noteq> None, b')"
    and rem_false: "rem b n = Ok (False, b') \<Longrightarrow> b' = b"
begin

lemma lookup_after_ins:
  assumes "wf b" "absm b n = None" "good v" "ins b v n = Ok (True, b')"
  shows "lookup b' m = (if m = n then Ok (Some v) else lookup b m)"
  using ins_true [OF assms] lookup_abs [of b'] lookup_abs [OF assms(1)] by auto

lemma lookup_after_rem:
  assumes "wf b" "rem b n = Ok (True, b')"
  shows "lookup b' m = (if m = n then Ok None else lookup b m)"
  using rem_true [OF assms] lookup_abs [of b'] lookup_abs [OF assms(1)] by auto

lemma ins_then_rem:
  assumes "wf b" "absm b n = None" "good v" "ins b v n = Ok (True, b')"
  shows "\<exists>b''. rem b' n = Ok (True, b'') \<and> wf b'' \<and> absm b'' = absm b"
proof -
  have b': "wf b'" "absm b' = (absm b)(n \<mapsto> v)" using ins_true [OF assms] by simp_all
  then obtain b'' where r: "rem b' n = Ok (True, b'')" using rem_total [OF b'(1), of n] by auto
  then have "wf b'' \<and> absm b'' = (absm b)(n \<mapsto> v, n := None)" using rem_true [OF b'(1) r] b'(2) by simp
  moreover have "(absm b)(n \<mapsto> v, n := None) = absm b" using assms(2) by (simp add: fun_upd_idem)
  ultimately show ?thesis using r by auto
qed

end

lemma map_of_insert_fresh:
  "name \<notin> fst ` set xs \<Longrightarrow> map_of (xs @ (name, v) # ys) = (map_of (xs @ ys))(name \<mapsto> v)"
  by (induction xs) (auto simp: fun_upd_twist)

lemma map_of_delete:
  "distinct (map fst (xs @ (name, v) # ys))
    \<Longrightarrow> map_of (xs @ ys) = (map_of (xs @ (name, v) # ys))(name := None)"
proof (induction xs)
  case Nil
  then have "map_of ys name = None" by (simp add: map_of_eq_None_iff)
  then show ?case by (auto simp: fun_eq_iff)
qed (auto simp: fun_upd_twist)

lemma insert_entry_map:
  assumes "dir_wf blk" "dir_map blk name = None" "ino \<noteq> 0" "insert_entry blk ino ftype name = Ok (True, blk')"
  shows "dir_wf blk' \<and> dir_map blk' = (dir_map blk)(name \<mapsto> (ino, ftype))"
proof -
  obtain xs ys where x: "dir_entries blk = xs @ ys" "dir_entries blk' = xs @ (name, ino, ftype) # ys"
    "is_ok (parse_block blk')" "length blk' = BLOCK_SIZE"
    using insert_entry_chain [OF assms(4) _ assms(3)] assms(1) by (auto simp: dir_wf_def)
  have n: "name \<notin> fst ` set xs" "name \<notin> fst ` set ys"
    using assms(2) by (auto simp: dir_map_def x(1) map_of_eq_None_iff)
  have "distinct (map fst (dir_entries blk'))" using assms(1) n by (auto simp: dir_wf_def x)
  then show ?thesis using x n map_of_insert_fresh [OF n(1)] by (simp add: dir_wf_def dir_map_def)
qed

lemma remove_entry_map:
  assumes "dir_wf blk" "remove_entry blk name = Ok (True, blk')"
  shows "dir_wf blk' \<and> dir_map blk' = (dir_map blk)(name := None)"
proof -
  obtain xs ys i ft where x: "dir_entries blk = xs @ (name, i, ft) # ys" "dir_entries blk' = xs @ ys"
    "is_ok (parse_block blk')" "length blk' = BLOCK_SIZE"
    using remove_entry_chain [OF assms(2)] assms(1) by (auto simp: dir_wf_def)
  have d: "distinct (map fst (xs @ (name, i, ft) # ys))" using assms(1) by (simp add: dir_wf_def x(1))
  then show ?thesis using x map_of_delete [OF d] by (simp add: dir_wf_def dir_map_def)
qed

lemma retarget_map:
  assumes "dir_wf blk" "retarget blk name ino = Ok (True, blk')" "ino \<noteq> 0"
  shows "dir_wf blk' \<and> (\<exists>i ft. dir_map blk name = Some (i, ft) \<and> dir_map blk' = (dir_map blk)(name \<mapsto> (ino, ft)))"
proof -
  obtain xs ys i ft where x: "dir_entries blk = xs @ (name, i, ft) # ys"
    "dir_entries blk' = xs @ (name, ino, ft) # ys" "name \<notin> fst ` set xs"
    "is_ok (parse_block blk')" "length blk' = BLOCK_SIZE"
    using retarget_chain [OF assms(2) _ assms(3)] assms(1) by (auto simp: dir_wf_def)
  have "dir_map blk = (map_of (xs @ ys))(name \<mapsto> (i, ft))" "dir_map blk' = (map_of (xs @ ys))(name \<mapsto> (ino, ft))"
    using x(1,2) map_of_insert_fresh [OF x(3)] by (simp_all add: dir_map_def)
  then show ?thesis using x assms(1) by (auto simp: dir_wf_def)
qed

lemma insert_entry_false: "insert_entry blk ino ftype name = Ok (False, blk') \<Longrightarrow> blk' = blk"
proof -
  have "insert_loop blk ino ftype name needed ds = (False, blk') \<Longrightarrow> blk' = blk" for needed ds
    by (induction ds) (auto simp: Let_def split: if_splits)
  then show "insert_entry blk ino ftype name = Ok (False, blk') \<Longrightarrow> blk' = blk"
    by (auto simp: insert_entry_def res_map_eq_Ok split: if_splits)
qed

lemma remove_loop_fst: "fst (remove_loop blk name prev ds) \<longleftrightarrow> map_of (entries ds) name \<noteq> None"
  by (induction ds arbitrary: prev) (auto simp: entries_Cons live_named_def)

lemma remove_loop_false: "remove_loop blk name prev ds = (False, blk') \<Longrightarrow> blk' = blk"
  by (induction ds arbitrary: prev) (auto split: if_splits)

interpretation dirblock: name_table dir_wf dir_map "\<lambda>(ino, _). ino \<noteq> 0"
  "\<lambda>blk name. res_map (map_option snd) (find_entry blk name)"
  "\<lambda>blk (ino, ftype) name. insert_entry blk ino ftype name" remove_entry
proof unfold_locales
  fix blk name
  show "dir_wf blk \<Longrightarrow> res_map (map_option snd) (find_entry blk name) = Ok (dir_map blk name)"
    by (rule find_entry_map)
  show "\<And>blk'. dir_wf blk \<Longrightarrow> remove_entry blk name = Ok (True, blk')
      \<Longrightarrow> dir_wf blk' \<and> dir_map blk' = (dir_map blk)(name := None)" by (rule remove_entry_map)
  show "\<And>blk'. remove_entry blk name = Ok (False, blk') \<Longrightarrow> blk' = blk"
    by (auto simp: remove_entry_def res_map_eq_Ok dest: remove_loop_false)
  show "dir_wf blk \<Longrightarrow> \<exists>blk'. remove_entry blk name = Ok (dir_map blk name \<noteq> None, blk')"
  proof -
    assume "dir_wf blk"
    then obtain ds where "parse_block blk = Ok ds" "dir_entries blk = entries ds" by (rule dir_wf_chain)
    then show ?thesis using remove_loop_fst [of blk name None ds]
      by (cases "remove_loop blk name None ds") (auto simp: remove_entry_def dir_map_def)
  qed
next
  fix blk name and v :: "u64 \<times> u8" and blk'
  show "dir_wf blk \<Longrightarrow> dir_map blk name = None \<Longrightarrow> (case v of (ino, _) \<Rightarrow> ino \<noteq> 0)
      \<Longrightarrow> (case v of (ino, ftype) \<Rightarrow> \<lambda>name. insert_entry blk ino ftype name) name = Ok (True, blk')
      \<Longrightarrow> dir_wf blk' \<and> dir_map blk' = (dir_map blk)(name \<mapsto> v)"
    using insert_entry_map [of blk name "fst v" "snd v" blk'] by (simp add: case_prod_beta)
  show "(case v of (ino, ftype) \<Rightarrow> \<lambda>name. insert_entry blk ino ftype name) name = Ok (False, blk')
      \<Longrightarrow> blk' = blk" using insert_entry_false [of blk "fst v" "snd v" name blk'] by (simp add: case_prod_beta)
qed

section \<open>Properties\<close>

lemma wr_u64_zero: "wr_u64 0 = replicate 8 0"
  by (simp add: wr_u64_def numeral_eq_Suc)

lemma init_empty_parse:
  assumes "length blk = BLOCK_SIZE"
  shows "parse_block (init_empty blk)
           = Ok [\<lparr>d_offset = 0, d_inode = 0, rec_len = BLOCK_SIZE, file_type = 0, d_name = []\<rparr>]"
proof -
  have big: "16 \<le> BLOCK_SIZE" by (simp add: BLOCK_SIZE_def)
  have "slice (init_empty blk) 0 8 = wr_u64 0"
    using big by (simp add: init_empty_def assms slice_splice_before wr_u64_zero min_def)
  moreover have "init_empty blk ! 10 = 0" "init_empty blk ! 11 = 0"
    using big by (simp_all add: init_empty_def assms nth_splice)
  moreover have "slice (init_empty blk) 8 2 = wr_u16 (of_nat BLOCK_SIZE)"
    using big by (simp add: init_empty_def assms)
  ultimately have "rec_at (init_empty blk) 0
      \<lparr>d_offset = 0, d_inode = 0, rec_len = BLOCK_SIZE, file_type = 0, d_name = []\<rparr>"
    by (intro rec_atI) (simp_all add: slice_def BLOCK_SIZE_def)
  then show ?thesis by (simp add: parse_block_chain)
qed

lemma only_dots_map:
  assumes "dir_wf blk"
  shows "only_dots blk = Ok (dom (dir_map blk) \<subseteq> {[0x2E], [0x2E, 0x2E]})"
proof -
  obtain ds where ds: "parse_block blk = Ok ds" "dir_entries blk = entries ds" using assms by (rule dir_wf_chain)
  have "list_all (\<lambda>d. d_inode d = 0 \<or> d_name d = [0x2E] \<or> d_name d = [0x2E, 0x2E]) ds
      \<longleftrightarrow> fst ` set (entries ds) \<subseteq> {[0x2E], [0x2E, 0x2E]}"
    by (induction ds) (auto simp: entries_Cons)
  then show ?thesis by (simp add: only_dots_def ds dir_map_def dom_map_of_conv_image_fst)
qed

text \<open>
  C11. A directory block behaves as a finite map from names to inode and file type: \<^verbatim>\<open>find\<close> is lookup,
  \<^verbatim>\<open>insert\<close> of an absent name, \<^verbatim>\<open>remove\<close> and \<^verbatim>\<open>retarget\<close> are update, deletion
  and update, each leaves a well-formed block (the records still partition it and no name occurs twice), and
  \<^verbatim>\<open>only_dots\<close> is the test the emptiness check of \<^verbatim>\<open>rmdir\<close> needs.
\<close>
theorem dir_block_refines:
  assumes "dir_wf blk" "ino \<noteq> 0"
  shows "res_map (map_option snd) (find_entry blk name) = Ok (dir_map blk name)
    \<and> (\<forall>blk'. dir_map blk name = None \<and> insert_entry blk ino ftype name = Ok (True, blk')
          \<longrightarrow> dir_wf blk' \<and> dir_map blk' = (dir_map blk)(name \<mapsto> (ino, ftype)))
    \<and> (\<forall>blk'. remove_entry blk name = Ok (True, blk')
          \<longrightarrow> dir_wf blk' \<and> dir_map blk' = (dir_map blk)(name := None))
    \<and> (\<forall>blk'. retarget blk name ino = Ok (True, blk')
          \<longrightarrow> dir_wf blk' \<and> (\<exists>i ft. dir_map blk name = Some (i, ft) \<and> dir_map blk' = (dir_map blk)(name \<mapsto> (ino, ft))))
    \<and> only_dots blk = Ok (dom (dir_map blk) \<subseteq> {[0x2E], [0x2E, 0x2E]})"
  using find_entry_map [OF assms(1)] insert_entry_map [OF assms(1) _ assms(2)] remove_entry_map [OF assms(1)]
    retarget_map [OF assms(1) _ assms(2)] only_dots_map [OF assms(1)]
  by blast

text \<open>
  C31. Inserting an absent name and removing it again gives back the same name map, and the removal always
  succeeds; in between, looking up the new name gives the new entry and every other name what it gave before.
\<close>
theorem dir_insert_remove:
  assumes "dir_wf blk" "dir_map blk name = None" "ino \<noteq> 0" "insert_entry blk ino ftype name = Ok (True, blk')"
  shows "(\<forall>n. res_map (map_option snd) (find_entry blk' n)
            = (if n = name then Ok (Some (ino, ftype)) else res_map (map_option snd) (find_entry blk n)))
    \<and> (\<exists>blk''. remove_entry blk' name = Ok (True, blk'') \<and> dir_wf blk'' \<and> dir_map blk'' = dir_map blk)"
  using dirblock.lookup_after_ins [OF assms(1,2), of "(ino, ftype)" blk']
    dirblock.ins_then_rem [OF assms(1,2), of "(ino, ftype)" blk'] assms(3,4)
  by simp

text \<open>The space a record offers to a new entry.\<close>

definition room :: "dirent \<Rightarrow> nat" where
  "room d = (if d_inode d = 0 then rec_len d else rec_len d - align4 (DIRENT_HDR + length (d_name d)))"

lemma insert_loop_fst: "fst (insert_loop blk ino ftype name needed ds) \<longleftrightarrow> (\<exists>d\<in>set ds. needed \<le> room d)"
  by (induction ds) (auto simp: Let_def room_def)

lemma chain_sum: "chain blk off ds e \<Longrightarrow> off + sum_list (map rec_len ds) = e"
proof (induction ds arbitrary: off)
  case (Cons d ds)
  then have "off + rec_len d + sum_list (map rec_len ds) = e" by simp
  then show ?case by simp
qed simp

lemma chain_recs: "chain blk off ds e \<Longrightarrow> d \<in> set ds \<Longrightarrow> rec_at blk (d_offset d) d"
  by (induction ds arbitrary: off) (auto simp: rec_at_bounds)

lemma parse_from_total: "is_ok (parse_from blk off) \<or> parse_from blk off = Err Corrupt"
proof (induction blk off rule: parse_from.induct)
  case (1 blk off)
  show ?case
  proof (cases "off < BLOCK_SIZE \<and> off + DIRENT_HDR \<le> BLOCK_SIZE \<and> \<not> dirent_bad blk off")
    case True
    then have "parse_from blk off = res_map ((#) (dirent_at blk off)) (parse_from blk (off + rec_len (dirent_at blk off)))"
      by (subst parse_from.simps) (simp add: Let_def)
    moreover have "is_ok (parse_from blk (off + rec_len (dirent_at blk off)))
        \<or> parse_from blk (off + rec_len (dirent_at blk off)) = Err Corrupt"
      using True by (intro 1) simp_all
    ultimately show ?thesis by (cases "parse_from blk (off + rec_len (dirent_at blk off))") simp_all
  next
    case False
    then show ?thesis by (subst (1 2) parse_from.simps) auto
  qed
qed

text \<open>
  C32. \<^verbatim>\<open>parse_block\<close> enforces DIR-1: it either reports \<^verbatim>\<open>Corrupt\<close> or returns records that
  partition the 4096 bytes, are 4-byte aligned, hold their names and name every live entry.  On a block it
  accepts, \<^verbatim>\<open>insert\<close> is \<^verbatim>\<open>Invalid\<close> exactly for an empty or over-long name and refuses a
  valid name exactly when neither a hole nor the slack of a live record has room.
\<close>
theorem parse_block_dir1:
  assumes "length blk = BLOCK_SIZE"
  shows "parse_block blk = Err Corrupt \<or>
    (\<exists>ds. parse_block blk = Ok ds \<and> sum_list (map rec_len ds) = BLOCK_SIZE
      \<and> list_all (\<lambda>d. rec_len d mod 4 = 0 \<and> DIRENT_HDR + length (d_name d) \<le> rec_len d
                  \<and> (d_inode d = 0 \<or> d_name d \<noteq> [])) ds
      \<and> insert_entry blk ino ftype name =
          (if name = [] \<or> NAME_MAX < length name then Err Invalid
           else Ok (insert_loop blk ino ftype name (align4 (DIRENT_HDR + length name)) ds))
      \<and> (fst (insert_loop blk ino ftype name (align4 (DIRENT_HDR + length name)) ds)
          \<longleftrightarrow> (\<exists>d\<in>set ds. align4 (DIRENT_HDR + length name) \<le> room d)))"
proof (cases "parse_block blk")
  case (Ok ds)
  then have c: "chain blk 0 ds BLOCK_SIZE" by (simp add: parse_block_chain)
  have "rec_len d mod 4 = 0 \<and> DIRENT_HDR + length (d_name d) \<le> rec_len d \<and> (d_inode d = 0 \<or> d_name d \<noteq> [])"
    if "d \<in> set ds" for d
    using rec_at_bounds [OF chain_recs [OF c that]] rec_at_fields(6) [OF chain_recs [OF c that] assms] by blast
  then have "list_all (\<lambda>d. rec_len d mod 4 = 0 \<and> DIRENT_HDR + length (d_name d) \<le> rec_len d
      \<and> (d_inode d = 0 \<or> d_name d \<noteq> [])) ds" unfolding list_all_iff by blast
  with Ok chain_sum [OF c] show ?thesis
    by (simp only: insert_loop_fst) (simp add: insert_entry_def)
qed (use parse_from_total [of blk 0] in \<open>simp_all add: parse_block_def\<close>)

section \<open>Concrete blocks\<close>

definition demo_dir :: bytes where
  "demo_dir = init_empty (replicate BLOCK_SIZE 0)"

lemma demo_dir_parse:
  "parse_block demo_dir = Ok [\<lparr>d_offset = 0, d_inode = 0, rec_len = BLOCK_SIZE, file_type = 0, d_name = []\<rparr>]"
  unfolding demo_dir_def by (rule init_empty_parse) simp

lemma demo_dir_wf: "dir_wf demo_dir" "dir_map demo_dir = Map.empty" "length demo_dir = BLOCK_SIZE"
proof -
  show l: "length demo_dir = BLOCK_SIZE" by (simp add: demo_dir_def init_empty_def BLOCK_SIZE_def)
  show "dir_wf demo_dir" "dir_map demo_dir = Map.empty"
    by (simp_all add: dir_wf_def dir_map_def dir_entries_def demo_dir_parse l entries_def)
qed

lemma demo_dir_insert:
  "insert_entry demo_dir 12 FT_REG [0x61] = Ok (True, write_entry demo_dir 0 BLOCK_SIZE 12 FT_REG [0x61])"
  by (simp add: insert_entry_def demo_dir_parse NAME_MAX_def DIRENT_HDR_def align4_def BLOCK_SIZE_def)

theorem dir_block_refines_witness:
  "dir_wf (write_entry demo_dir 0 BLOCK_SIZE 12 FT_REG [0x61])
   \<and> dir_map (write_entry demo_dir 0 BLOCK_SIZE 12 FT_REG [0x61]) = [[0x61] \<mapsto> (12, FT_REG)]"
  using dir_block_refines [OF demo_dir_wf(1), of 12 "[0x61]" FT_REG] demo_dir_insert demo_dir_wf(2) by simp

theorem dir_insert_remove_witness:
  "\<exists>blk''. remove_entry (write_entry demo_dir 0 BLOCK_SIZE 12 FT_REG [0x61]) [0x61] = Ok (True, blk'')
     \<and> dir_map blk'' = Map.empty"
  using dir_insert_remove [OF demo_dir_wf(1) _ _ demo_dir_insert] demo_dir_wf(2) by auto

theorem parse_block_dir1_witness:
  "length demo_dir = BLOCK_SIZE \<and> is_ok (parse_block demo_dir)"
  using parse_block_dir1 [OF demo_dir_wf(3)] demo_dir_wf(3) by (auto simp: demo_dir_parse)

end
