(* ===== verification/Rfs_Fs.thy ===== *)
theory Rfs_Fs
  imports Rfs_Space Rfs_Dirent
begin

text \<open>
  The mounted filesystem (\<^verbatim>\<open>fs/rfs2/src/fs.rs\<close>), first half: the state \<^verbatim>\<open>Rfs2\<close>, block
  allocation, the copy-on-write primitive, commit, per-operation rollback, and the two radix trees (inode map and
  block maps).  Methods on \<^verbatim>\<open>&mut self\<close> are state-and-result functions over the record \<open>rfs2\<close>; a
  \<^verbatim>\<open>BTreeSet\<close> is a set and iterating it is iterating the sorted list of its elements.  A method that
  updates an \<^verbatim>\<open>&mut Inode\<close> returns the updated inode.
\<close>

section \<open>State\<close>

record 'w rfs2 =
  dev :: 'w
  header :: static_header
  read_only :: bool
  sb :: superblock
  cur_slot :: u64
  live_cur :: bitmap
  live_prev :: bitmap
  block_count_mismatch :: bool
  staged_root :: block_ptr
  staged_height :: u64
  staged_next_inode :: u64
  staged_inode_count :: u64
  dirty :: bool
  fresh :: "u64 set"
  dropped_fresh :: "u64 set"
  retired :: "u64 set"
  op_fresh :: "u64 list"
  alloc_cursor :: u64
  pins :: "u64 \<Rightarrow> u32 option"

type_synonym ('w, 'a) fsm = "('w rfs2, rfs_error, 'a) sm"

definition devS :: "('w, rfs_error, 'a) sm \<Rightarrow> ('w, 'a) fsm" where
  "devS m s = (let (r, w) = m (dev s) in (r, s\<lparr>dev := w\<rparr>))"

definition nowS :: "'w env \<Rightarrow> ('w, u64) fsm" where
  "nowS E s = (let (t, w) = clock E (dev s) in (Ok t, s\<lparr>dev := w\<rparr>))"

section \<open>Radix geometry\<close>

text \<open>\<^verbatim>\<open>128u64.checked_pow(e)\<close>: 128 to the 9th is the largest power that fits.\<close>

definition checked_pow128 :: "u32 \<Rightarrow> u64 option" where
  "checked_pow128 e = (if unat e < 10 then Some (128 ^ unat e) else None)"

definition imap_capacity :: "u64 \<Rightarrow> u64" where
  "imap_capacity height = (case checked_pow128 (ucast height) of
     Some v \<Rightarrow> if unat v * INODES_PER_LEAF < 2 ^ 64 then v * of_nat INODES_PER_LEAF else - 1
   | None \<Rightarrow> - 1)"

definition bmap_capacity :: "u64 \<Rightarrow> u64" where
  "bmap_capacity height = (if height = 0 then 1 else
     case checked_pow128 (ucast height) of Some v \<Rightarrow> v | None \<Rightarrow> - 1)"

text \<open>A shift by 64 or more masks its amount in a release build.\<close>

definition imap_index :: "u64 \<Rightarrow> u64 \<Rightarrow> nat" where
  "imap_index ino level = unat (drop_bit (unat (5 + 7 * (level - 1)) mod 64) ino AND 0x7F)"

definition bmap_index :: "u64 \<Rightarrow> u64 \<Rightarrow> nat" where
  "bmap_index l level = unat (drop_bit (unat (7 * (level - 1)) mod 64) l AND 0x7F)"

definition set_ptr_at :: "bytes \<Rightarrow> nat \<Rightarrow> block_ptr \<Rightarrow> bytes" where
  "set_ptr_at buf idx ptr = splice buf (idx * BLOCK_PTR_SIZE) (ptr_to_bytes ptr)"

section \<open>Allocation and the copy-on-write primitive\<close>

definition txn_gen :: "'w rfs2 \<Rightarrow> u64" where
  "txn_gen s = sb_gen (sb s) + 1"

text \<open>The loop of \<^verbatim>\<open>alloc_block\<close> from index \<open>i\<close> with \<open>n\<close> rounds left.\<close>

fun alloc_scan :: "'w rfs2 \<Rightarrow> u64 \<Rightarrow> u64 \<Rightarrow> nat \<Rightarrow> (rfs_error, (u64 \<times> u64) option) res" where
  "alloc_scan s span i 0 = Ok None"
| "alloc_scan s span i (Suc n) =
     (let b = FIRST_DATA_BLOCK + (alloc_cursor s + i) mod span in
      res_bind (bm_get (live_cur s) b) (\<lambda>lc.
        if lc then alloc_scan s span (i + 1) n
        else res_bind (bm_get (live_prev s) b) (\<lambda>lp.
          if lp \<or> b \<in> fresh s then alloc_scan s span (i + 1) n else Ok (Some (i, b)))))"

definition alloc_block :: "('w, u64) fsm" where
  "alloc_block s =
     (let span = h_total_blocks (header s) - FIRST_DATA_BLOCK in
      case alloc_scan s span 0 (unat span) of
        Ok None \<Rightarrow> (Err NoSpace, s)
      | Ok (Some (i, b)) \<Rightarrow>
          (Ok b, s\<lparr>alloc_cursor := (alloc_cursor s + i + 1) mod span, fresh := insert b (fresh s),
                   op_fresh := op_fresh s @ [b]\<rparr>)
      | Err e \<Rightarrow> (Err e, s)
      | Panic \<Rightarrow> (Panic, s))"

definition write_fresh :: "'w env \<Rightarrow> bytes \<Rightarrow> ('w, block_ptr) fsm" where
  "write_fresh E buf =
     bindS alloc_block (\<lambda>b.
     bindS (getS txn_gen) (\<lambda>g.
     let (tg, c) = encrypt_block E b g (dyn_aad b g) buf in
     bindS (devS (dev_write E b c)) (\<lambda>_.
     bindS (modS (\<lambda>s. s\<lparr>dirty := True\<rparr>)) (\<lambda>_.
     retS \<lparr>block = b, gen = g, tag = tg\<rparr>))))"

definition retire :: "block_ptr \<Rightarrow> 'w rfs2 \<Rightarrow> 'w rfs2" where
  "retire ptr s =
     (if is_null ptr then s
      else if block ptr \<in> fresh s then s\<lparr>dropped_fresh := insert (block ptr) (dropped_fresh s)\<rparr>
      else s\<lparr>retired := insert (block ptr) (retired s)\<rparr>)"

definition read_ptrS :: "'w env \<Rightarrow> block_ptr \<Rightarrow> ('w, bytes) fsm" where
  "read_ptrS E ptr = devS (read_ptr E ptr)"

section \<open>Commit\<close>

fun clear_all :: "u64 list \<Rightarrow> bitmap \<Rightarrow> (rfs_error, bitmap) res" where
  "clear_all [] bm = Ok bm"
| "clear_all (b # bs) bm = res_bind (bm_clear bm b) (clear_all bs)"

fun set_all :: "u64 list \<Rightarrow> bitmap \<Rightarrow> (rfs_error, bitmap) res" where
  "set_all [] bm = Ok bm"
| "set_all (b # bs) bm = res_bind (bm_set bm b) (\<lambda>(prev, bm'). set_all bs bm')"

text \<open>\<^verbatim>\<open>live_new\<close>: the committed set without the superseded blocks, with the kept fresh ones.\<close>

definition next_live :: "'w rfs2 \<Rightarrow> (rfs_error, bitmap) res" where
  "next_live s = res_bind (clear_all (sorted_list_of_set (retired s)) (live_cur s))
     (set_all (filter (\<lambda>b. b \<notin> dropped_fresh s) (sorted_list_of_set (fresh s))))"

definition next_sb :: "'w rfs2 \<Rightarrow> bitmap \<Rightarrow> u64 \<Rightarrow> superblock" where
  "next_sb s live_new now = \<lparr>sb_gen = txn_gen s, sb_total_blocks = h_total_blocks (header s),
     inode_map_root = staged_root s, inode_map_height = staged_height s, next_inode = staged_next_inode s,
     inode_count = staged_inode_count s, block_count = bm_count live_new, commit_time = now,
     sb_uuid = h_uuid (header s)\<rparr>"

definition other_slot :: "u64 \<Rightarrow> u64" where
  "other_slot slot = (if slot = SB_SLOT_A then SB_SLOT_B else SB_SLOT_A)"

text \<open>The rotation of the live trees after the flip.\<close>

definition rotate :: "superblock \<Rightarrow> bitmap \<Rightarrow> 'w rfs2 \<Rightarrow> 'w rfs2" where
  "rotate sbn live_new s = s\<lparr>live_prev := live_cur s, live_cur := live_new, sb := sbn,
     cur_slot := other_slot (cur_slot s), fresh := {}, dropped_fresh := {}, retired := {}, op_fresh := [],
     dirty := False\<rparr>"

definition commit :: "'w env \<Rightarrow> ('w, unit) fsm" where
  "commit E = bindS (getS (\<lambda>s. s)) (\<lambda>s0.
     if \<not> dirty s0 then retS ()
     else if sb_gen (sb s0) \<ge> GEN_LIMIT then failS GenExhausted
     else bindS (devS (dev_flush E)) (\<lambda>_.
          bindS (liftS (next_live s0)) (\<lambda>live_new.
          bindS (nowS E) (\<lambda>now.
          let sbn = next_sb s0 live_new now in
          bindS (devS (write_slot E (other_slot (cur_slot s0)) sbn)) (\<lambda>_.
          bindS (devS (dev_flush E)) (\<lambda>_.
          modS (rotate sbn live_new)))))))"

section \<open>Rollback\<close>

record op_snapshot =
  os_root :: block_ptr
  os_height :: u64
  os_next_inode :: u64
  os_inode_count :: u64
  os_dirty :: bool
  os_retired :: "u64 set"

definition begin_op :: "('w, op_snapshot) fsm" where
  "begin_op s = (Ok \<lparr>os_root = staged_root s, os_height = staged_height s, os_next_inode = staged_next_inode s,
      os_inode_count = staged_inode_count s, os_dirty = dirty s, os_retired = retired s\<rparr>, s\<lparr>op_fresh := []\<rparr>)"

definition fail_op :: "op_snapshot \<Rightarrow> 'w rfs2 \<Rightarrow> 'w rfs2" where
  "fail_op snap s = s\<lparr>staged_root := os_root snap, staged_height := os_height snap,
     staged_next_inode := os_next_inode snap, staged_inode_count := os_inode_count snap, dirty := os_dirty snap,
     retired := os_retired snap, op_fresh := [], dropped_fresh := dropped_fresh s \<union> set (op_fresh s)\<rparr>"

definition check_rw :: "('w, unit) fsm" where
  "check_rw s = (if read_only s then (Err ReadOnly, s)
     else if sb_gen (sb s) \<ge> GEN_LIMIT then (Err GenExhausted, s) else (Ok (), s))"

text \<open>The frame every mutating operation has around its inner function: snapshot, then clear the log or roll
  back.\<close>

definition with_rollback :: "('w, 'a) fsm \<Rightarrow> ('w, 'a) fsm" where
  "with_rollback inner = bindS begin_op (\<lambda>snap s. case inner s of
     (Ok v, s') \<Rightarrow> (Ok v, s'\<lparr>op_fresh := []\<rparr>)
   | (Err e, s') \<Rightarrow> (Err e, fail_op snap s')
   | (Panic, s') \<Rightarrow> (Panic, s'))"

definition run_op :: "('w, 'a) fsm \<Rightarrow> ('w, 'a) fsm" where
  "run_op inner = bindS check_rw (\<lambda>_. with_rollback inner)"

section \<open>Inode map\<close>

definition leaf_slot :: "u64 \<Rightarrow> nat" where
  "leaf_slot ino = unat (ino AND 31) * INODE_SIZE"

text \<open>The descent of \<^verbatim>\<open>imap_get\<close> from a node at the given level.\<close>

primrec imap_walk :: "nat \<Rightarrow> 'w env \<Rightarrow> u64 \<Rightarrow> block_ptr \<Rightarrow> ('w, inode option) fsm" where
  "imap_walk 0 E ino ptr =
     (if is_null ptr then retS None
      else bindS (read_ptrS E ptr) (\<lambda>buf.
           let i = inode_decode (slice buf (leaf_slot ino) INODE_SIZE) in
           retS (if is_used i then Some i else None)))"
| "imap_walk (Suc l) E ino ptr =
     (if is_null ptr then retS None
      else bindS (read_ptrS E ptr) (\<lambda>buf. imap_walk l E ino (ptr_at buf (imap_index ino (of_nat (Suc l))))))"

definition imap_get :: "'w env \<Rightarrow> u64 \<Rightarrow> ('w, inode option) fsm" where
  "imap_get E ino = bindS (getS (\<lambda>s. s)) (\<lambda>s.
     if ino \<ge> imap_capacity (staged_height s) then retS None
     else imap_walk (unat (staged_height s)) E ino (staged_root s))"

definition get_inode_req :: "'w env \<Rightarrow> u64 \<Rightarrow> ('w, inode) fsm" where
  "get_inode_req E ino = bindS (imap_get E ino) (\<lambda>r. liftS (ok_or NotFound r))"

definition zero_block :: bytes where
  "zero_block = replicate BLOCK_SIZE 0"

text \<open>
  The growth loop, with \<open>n\<close> rounds of fuel.  Every round takes a block of the volume that no earlier round of
  this generation took, so one round more than the volume has blocks is never used up; the exhausted branch is
  the value \<open>Panic\<close>; the theory \<open>Rfs_Cow\<close> shows that neither growth loop ends that way.
\<close>

primrec grow_loop :: "nat \<Rightarrow> 'w env \<Rightarrow> u64 \<Rightarrow> ('w, unit) fsm" where
  "grow_loop 0 E ino = liftS Panic"
| "grow_loop (Suc n) E ino = bindS (getS (\<lambda>s. s)) (\<lambda>s.
     if ino \<ge> imap_capacity (staged_height s)
     then bindS (write_fresh E (set_ptr_at zero_block 0 (staged_root s))) (\<lambda>root.
          bindS (modS (\<lambda>s. s\<lparr>staged_root := root, staged_height := staged_height s + 1\<rparr>)) (\<lambda>_.
          grow_loop n E ino))
     else retS ())"

definition loop_fuel :: "'w rfs2 \<Rightarrow> nat" where
  "loop_fuel s = Suc (unat (h_total_blocks (header s)))"

definition grow_imap :: "'w env \<Rightarrow> u64 \<Rightarrow> ('w, unit) fsm" where
  "grow_imap E ino = bindS (getS loop_fuel) (\<lambda>n. grow_loop n E ino)"

text \<open>The buffer of a node to be rewritten: its plaintext, or zeros for a node that does not exist yet.\<close>

definition node_buf :: "'w env \<Rightarrow> block_ptr \<Rightarrow> ('w, bytes) fsm" where
  "node_buf E ptr = (if is_null ptr then retS zero_block else read_ptrS E ptr)"

primrec imap_set_rec :: "nat \<Rightarrow> 'w env \<Rightarrow> block_ptr \<Rightarrow> u64 \<Rightarrow> bytes \<Rightarrow> ('w, block_ptr) fsm" where
  "imap_set_rec 0 E ptr ino bs =
     bindS (node_buf E ptr) (\<lambda>buf.
     bindS (modS (retire ptr)) (\<lambda>_.
     write_fresh E (splice buf (leaf_slot ino) bs)))"
| "imap_set_rec (Suc l) E ptr ino bs =
     bindS (node_buf E ptr) (\<lambda>buf.
     bindS (modS (retire ptr)) (\<lambda>_.
     let idx = imap_index ino (of_nat (Suc l)) in
     bindS (imap_set_rec l E (ptr_at buf idx) ino bs) (\<lambda>new_child.
     write_fresh E (set_ptr_at buf idx new_child))))"

definition imap_set :: "'w env \<Rightarrow> u64 \<Rightarrow> inode \<Rightarrow> ('w, unit) fsm" where
  "imap_set E ino i =
     bindS (grow_imap E ino) (\<lambda>_.
     bindS (getS (\<lambda>s. s)) (\<lambda>s.
     bindS (imap_set_rec (unat (staged_height s)) E (staged_root s) ino (inode_encode i)) (\<lambda>root.
     modS (\<lambda>s. s\<lparr>staged_root := root\<rparr>))))"

definition alloc_ino :: "('w, u64) fsm" where
  "alloc_ino s = (let ino = max (staged_next_inode s) FIRST_GENERAL_INO in
     (Ok ino, s\<lparr>staged_next_inode := ino + 1\<rparr>))"

section \<open>Block maps\<close>

text \<open>The loop of \<^verbatim>\<open>bmap_get\<close> over the levels from the given one down to 1.\<close>

primrec bmap_walk :: "nat \<Rightarrow> 'w env \<Rightarrow> u64 \<Rightarrow> block_ptr \<Rightarrow> ('w, block_ptr) fsm" where
  "bmap_walk 0 E l ptr = retS ptr"
| "bmap_walk (Suc n) E l ptr =
     (if is_null ptr then retS ptr_null
      else bindS (read_ptrS E ptr) (\<lambda>buf. bmap_walk n E l (ptr_at buf (bmap_index l (of_nat (Suc n))))))"

definition bmap_get :: "'w env \<Rightarrow> inode \<Rightarrow> u64 \<Rightarrow> ('w, block_ptr) fsm" where
  "bmap_get E i l =
     (let h = ucast (bmap_height i) :: u64 in
      if is_null (bmap_root i) \<or> l \<ge> bmap_capacity h then retS ptr_null
      else if h = 0 then retS (bmap_root i)
      else bmap_walk (unat h) E l (bmap_root i))"

primrec bmap_grow :: "nat \<Rightarrow> 'w env \<Rightarrow> u64 \<Rightarrow> inode \<Rightarrow> ('w, inode) fsm" where
  "bmap_grow 0 E l i = liftS Panic"
| "bmap_grow (Suc n) E l i =
     (if l \<ge> bmap_capacity (ucast (bmap_height i))
      then bindS (write_fresh E (set_ptr_at zero_block 0 (bmap_root i))) (\<lambda>root.
           bmap_grow n E l (i\<lparr>bmap_root := root, bmap_height := bmap_height i + 1\<rparr>))
      else retS i)"

primrec bmap_set_rec :: "nat \<Rightarrow> 'w env \<Rightarrow> block_ptr \<Rightarrow> u64 \<Rightarrow> block_ptr \<Rightarrow> ('w, block_ptr) fsm" where
  "bmap_set_rec 0 E ptr l new =
     bindS (node_buf E ptr) (\<lambda>buf.
     bindS (modS (retire ptr)) (\<lambda>_.
     let idx = bmap_index l 1 in
     bindS (modS (retire (ptr_at buf idx))) (\<lambda>_.
     write_fresh E (set_ptr_at buf idx new))))"
| "bmap_set_rec (Suc n) E ptr l new =
     bindS (node_buf E ptr) (\<lambda>buf.
     bindS (modS (retire ptr)) (\<lambda>_.
     let idx = bmap_index l (of_nat (n + 2)) in
     bindS (bmap_set_rec n E (ptr_at buf idx) l new) (\<lambda>new_child.
     write_fresh E (set_ptr_at buf idx new_child))))"

text \<open>\<open>bmap_set_rec n\<close> is the recursion at level \<open>n + 1\<close>: level 1 is the one that holds data pointers.\<close>

definition bmap_set :: "'w env \<Rightarrow> inode \<Rightarrow> u64 \<Rightarrow> block_ptr \<Rightarrow> ('w, inode) fsm" where
  "bmap_set E i0 l new =
     bindS (getS loop_fuel) (\<lambda>n.
     bindS (bmap_grow n E l i0) (\<lambda>i.
     if bmap_height i = 0
     then bindS (modS (retire (bmap_root i))) (\<lambda>_. retS (i\<lparr>bmap_root := new\<rparr>))
     else bindS (bmap_set_rec (unat (bmap_height i) - 1) E (bmap_root i) l new) (\<lambda>root.
          retS (i\<lparr>bmap_root := root\<rparr>))))"

primrec retire_bmap :: "nat \<Rightarrow> 'w env \<Rightarrow> block_ptr \<Rightarrow> ('w, unit) fsm" where
  "retire_bmap 0 E ptr = (if is_null ptr then retS () else modS (retire ptr))"
| "retire_bmap (Suc h) E ptr =
     (if is_null ptr then retS ()
      else bindS (read_ptrS E ptr) (\<lambda>buf.
           bindS (forS [0..<FANOUT] (\<lambda>i.
              let child = ptr_at buf i in whenS (\<not> is_null child) (retire_bmap h E child))) (\<lambda>_.
           modS (retire ptr))))"

definition free_inode :: "'w env \<Rightarrow> u64 \<Rightarrow> inode \<Rightarrow> ('w, unit) fsm" where
  "free_inode E ino i =
     bindS (whenS (\<not> is_fast_symlink i) (retire_bmap (unat (bmap_height i)) E (bmap_root i))) (\<lambda>_.
     bindS (imap_set E ino inode_free) (\<lambda>_.
     modS (\<lambda>s. s\<lparr>staged_inode_count := staged_inode_count s - 1\<rparr>)))"

definition drop_link :: "'w env \<Rightarrow> u64 \<Rightarrow> inode \<Rightarrow> u64 \<Rightarrow> ('w, unit) fsm" where
  "drop_link E ino i0 now =
     (let i = i0\<lparr>nlink := nlink i0 - 1\<rparr> in
      bindS (getS (\<lambda>s. s)) (\<lambda>s.
      if nlink i = 0 \<and> pins s ino = None then free_inode E ino i
      else imap_set E ino (i\<lparr>ctime := now, inode_gen := txn_gen s\<rparr>)))"

end
