(* ===== verification/Rfs_Ops.thy ===== *)
theory Rfs_Ops
  imports Rfs_Fs
begin

text \<open>
  The mounted filesystem (\<^verbatim>\<open>fs/rfs2/src/fs.rs\<close>), second half: file I/O, directories, path
  resolution, every public operation, \<^verbatim>\<open>mkfs\<close> and \<^verbatim>\<open>mount\<close>.  A \<^verbatim>\<open>&str\<close> is the
  list of its bytes.
\<close>

section \<open>File I/O\<close>

text \<open>
  The loop of \<^verbatim>\<open>read_blocks\<close>: \<open>acc\<close> is the part of \<^verbatim>\<open>out\<close> filled so far.  The positions
  never pass \<^verbatim>\<open>end\<close>, so they are natural numbers here.
\<close>

function read_loop :: "'w env \<Rightarrow> inode \<Rightarrow> nat \<Rightarrow> nat \<Rightarrow> bytes \<Rightarrow> ('w, bytes) fsm" where
  "read_loop E i fin pos acc s =
     (if pos < fin
      then let boff = pos mod BLOCK_SIZE; n = min (BLOCK_SIZE - boff) (fin - pos) in
           bindS (bmap_get E i (of_nat (pos div BLOCK_SIZE))) (\<lambda>ptr s.
             if is_null ptr then read_loop E i fin (pos + n) (acc @ replicate n 0) s
             else bindS (read_ptrS E ptr) (\<lambda>buf s.
                    read_loop E i fin (pos + n) (acc @ slice buf boff n) s) s) s
      else (Ok acc, s))"
  by pat_completeness auto
termination read_loop
proof (relation "measure (\<lambda>(_, _, fin, pos, _, _). fin - pos)", goal_cases)
  case (2 E i fin pos acc s boff n ptr t)
  then show ?case by (simp add: BLOCK_SIZE_def) linarith
next
  case (3 E i fin pos acc s boff n ptr t buf t')
  then show ?case by (simp add: BLOCK_SIZE_def) linarith
qed simp

declare read_loop.simps [simp del]

definition read_blocks :: "'w env \<Rightarrow> inode \<Rightarrow> u64 \<Rightarrow> bytes \<Rightarrow> ('w, nat \<times> bytes) fsm" where
  "read_blocks E i off out =
     (if off \<ge> isize i then retS (0, out)
      else let fin = min (isize i) (off + of_nat (length out)) in
           bindS (read_loop E i (unat fin) (unat off) []) (\<lambda>acc.
             retS (unat (fin - off), acc @ drop (length acc) out)))"

definition read_at :: "'w env \<Rightarrow> u64 \<Rightarrow> u64 \<Rightarrow> bytes \<Rightarrow> ('w, nat \<times> bytes) fsm" where
  "read_at E ino off out =
     bindS (get_inode_req E ino) (\<lambda>i.
     if is_dir i then failS IsDir
     else if \<not> is_reg i then failS Invalid
     else read_blocks E i off out)"

text \<open>The loop of \<^verbatim>\<open>write_blocks\<close> at position \<open>pos\<close> of \<^verbatim>\<open>data\<close>.\<close>

function write_loop :: "'w env \<Rightarrow> inode \<Rightarrow> u64 \<Rightarrow> bytes \<Rightarrow> nat \<Rightarrow> ('w, inode) fsm" where
  "write_loop E i off bs pos s =
     (if pos < length bs
      then let at = off + of_nat pos; l = at div 4096; boff = unat (at mod 4096);
               n = min (BLOCK_SIZE - boff) (length bs - pos) in
           bindS (bmap_get E i l) (\<lambda>old.
           bindS (if n < BLOCK_SIZE \<and> \<not> is_null old then read_ptrS E old else retS zero_block) (\<lambda>buf.
           bindS (write_fresh E (splice buf boff (slice bs pos n))) (\<lambda>ptr.
           bindS (bmap_set E (if is_null old then i\<lparr>iblocks := iblocks i + 1\<rparr> else i) l ptr) (\<lambda>i' s.
           write_loop E i' off bs (pos + n) s)))) s
      else (Ok i, s))"
  by pat_completeness auto
termination write_loop
proof (relation "measure (\<lambda>(_, _, _, bs, pos, _). length bs - pos)", goal_cases)
  case (2 E i off bs pos s at' l boff n)
  have "boff < 4096" unfolding 2(4) by (simp add: unat_mod)
  then have "0 < n" using 2(1,5) by (simp add: BLOCK_SIZE_def)
  then show ?case using 2(1) by simp
qed simp

declare write_loop.simps [simp del]

definition write_blocks :: "'w env \<Rightarrow> inode \<Rightarrow> u64 \<Rightarrow> bytes \<Rightarrow> ('w, inode) fsm" where
  "write_blocks E i off bs = write_loop E i off bs 0"

definition write_at_inner :: "'w env \<Rightarrow> u64 \<Rightarrow> u64 \<Rightarrow> bytes \<Rightarrow> ('w, unit) fsm" where
  "write_at_inner E ino off bs =
     bindS (get_inode_req E ino) (\<lambda>i.
     if is_dir i then failS IsDir
     else if \<not> is_reg i then failS Invalid
     else bindS (write_blocks E i off bs) (\<lambda>i.
          bindS (nowS E) (\<lambda>now.
          bindS (getS txn_gen) (\<lambda>g.
          imap_set E ino (i\<lparr>isize := max (isize i) (off + of_nat (length bs)), mtime := now, ctime := now,
                            inode_gen := g\<rparr>)))))"

definition write_at :: "'w env \<Rightarrow> u64 \<Rightarrow> u64 \<Rightarrow> bytes \<Rightarrow> ('w, unit) fsm" where
  "write_at E ino off bs = run_op (write_at_inner E ino off bs)"

definition div_ceil :: "u64 \<Rightarrow> u64 \<Rightarrow> u64" where
  "div_ceil a b = a div b + (if a mod b = 0 then 0 else 1)"

text \<open>The loop of \<^verbatim>\<open>truncate_inner\<close> over the logical blocks that are cut off.\<close>

primrec cut_loop :: "u64 list \<Rightarrow> 'w env \<Rightarrow> inode \<Rightarrow> ('w, inode) fsm" where
  "cut_loop [] E i = retS i"
| "cut_loop (l # ls) E i =
     bindS (bmap_get E i l) (\<lambda>old.
     if is_null old then cut_loop ls E i
     else bindS (bmap_set E i l ptr_null) (\<lambda>i'. cut_loop ls E (i'\<lparr>iblocks := iblocks i' - 1\<rparr>)))"

definition cut_tail :: "'w env \<Rightarrow> inode \<Rightarrow> u64 \<Rightarrow> ('w, inode) fsm" where
  "cut_tail E i new_size =
     (let tail = unat (new_size mod 4096); l = new_size div 4096 in
      if tail = 0 then retS i
      else bindS (bmap_get E i l) (\<lambda>old.
           if is_null old then retS i
           else bindS (read_ptrS E old) (\<lambda>buf.
                bindS (write_fresh E (take tail buf @ replicate (length buf - tail) 0)) (\<lambda>ptr.
                bmap_set E i l ptr))))"

definition truncate_inner :: "'w env \<Rightarrow> u64 \<Rightarrow> u64 \<Rightarrow> ('w, unit) fsm" where
  "truncate_inner E ino new_size =
     bindS (get_inode_req E ino) (\<lambda>i.
     if is_dir i then failS IsDir
     else if \<not> is_reg i then failS Invalid
     else bindS (if new_size < isize i
                 then if new_size = 0
                      then bindS (retire_bmap (unat (bmap_height i)) E (bmap_root i)) (\<lambda>_.
                           retS (i\<lparr>bmap_root := ptr_null, bmap_height := 0, iblocks := 0\<rparr>))
                      else bindS (cut_loop (map of_nat [unat (div_ceil new_size 4096)..<unat (div_ceil (isize i) 4096)]) E i)
                             (\<lambda>i. cut_tail E i new_size)
                 else retS i) (\<lambda>i.
          bindS (nowS E) (\<lambda>now.
          bindS (getS txn_gen) (\<lambda>g.
          imap_set E ino (i\<lparr>isize := new_size, mtime := now, ctime := now, inode_gen := g\<rparr>)))))"

definition truncate_file :: "'w env \<Rightarrow> u64 \<Rightarrow> u64 \<Rightarrow> ('w, unit) fsm" where
  "truncate_file E ino new_size = run_op (truncate_inner E ino new_size)"

section \<open>Directories\<close>

definition dir_blocks :: "inode \<Rightarrow> u64 list" where
  "dir_blocks d = map of_nat [0..<unat (isize d div 4096)]"

text \<open>What every loop over a directory starts with: the block at \<open>l\<close>, which is never a hole.\<close>

definition dir_block :: "'w env \<Rightarrow> inode \<Rightarrow> u64 \<Rightarrow> ('w, bytes) fsm" where
  "dir_block E d l = bindS (bmap_get E d l) (\<lambda>ptr. if is_null ptr then failS Corrupt else read_ptrS E ptr)"

primrec dir_lookup_loop :: "u64 list \<Rightarrow> 'w env \<Rightarrow> inode \<Rightarrow> bytes \<Rightarrow> ('w, (u64 \<times> u8) option) fsm" where
  "dir_lookup_loop [] E d name = retS None"
| "dir_lookup_loop (l # ls) E d name =
     bindS (dir_block E d l) (\<lambda>buf.
     bindS (liftS (find_entry buf name)) (\<lambda>r.
     case r of Some (_, ino, ft) \<Rightarrow> retS (Some (ino, ft)) | None \<Rightarrow> dir_lookup_loop ls E d name))"

definition dir_lookup :: "'w env \<Rightarrow> inode \<Rightarrow> bytes \<Rightarrow> ('w, (u64 \<times> u8) option) fsm" where
  "dir_lookup E d name = dir_lookup_loop (dir_blocks d) E d name"

definition dir_write_block :: "'w env \<Rightarrow> inode \<Rightarrow> u64 \<Rightarrow> bytes \<Rightarrow> ('w, inode) fsm" where
  "dir_write_block E d l buf = bindS (write_fresh E buf) (\<lambda>ptr. bmap_set E d l ptr)"

primrec dir_add_loop :: "u64 list \<Rightarrow> 'w env \<Rightarrow> inode \<Rightarrow> bytes \<Rightarrow> u64 \<Rightarrow> u8 \<Rightarrow> ('w, inode option) fsm" where
  "dir_add_loop [] E d name ino ft = retS None"
| "dir_add_loop (l # ls) E d name ino ft =
     bindS (dir_block E d l) (\<lambda>buf.
     bindS (liftS (insert_entry buf ino ft name)) (\<lambda>(done, buf').
     if done then bindS (dir_write_block E d l buf') (\<lambda>d'. retS (Some d'))
     else dir_add_loop ls E d name ino ft))"

definition dir_add_entry :: "'w env \<Rightarrow> inode \<Rightarrow> bytes \<Rightarrow> u64 \<Rightarrow> u8 \<Rightarrow> ('w, inode) fsm" where
  "dir_add_entry E d name ino ft =
     bindS (dir_add_loop (dir_blocks d) E d name ino ft) (\<lambda>r.
     case r of
       Some d' \<Rightarrow> retS d'
     | None \<Rightarrow>
         bindS (liftS (insert_entry (init_empty zero_block) ino ft name)) (\<lambda>(done, buf).
         bindS (dir_write_block E d (isize d div 4096) buf) (\<lambda>d'.
         retS (d'\<lparr>isize := isize d' + 4096, iblocks := iblocks d' + 1\<rparr>))))"

primrec dir_remove_loop :: "u64 list \<Rightarrow> 'w env \<Rightarrow> inode \<Rightarrow> bytes \<Rightarrow> ('w, inode) fsm" where
  "dir_remove_loop [] E d name = failS NotFound"
| "dir_remove_loop (l # ls) E d name =
     bindS (dir_block E d l) (\<lambda>buf.
     bindS (liftS (remove_entry buf name)) (\<lambda>(done, buf').
     if done then dir_write_block E d l buf' else dir_remove_loop ls E d name))"

definition dir_remove_entry :: "'w env \<Rightarrow> inode \<Rightarrow> bytes \<Rightarrow> ('w, inode) fsm" where
  "dir_remove_entry E d name = dir_remove_loop (dir_blocks d) E d name"

definition check_dir_empty :: "'w env \<Rightarrow> inode \<Rightarrow> ('w, unit) fsm" where
  "check_dir_empty E d = forS (dir_blocks d) (\<lambda>l.
     bindS (dir_block E d l) (\<lambda>buf.
     bindS (liftS (only_dots buf)) (\<lambda>e. if e then retS () else failS NotEmpty)))"

section \<open>Path resolution\<close>

definition slash :: u8 where "slash = 0x2F"

text \<open>\<^verbatim>\<open>path.split('/')\<close>: the pieces between the slashes, empty ones included.\<close>

fun split_slash :: "bytes \<Rightarrow> bytes list" where
  "split_slash [] = [[]]"
| "split_slash (b # bs) =
     (if b = slash then [] # split_slash bs
      else case split_slash bs of p # ps \<Rightarrow> (b # p) # ps | [] \<Rightarrow> [[b]])"

definition components :: "bytes \<Rightarrow> bytes list" where
  "components path = filter (\<lambda>c. c \<noteq> []) (split_slash path)"

primrec lookup_loop :: "bytes list \<Rightarrow> 'w env \<Rightarrow> u64 \<Rightarrow> ('w, u64) fsm" where
  "lookup_loop [] E ino = retS ino"
| "lookup_loop (c # cs) E ino =
     bindS (get_inode_req E ino) (\<lambda>i.
     if \<not> is_dir i then failS NotDir
     else bindS (dir_lookup E i c) (\<lambda>r.
          case r of Some (child, _) \<Rightarrow> lookup_loop cs E child | None \<Rightarrow> failS NotFound))"

definition lookup :: "'w env \<Rightarrow> bytes \<Rightarrow> ('w, u64) fsm" where
  "lookup E path = (if take 1 path \<noteq> [slash] then failS Invalid else lookup_loop (components path) E ROOT_INO)"

definition stat :: "'w env \<Rightarrow> bytes \<Rightarrow> ('w, inode) fsm" where
  "stat E path = bindS (lookup E path) (get_inode_req E)"

record dir_entry_out =
  deo_ino :: u64
  deo_file_type :: u8
  deo_name :: bytes

definition block_listing :: "bytes \<Rightarrow> (rfs_error, dir_entry_out list) res" where
  "block_listing buf = res_bind (parse_block buf) (\<lambda>ds.
     let live = filter (\<lambda>d. d_inode d \<noteq> 0) ds in
     if list_all (\<lambda>d. utf8_ok (d_name d)) live
     then Ok (map (\<lambda>d. \<lparr>deo_ino = d_inode d, deo_file_type = file_type d, deo_name = d_name d\<rparr>) live)
     else Err Corrupt)"

primrec readdir_loop :: "u64 list \<Rightarrow> 'w env \<Rightarrow> inode \<Rightarrow> ('w, dir_entry_out list) fsm" where
  "readdir_loop [] E d = retS []"
| "readdir_loop (l # ls) E d =
     bindS (dir_block E d l) (\<lambda>buf.
     bindS (liftS (block_listing buf)) (\<lambda>es.
     bindS (readdir_loop ls E d) (\<lambda>rest. retS (es @ rest))))"

definition readdir :: "'w env \<Rightarrow> bytes \<Rightarrow> ('w, dir_entry_out list) fsm" where
  "readdir E path =
     bindS (lookup E path) (\<lambda>ino.
     bindS (get_inode_req E ino) (\<lambda>d.
     if \<not> is_dir d then failS NotDir else readdir_loop (dir_blocks d) E d))"

definition split_parent :: "bytes \<Rightarrow> (rfs_error, bytes \<times> bytes) res" where
  "split_parent path =
     (if take 1 path \<noteq> [slash] \<or> last path = slash then Err Invalid
      else let name = rev (takeWhile (\<lambda>b. b \<noteq> slash) (rev path));
               parent = rev (tl (dropWhile (\<lambda>b. b \<noteq> slash) (rev path))) in
           if name = [] \<or> length name > NAME_MAX \<or> name = [0x2E] \<or> name = [0x2E, 0x2E] then Err Invalid
           else Ok (if parent = [] then [slash] else parent, name))"

section \<open>Creating and removing\<close>

text \<open>The block of a new directory: \<^verbatim>\<open>.\<close> and \<^verbatim>\<open>..\<close>.\<close>

definition dots_block :: "u64 \<Rightarrow> u64 \<Rightarrow> (rfs_error, bytes) res" where
  "dots_block self parent =
     res_bind (insert_entry (init_empty zero_block) self FT_DIR [0x2E]) (\<lambda>(_, buf).
     res_map snd (insert_entry buf parent FT_DIR [0x2E, 0x2E]))"

definition create_inner :: "'w env \<Rightarrow> bytes \<Rightarrow> bool \<Rightarrow> ('w, u64) fsm" where
  "create_inner E path dir =
     bindS (liftS (split_parent path)) (\<lambda>(ppath, name).
     bindS (lookup E ppath) (\<lambda>parent.
     bindS (get_inode_req E parent) (\<lambda>pinode.
     if \<not> is_dir pinode then failS NotDir
     else bindS (dir_lookup E pinode name) (\<lambda>r.
     if r \<noteq> None then failS Exists
     else bindS alloc_ino (\<lambda>ino.
          bindS (nowS E) (\<lambda>now.
          bindS (getS txn_gen) (\<lambda>g.
          let child = inode_free\<lparr>flags := FLAG_USED, mtime := now, ctime := now, atime := now, btime := now,
                                inode_gen := g\<rparr> in
          bindS (if dir
                 then bindS (liftS (dots_block ino parent)) (\<lambda>buf.
                      bindS (write_fresh E buf) (\<lambda>ptr.
                      retS (child\<lparr>mode := S_IFDIR OR 0x1ED, nlink := 2, isize := 4096, iblocks := 1,
                                 bmap_root := ptr\<rparr>)))
                 else retS (child\<lparr>mode := S_IFREG OR 0x1A4, nlink := 1\<rparr>)) (\<lambda>child.
          bindS (imap_set E ino child) (\<lambda>_.
          bindS (dir_add_entry E pinode name ino (if dir then FT_DIR else FT_REG)) (\<lambda>pinode.
          bindS (imap_set E parent (pinode\<lparr>nlink := (if dir then nlink pinode + 1 else nlink pinode),
                                          mtime := now, ctime := now, inode_gen := g\<rparr>)) (\<lambda>_.
          bindS (modS (\<lambda>s. s\<lparr>staged_inode_count := staged_inode_count s + 1\<rparr>)) (\<lambda>_.
          retS ino))))))))))))"

definition create :: "'w env \<Rightarrow> bytes \<Rightarrow> ('w, u64) fsm" where
  "create E path = run_op (create_inner E path False)"

definition mkdir :: "'w env \<Rightarrow> bytes \<Rightarrow> ('w, u64) fsm" where
  "mkdir E path = run_op (create_inner E path True)"

definition unlink_inner :: "'w env \<Rightarrow> bytes \<Rightarrow> ('w, unit) fsm" where
  "unlink_inner E path =
     bindS (liftS (split_parent path)) (\<lambda>(ppath, name).
     bindS (lookup E ppath) (\<lambda>parent.
     bindS (get_inode_req E parent) (\<lambda>pinode.
     bindS (dir_lookup E pinode name) (\<lambda>r.
     bindS (liftS (ok_or NotFound r)) (\<lambda>(cino, _).
     bindS (get_inode_req E cino) (\<lambda>cinode.
     if is_dir cinode then failS IsDir
     else bindS (dir_remove_entry E pinode name) (\<lambda>pinode.
          bindS (nowS E) (\<lambda>now.
          bindS (imap_set E parent (pinode\<lparr>mtime := now, ctime := now\<rparr>)) (\<lambda>_.
          drop_link E cino cinode now)))))))))"

definition unlink :: "'w env \<Rightarrow> bytes \<Rightarrow> ('w, unit) fsm" where
  "unlink E path = run_op (unlink_inner E path)"

definition rmdir_inner :: "'w env \<Rightarrow> bytes \<Rightarrow> ('w, unit) fsm" where
  "rmdir_inner E path =
     bindS (liftS (split_parent path)) (\<lambda>(ppath, name).
     bindS (lookup E ppath) (\<lambda>parent.
     bindS (get_inode_req E parent) (\<lambda>pinode.
     bindS (dir_lookup E pinode name) (\<lambda>r.
     bindS (liftS (ok_or NotFound r)) (\<lambda>(cino, _).
     if cino = ROOT_INO then failS Invalid
     else bindS (get_inode_req E cino) (\<lambda>cinode.
     if \<not> is_dir cinode then failS NotDir
     else bindS (check_dir_empty E cinode) (\<lambda>_.
          bindS (dir_remove_entry E pinode name) (\<lambda>pinode.
          bindS (nowS E) (\<lambda>now.
          bindS (imap_set E parent (pinode\<lparr>nlink := nlink pinode - 1, mtime := now, ctime := now\<rparr>)) (\<lambda>_.
          bindS (retire_bmap (unat (bmap_height cinode)) E (bmap_root cinode)) (\<lambda>_.
          bindS (imap_set E cino inode_free) (\<lambda>_.
          modS (\<lambda>s. s\<lparr>staged_inode_count := staged_inode_count s - 1\<rparr>)))))))))))))"

definition rmdir :: "'w env \<Rightarrow> bytes \<Rightarrow> ('w, unit) fsm" where
  "rmdir E path = run_op (rmdir_inner E path)"

section \<open>Pins and fsync\<close>

definition fsync :: "'w env \<Rightarrow> u64 \<Rightarrow> ('w, unit) fsm" where
  "fsync E ino = bindS (get_inode_req E ino) (\<lambda>_. commit E)"

definition pin :: "'w env \<Rightarrow> u64 \<Rightarrow> ('w, unit) fsm" where
  "pin E ino = bindS (get_inode_req E ino) (\<lambda>_.
     modS (\<lambda>s. s\<lparr>pins := (pins s)(ino \<mapsto> (case pins s ino of None \<Rightarrow> 0 | Some n \<Rightarrow> n) + 1)\<rparr>))"

definition unpin :: "'w env \<Rightarrow> u64 \<Rightarrow> ('w, unit) fsm" where
  "unpin E ino = bindS (getS (\<lambda>s. s)) (\<lambda>s.
     case pins s ino of
       None \<Rightarrow> failS Invalid
     | Some n \<Rightarrow>
         if n - 1 > 0 then modS (\<lambda>s. s\<lparr>pins := (pins s)(ino \<mapsto> n - 1)\<rparr>)
         else bindS (modS (\<lambda>s. s\<lparr>pins := (pins s)(ino := None)\<rparr>)) (\<lambda>_.
              if read_only s \<or> sb_gen (sb s) \<ge> GEN_LIMIT then retS ()
              else bindS (imap_get E ino) (\<lambda>r.
                   case r of
                     Some i \<Rightarrow> if nlink i = 0 then with_rollback (free_inode E ino i) else retS ()
                   | None \<Rightarrow> retS ())))"

section \<open>Links\<close>

definition link_inner :: "'w env \<Rightarrow> bytes \<Rightarrow> bytes \<Rightarrow> ('w, unit) fsm" where
  "link_inner E existing newpath =
     bindS (lookup E existing) (\<lambda>src_ino.
     bindS (get_inode_req E src_ino) (\<lambda>src.
     if is_dir src then failS Perm
     else bindS (liftS (split_parent newpath)) (\<lambda>(ppath, name).
     bindS (lookup E ppath) (\<lambda>parent.
     bindS (get_inode_req E parent) (\<lambda>pinode.
     if \<not> is_dir pinode then failS NotDir
     else bindS (dir_lookup E pinode name) (\<lambda>r.
     if r \<noteq> None then failS Exists
     else bindS (dir_add_entry E pinode name src_ino (if is_symlink src then FT_SYMLINK else FT_REG)) (\<lambda>pinode.
          bindS (nowS E) (\<lambda>now.
          bindS (imap_set E parent (pinode\<lparr>mtime := now, ctime := now\<rparr>)) (\<lambda>_.
          bindS (getS txn_gen) (\<lambda>g.
          imap_set E src_ino (src\<lparr>nlink := nlink src + 1, ctime := now, inode_gen := g\<rparr>)))))))))))"

definition link :: "'w env \<Rightarrow> bytes \<Rightarrow> bytes \<Rightarrow> ('w, unit) fsm" where
  "link E existing newpath = run_op (link_inner E existing newpath)"

definition symlink_inner :: "'w env \<Rightarrow> bytes \<Rightarrow> bytes \<Rightarrow> ('w, u64) fsm" where
  "symlink_inner E target linkpath =
     (if target = [] then failS Invalid
      else bindS (liftS (split_parent linkpath)) (\<lambda>(ppath, name).
     bindS (lookup E ppath) (\<lambda>parent.
     bindS (get_inode_req E parent) (\<lambda>pinode.
     if \<not> is_dir pinode then failS NotDir
     else bindS (dir_lookup E pinode name) (\<lambda>r.
     if r \<noteq> None then failS Exists
     else bindS alloc_ino (\<lambda>ino.
          bindS (nowS E) (\<lambda>now.
          bindS (getS txn_gen) (\<lambda>g.
          let child = inode_free\<lparr>mode := S_IFLNK OR 0x1FF, flags := FLAG_USED, nlink := 1,
                        isize := of_nat (length target), mtime := now, ctime := now, atime := now, btime := now,
                        inode_gen := g\<rparr> in
          bindS (if length target \<le> INLINE_SYMLINK_MAX
                 then retS (child\<lparr>flags := flags child OR FLAG_FAST_SYMLINK,
                                 inline := splice (replicate INLINE_SYMLINK_MAX 0) 0 target\<rparr>)
                 else write_blocks E child 0 target) (\<lambda>child.
          bindS (imap_set E ino child) (\<lambda>_.
          bindS (dir_add_entry E pinode name ino FT_SYMLINK) (\<lambda>pinode.
          bindS (imap_set E parent (pinode\<lparr>mtime := now, ctime := now\<rparr>)) (\<lambda>_.
          bindS (modS (\<lambda>s. s\<lparr>staged_inode_count := staged_inode_count s + 1\<rparr>)) (\<lambda>_.
          retS ino)))))))))))))"

definition symlink :: "'w env \<Rightarrow> bytes \<Rightarrow> bytes \<Rightarrow> ('w, u64) fsm" where
  "symlink E target linkpath = run_op (symlink_inner E target linkpath)"

text \<open>The slice \<^verbatim>\<open>inline[..len]\<close> panics past 48 bytes.\<close>

definition readlink :: "'w env \<Rightarrow> bytes \<Rightarrow> ('w, bytes) fsm" where
  "readlink E path =
     bindS (lookup E path) (\<lambda>ino.
     bindS (get_inode_req E ino) (\<lambda>i.
     if \<not> is_symlink i then failS Invalid
     else let len = unat (isize i) in
     bindS (if is_fast_symlink i
            then (if len > INLINE_SYMLINK_MAX then liftS Panic else retS (take len (inline i)))
            else bindS (read_blocks E i 0 (replicate len 0)) (\<lambda>(n, buf).
                 if n \<noteq> len then failS Corrupt else retS buf)) (\<lambda>buf.
     if utf8_ok buf then retS buf else failS Corrupt)))"

section \<open>Rename\<close>

definition dotdot_of :: "'w env \<Rightarrow> u64 \<Rightarrow> ('w, u64) fsm" where
  "dotdot_of E dir =
     bindS (get_inode_req E dir) (\<lambda>d.
     bindS (dir_lookup E d [0x2E, 0x2E]) (\<lambda>r.
     case r of Some (ino, _) \<Rightarrow> retS ino | None \<Rightarrow> failS Corrupt))"

text \<open>
  The loop check follows \<^verbatim>\<open>..\<close> entries until it meets the moved directory or the root.  On a volume whose
  \<^verbatim>\<open>..\<close> entries form a cycle it does not end: \<open>None\<close>.
\<close>

partial_function (option) loop_check ::
  "'w env \<Rightarrow> u64 \<Rightarrow> u64 \<Rightarrow> 'w rfs2 \<Rightarrow> ((rfs_error, unit) res \<times> 'w rfs2) option" where
  "loop_check E src cur s =
     (if cur = src then Some (Err Invalid, s)
      else if cur = ROOT_INO then Some (Ok (), s)
      else case dotdot_of E cur s of
             (Ok up, s') \<Rightarrow> loop_check E src up s'
           | (Err e, s') \<Rightarrow> Some (Err e, s')
           | (Panic, s') \<Rightarrow> Some (Panic, s'))"

record rename_plan =
  rp_op :: u64
  rp_np :: u64
  rp_src :: u64
  rp_ft :: u8
  rp_inode :: inode
  rp_npinode :: inode
  rp_target :: "(u64 \<times> inode) option"

text \<open>The checks before the loop check: \<open>None\<close> is the no-op of POSIX (same entry or same inode).\<close>

definition rename_prepare :: "'w env \<Rightarrow> bytes \<Rightarrow> bytes \<Rightarrow> bytes \<Rightarrow> bytes \<Rightarrow> ('w, rename_plan option) fsm" where
  "rename_prepare E oppath oname nppath nname =
     bindS (lookup E oppath) (\<lambda>op_ino.
     bindS (lookup E nppath) (\<lambda>np_ino.
     bindS (get_inode_req E op_ino) (\<lambda>opinode.
     if \<not> is_dir opinode then failS NotDir
     else bindS (dir_lookup E opinode oname) (\<lambda>r.
     bindS (liftS (ok_or NotFound r)) (\<lambda>(src_ino, src_ft).
     if op_ino = np_ino \<and> oname = nname then retS None
     else bindS (get_inode_req E src_ino) (\<lambda>src_inode.
     bindS (if np_ino = op_ino then retS opinode else get_inode_req E np_ino) (\<lambda>npinode.
     if \<not> is_dir npinode then failS NotDir
     else let plan = \<lparr>rp_op = op_ino, rp_np = np_ino, rp_src = src_ino, rp_ft = src_ft, rp_inode = src_inode,
                     rp_npinode = npinode, rp_target = None\<rparr> in
     bindS (dir_lookup E npinode nname) (\<lambda>t.
     case t of
       None \<Rightarrow> retS (Some plan)
     | Some (tgt_ino, _) \<Rightarrow>
         if tgt_ino = src_ino then retS None
         else bindS (get_inode_req E tgt_ino) (\<lambda>tgt.
              bindS (if is_dir src_inode
                     then if \<not> is_dir tgt then failS NotDir else check_dir_empty E tgt
                     else if is_dir tgt then failS IsDir else retS ()) (\<lambda>_.
              retS (Some (plan\<lparr>rp_target := Some (tgt_ino, tgt)\<rparr>))))))))))))"

text \<open>The dirent of the replaced target, out of its directory.\<close>

definition rename_evict :: "'w env \<Rightarrow> (u64 \<times> inode) option \<Rightarrow> inode \<Rightarrow> bytes \<Rightarrow> ('w, inode) fsm" where
  "rename_evict E target d nname =
     (case target of
        None \<Rightarrow> retS d
      | Some (_, tgt) \<Rightarrow> bindS (dir_remove_entry E d nname) (\<lambda>d.
          retS (if is_dir tgt then d\<lparr>nlink := nlink d - 1\<rparr> else d)))"

text \<open>The \<^verbatim>\<open>..\<close> of a moved directory, pointed at its new parent.\<close>

definition rename_dotdot :: "'w env \<Rightarrow> inode \<Rightarrow> u64 \<Rightarrow> ('w, inode) fsm" where
  "rename_dotdot E src np_ino =
     bindS (dir_block E src 0) (\<lambda>buf.
     bindS (liftS (retarget buf [0x2E, 0x2E] np_ino)) (\<lambda>(done, buf).
     if done then dir_write_block E src 0 buf else failS Corrupt))"

definition rename_apply :: "'w env \<Rightarrow> bytes \<Rightarrow> bytes \<Rightarrow> rename_plan \<Rightarrow> ('w, unit) fsm" where
  "rename_apply E oname nname p =
     bindS (nowS E) (\<lambda>now.
     bindS (if rp_op p \<noteq> rp_np p
            then bindS (get_inode_req E (rp_op p)) (\<lambda>op.
                 bindS (rename_evict E (rp_target p) (rp_npinode p) nname) (\<lambda>np.
                 bindS (dir_remove_entry E op oname) (\<lambda>op.
                 bindS (dir_add_entry E np nname (rp_src p) (rp_ft p)) (\<lambda>np.
                 bindS (if is_dir (rp_inode p)
                        then bindS (rename_dotdot E (rp_inode p) (rp_np p)) (\<lambda>src.
                             retS (op\<lparr>nlink := nlink op - 1\<rparr>, np\<lparr>nlink := nlink np + 1\<rparr>, src))
                        else retS (op, np, rp_inode p)) (\<lambda>(op, np, src).
                 bindS (imap_set E (rp_op p) (op\<lparr>mtime := now, ctime := now\<rparr>)) (\<lambda>_.
                 bindS (imap_set E (rp_np p) (np\<lparr>mtime := now, ctime := now\<rparr>)) (\<lambda>_.
                 retS src)))))))
            else bindS (get_inode_req E (rp_op p)) (\<lambda>d.
                 bindS (rename_evict E (rp_target p) d nname) (\<lambda>d.
                 bindS (dir_remove_entry E d oname) (\<lambda>d.
                 bindS (dir_add_entry E d nname (rp_src p) (rp_ft p)) (\<lambda>d.
                 bindS (imap_set E (rp_op p) (d\<lparr>mtime := now, ctime := now\<rparr>)) (\<lambda>_.
                 retS (rp_inode p))))))) (\<lambda>src.
     bindS (case rp_target p of
              None \<Rightarrow> retS ()
            | Some (tgt_ino, tgt) \<Rightarrow>
                if is_dir tgt then free_inode E tgt_ino tgt else drop_link E tgt_ino tgt now) (\<lambda>_.
     bindS (getS txn_gen) (\<lambda>g.
     imap_set E (rp_src p) (src\<lparr>ctime := now, inode_gen := g\<rparr>)))))"

definition rename_inner :: "'w env \<Rightarrow> bytes \<Rightarrow> bytes \<Rightarrow> 'w rfs2 \<Rightarrow> ((rfs_error, unit) res \<times> 'w rfs2) option" where
  "rename_inner E old new s =
     (case bindS (liftS (split_parent old)) (\<lambda>(oppath, oname).
             bindS (liftS (split_parent new)) (\<lambda>(nppath, nname).
             bindS (rename_prepare E oppath oname nppath nname) (\<lambda>p. retS (oname, nname, p)))) s of
        (Err e, s') \<Rightarrow> Some (Err e, s')
      | (Panic, s') \<Rightarrow> Some (Panic, s')
      | (Ok (_, _, None), s') \<Rightarrow> Some (Ok (), s')
      | (Ok (oname, nname, Some p), s') \<Rightarrow>
          if is_dir (rp_inode p)
          then (case loop_check E (rp_src p) (rp_np p) s' of
                  None \<Rightarrow> None
                | Some (Ok _, t) \<Rightarrow> Some (rename_apply E oname nname p t)
                | Some (Err e, t) \<Rightarrow> Some (Err e, t)
                | Some (Panic, t) \<Rightarrow> Some (Panic, t))
          else Some (rename_apply E oname nname p s'))"

definition rename :: "'w env \<Rightarrow> bytes \<Rightarrow> bytes \<Rightarrow> 'w rfs2 \<Rightarrow> ((rfs_error, unit) res \<times> 'w rfs2) option" where
  "rename E old new s =
     (case bindS check_rw (\<lambda>_. begin_op) s of
        (Ok snap, s1) \<Rightarrow>
          (case rename_inner E old new s1 of
             None \<Rightarrow> None
           | Some (Ok v, s') \<Rightarrow> Some (Ok v, s'\<lparr>op_fresh := []\<rparr>)
           | Some (Err e, s') \<Rightarrow> Some (Err e, fail_op snap s')
           | Some (Panic, s') \<Rightarrow> Some (Panic, s'))
      | (Err e, s1) \<Rightarrow> Some (Err e, s1)
      | (Panic, s1) \<Rightarrow> Some (Panic, s1))"

section \<open>Formatting and mounting\<close>

record crypto_params =
  cp_kdf_algo :: u8
  cp_kdf_salt :: bytes
  cp_argon_m_cost :: u32
  cp_argon_t_cost :: u32
  cp_argon_p :: u32
  cp_dek_wrap_nonce :: bytes
  cp_dek_wrapped :: bytes
  cp_dek_wrap_tag :: bytes

record mkfs_options =
  mo_uuid :: bytes
  mo_label :: bytes
  mo_now :: u64
  mo_crypto :: "crypto_params option"

definition crypto_or :: "'a \<Rightarrow> (crypto_params \<Rightarrow> 'a) \<Rightarrow> mkfs_options \<Rightarrow> 'a" where
  "crypto_or d f opts = (case mo_crypto opts of None \<Rightarrow> d | Some c \<Rightarrow> f c)"

definition mkfs_header :: "'w env \<Rightarrow> u64 \<Rightarrow> mkfs_options \<Rightarrow> static_header" where
  "mkfs_header E ntot opts = \<lparr>format_version = FORMAT_VERSION, header_version = HEADER_VERSION, block_size = 4096,
     h_total_blocks = ntot, sb_slot_a = SB_SLOT_A, sb_slot_b = SB_SLOT_B, first_data_block = FIRST_DATA_BLOCK,
     h_uuid = mo_uuid opts, feature_compat = 0, feature_incompat = incompat_features E,
     feature_ro_compat = RO_COMPAT_HARDLINKS,
     kdf_algo = crypto_or 1 cp_kdf_algo opts, kdf_salt = crypto_or (replicate 16 0) cp_kdf_salt opts,
     argon_m_cost = crypto_or 65536 cp_argon_m_cost opts, argon_t_cost = crypto_or 3 cp_argon_t_cost opts,
     argon_p = crypto_or 1 cp_argon_p opts, dek_wrap_nonce = crypto_or (replicate 12 0) cp_dek_wrap_nonce opts,
     dek_wrapped = crypto_or (replicate 32 0) cp_dek_wrapped opts,
     dek_wrap_tag = crypto_or (replicate 16 0) cp_dek_wrap_tag opts,
     hdr_label = splice (replicate 64 0) 0 (mo_label opts)\<rparr>"

definition mkfs_inode :: "u64 \<Rightarrow> block_ptr \<Rightarrow> inode" where
  "mkfs_inode now dir_ptr = inode_free\<lparr>mode := S_IFDIR OR 0x1ED, flags := FLAG_USED, nlink := 2, isize := 4096,
     iblocks := 1, mtime := now, ctime := now, atime := now, btime := now, inode_gen := 1, bmap_height := 0,
     bmap_root := dir_ptr\<rparr>"

text \<open>Seal a buffer for a block of generation 1 and write it: the pointer to it.\<close>

definition mkfs_put :: "'w env \<Rightarrow> u64 \<Rightarrow> bytes \<Rightarrow> ('w, rfs_error, block_ptr) sm" where
  "mkfs_put E b buf =
     (let (tg, c) = encrypt_block E b 1 (dyn_aad b 1) buf in
      bindS (dev_write E b c) (\<lambda>_. retS \<lparr>block = b, gen = 1, tag = tg\<rparr>))"

definition mkfs :: "'w env \<Rightarrow> mkfs_options \<Rightarrow> ('w, rfs_error, unit) sm" where
  "mkfs E opts =
     bindS (getS (dev_total E)) (\<lambda>ntot.
     if ntot < FIRST_DATA_BLOCK + 2 then failS NoSpace
     else bindS (dev_write E SB_SLOT_A zero_block) (\<lambda>_.
     bindS (dev_write E SB_SLOT_B zero_block) (\<lambda>_.
     bindS (liftS (dots_block ROOT_INO ROOT_INO)) (\<lambda>dirbuf.
     bindS (mkfs_put E FIRST_DATA_BLOCK dirbuf) (\<lambda>dir_ptr.
     let leafbuf = splice zero_block (unat ROOT_INO * INODE_SIZE) (inode_encode (mkfs_inode (mo_now opts) dir_ptr)) in
     bindS (mkfs_put E (FIRST_DATA_BLOCK + 1) leafbuf) (\<lambda>imap_root.
     if length (mo_label opts) > 64 then failS Invalid
     else bindS (dev_write E 0 (header_encode (mkfs_header E ntot opts))) (\<lambda>_.
     bindS (dev_flush E) (\<lambda>_.
     bindS (write_slot E SB_SLOT_A \<lparr>sb_gen = 1, sb_total_blocks = ntot, inode_map_root = imap_root,
        inode_map_height = 0, next_inode = FIRST_GENERAL_INO, inode_count = 1, block_count = 2,
        commit_time = mo_now opts, sb_uuid = mo_uuid opts\<rparr>) (\<lambda>_.
     dev_flush E)))))))))"

primrec orphan_loop :: "u64 list \<Rightarrow> 'w env \<Rightarrow> ('w, (u64 \<times> inode) list) fsm" where
  "orphan_loop [] E = retS []"
| "orphan_loop (ino # inos) E =
     bindS (imap_get E ino) (\<lambda>r.
     bindS (orphan_loop inos E) (\<lambda>rest.
     retS (case r of Some i \<Rightarrow> if nlink i = 0 then (ino, i) # rest else rest | None \<Rightarrow> rest)))"

definition reclaim_orphans :: "'w env \<Rightarrow> ('w, unit) fsm" where
  "reclaim_orphans E =
     bindS (getS (\<lambda>s. map of_nat [1..<unat (staged_next_inode s)])) (\<lambda>inos.
     bindS (orphan_loop inos E) (\<lambda>orphans.
     if orphans = [] then retS ()
     else bindS (with_rollback (forS orphans (\<lambda>(ino, i). free_inode E ino i))) (\<lambda>_. commit E)))"

definition mounted :: "static_header \<Rightarrow> superblock \<Rightarrow> u64 \<Rightarrow> bool \<Rightarrow> bitmap \<Rightarrow> bitmap \<Rightarrow> 'w \<Rightarrow> 'w rfs2" where
  "mounted hdr cur slot mismatch lc lp w = \<lparr>dev = w, header = hdr,
     read_only = (feature_ro_compat hdr AND NOT KNOWN_RO_COMPAT \<noteq> 0), sb = cur, cur_slot = slot,
     live_cur = lc, live_prev = lp, block_count_mismatch = mismatch, staged_root = inode_map_root cur,
     staged_height = inode_map_height cur, staged_next_inode = next_inode cur,
     staged_inode_count = inode_count cur, dirty = False, fresh = {}, dropped_fresh = {}, retired = {},
     op_fresh = [], alloc_cursor = 0, pins = (\<lambda>_. None)\<rparr>"

text \<open>Steps 1 to 4 of the mount: header, feature gate, the two slots.\<close>

definition mount_header :: "'w env \<Rightarrow> 'w \<Rightarrow> bytes \<Rightarrow> (rfs_error, static_header) res" where
  "mount_header E w hbuf = res_bind (header_decode hbuf) (\<lambda>hdr.
     if h_total_blocks hdr > dev_total E w \<or> sb_slot_a hdr \<noteq> SB_SLOT_A \<or> sb_slot_b hdr \<noteq> SB_SLOT_B
        \<or> first_data_block hdr \<noteq> FIRST_DATA_BLOCK then Err BadHeader
     else if feature_incompat hdr AND NOT KNOWN_INCOMPAT \<noteq> 0 \<or> feature_incompat hdr \<noteq> incompat_features E
     then Err Unsupported else Ok hdr)"

definition mount_slots :: "'w env \<Rightarrow> static_header \<Rightarrow> ('w, rfs_error, superblock \<times> u64 \<times> superblock option) sm" where
  "mount_slots E hdr w =
     (let (sa, w1) = read_slot E SB_SLOT_A hdr w; (sbb, w2) = read_slot E SB_SLOT_B hdr w1
      in (pick_superblock sa sbb, w2))"

definition mark_treeS :: "'w env \<Rightarrow> superblock \<Rightarrow> static_header \<Rightarrow> ('w, rfs_error, u64 \<times> bitmap) sm" where
  "mark_treeS E s hdr w =
     (let (r, w', bm) = mark_tree E (inode_map_root s) (inode_map_height s) (bm_new (h_total_blocks hdr)) w
      in (res_map (\<lambda>n. (n, bm)) r, w'))"

definition mount_state :: "'w env \<Rightarrow> ('w, rfs_error, 'w rfs2) sm" where
  "mount_state E =
     bindS (dev_read E 0) (\<lambda>hbuf.
     bindS (getS (\<lambda>w. w)) (\<lambda>w0.
     bindS (liftS (mount_header E w0 hbuf)) (\<lambda>hdr.
     bindS (mount_slots E hdr) (\<lambda>(cur, slot, prev).
     bindS (mark_treeS E cur hdr) (\<lambda>(n, lc).
     bindS (case prev of
              None \<Rightarrow> retS (bm_new (h_total_blocks hdr))
            | Some p \<Rightarrow> bindS (mark_treeS E p hdr) (\<lambda>(_, lp). retS lp)) (\<lambda>lp.
     bindS (getS (\<lambda>w. w)) (\<lambda>w.
     retS (mounted hdr cur slot (n \<noteq> block_count cur) lc lp w))))))))"

definition mount :: "'w env \<Rightarrow> 'w \<Rightarrow> (rfs_error, 'w rfs2) res \<times> 'w" where
  "mount E w =
     (case mount_state E w of
        (Ok fs, w') \<Rightarrow>
          if \<not> read_only fs \<and> sb_gen (sb fs) < GEN_LIMIT
          then (case reclaim_orphans E fs of
                  (Ok _, fs') \<Rightarrow> (Ok fs', dev fs')
                | (Err e, fs') \<Rightarrow> (Err e, dev fs')
                | (Panic, fs') \<Rightarrow> (Panic, dev fs'))
          else (Ok fs, w')
      | (Err e, w') \<Rightarrow> (Err e, w')
      | (Panic, w') \<Rightarrow> (Panic, w'))"

end
