(* ===== verification/Rfs_Cow.thy ===== *)
theory Rfs_Cow
  imports Rfs_Ops
begin

text \<open>
  What the copy-on-write discipline of RFS v2 guarantees: the allocator hands out only blocks that neither valid
  superblock reaches, every operation writes only to such blocks (so a crash at any point leaves both committed
  trees readable), a failed operation restores the staged tree, and the growth loops end.  The central notion is
  \<open>cow\<close>: a computation that keeps every block outside the ones it allocates.  Its rules are collected in
  \<open>cow_rules\<close>, and the proof for an operation is their application along its definition.
\<close>

named_theorems cow_rules

section \<open>The allocator\<close>

definition data_block :: "'w rfs2 \<Rightarrow> u64 \<Rightarrow> bool" where
  "data_block s b \<longleftrightarrow> FIRST_DATA_BLOCK \<le> b \<and> b < h_total_blocks (header s)"

definition free_block :: "'w rfs2 \<Rightarrow> u64 \<Rightarrow> bool" where
  "free_block s b \<longleftrightarrow> data_block s b \<and> b \<notin> bm_mem (live_cur s) \<and> b \<notin> bm_mem (live_prev s) \<and> b \<notin> fresh s"

text \<open>The volume's geometry: the bitmaps cover it, and the cursor lies in the data region.\<close>

definition geometry_ok :: "'w rfs2 \<Rightarrow> bool" where
  "geometry_ok s \<longleftrightarrow> FIRST_DATA_BLOCK < h_total_blocks (header s) \<and> h_total_blocks (header s) < 2 ^ 63
     \<and> bm_covers (live_cur s) (h_total_blocks (header s)) \<and> bm_covers (live_prev s) (h_total_blocks (header s))
     \<and> alloc_cursor s < h_total_blocks (header s) - FIRST_DATA_BLOCK"

lemma span_facts:
  assumes "geometry_ok s" "span = h_total_blocks (header s) - FIRST_DATA_BLOCK"
  shows "unat span = unat (h_total_blocks (header s)) - 3" "unat span < 2 ^ 63" "0 < span" "0 < unat span"
    "unat (alloc_cursor s) < unat span"
proof -
  have lt: "3 < unat (h_total_blocks (header s))" "unat (h_total_blocks (header s)) < 2 ^ 63"
    using assms(1) by (simp_all add: geometry_ok_def FIRST_DATA_BLOCK_def word_less_nat_alt)
  show u: "unat span = unat (h_total_blocks (header s)) - 3"
    unfolding assms(2) FIRST_DATA_BLOCK_def using lt(1) by (subst unat_sub) (simp_all add: word_le_nat_alt)
  then show "unat span < 2 ^ 63" "0 < unat span" using lt by simp_all
  then show "0 < span" by (simp add: word_less_nat_alt)
  show "unat (alloc_cursor s) < unat span"
    using assms by (simp add: geometry_ok_def word_less_nat_alt)
qed

definition cand :: "'w rfs2 \<Rightarrow> u64 \<Rightarrow> nat \<Rightarrow> u64" where
  "cand s span k = FIRST_DATA_BLOCK + (alloc_cursor s + of_nat k) mod span"

lemma cand_nat:
  assumes "geometry_ok s" "span = h_total_blocks (header s) - FIRST_DATA_BLOCK" "k < unat span"
  shows "unat (cand s span k) = 3 + (unat (alloc_cursor s) + k) mod unat span" "data_block s (cand s span k)"
proof -
  note sp = span_facts [OF assms(1,2)]
  have k: "unat (of_nat k :: u64) = k" using assms(3) sp(2) by (subst unat_of_nat, intro mod_less) simp
  have "unat (alloc_cursor s + of_nat k) = unat (alloc_cursor s) + k"
    using sp(2,5) assms(3) k by (simp add: unat_word_ariths)
  then have m: "unat ((alloc_cursor s + of_nat k) mod span) = (unat (alloc_cursor s) + k) mod unat span"
    by (simp add: unat_mod)
  have lt: "(unat (alloc_cursor s) + k) mod unat span < unat span" using sp(4) by simp
  show e: "unat (cand s span k) = 3 + (unat (alloc_cursor s) + k) mod unat span"
    unfolding cand_def FIRST_DATA_BLOCK_def using m lt sp(2) by (simp add: unat_word_ariths)
  show "data_block s (cand s span k)"
    using e lt sp(1) by (simp add: data_block_def FIRST_DATA_BLOCK_def word_le_nat_alt word_less_nat_alt)
qed

text \<open>Every data block is a candidate of exactly one round.\<close>

lemma cand_all:
  assumes "geometry_ok s" "span = h_total_blocks (header s) - FIRST_DATA_BLOCK" "data_block s b"
  shows "\<exists>k < unat span. cand s span k = b"
proof -
  note sp = span_facts [OF assms(1,2)]
  let ?c = "unat (alloc_cursor s)" and ?n = "unat span" and ?x = "unat b - 3"
  have b: "3 \<le> unat b" "unat b < unat (h_total_blocks (header s))"
    using assms(3) by (simp_all add: data_block_def FIRST_DATA_BLOCK_def word_le_nat_alt word_less_nat_alt)
  then have x: "?x < ?n" using sp(1) by simp
  define k where "k = (?x + ?n - ?c) mod ?n"
  have "(?c + k) mod ?n = (?c + (?x + ?n - ?c)) mod ?n" unfolding k_def by (simp add: mod_add_right_eq)
  also have "\<dots> = ?x" using sp(5) x by simp
  finally have m: "(?c + k) mod ?n = ?x" .
  have kn: "k < ?n" unfolding k_def using sp(4) by simp
  have "unat (cand s span k) = unat b" using cand_nat(1) [OF assms(1,2) kn] m b(1) by simp
  then show ?thesis using kn by (auto simp: word_unat_eq_iff)
qed

lemma alloc_scan_spec:
  assumes "geometry_ok s" "span = h_total_blocks (header s) - FIRST_DATA_BLOCK" "j + n \<le> unat span"
  shows "alloc_scan s span (of_nat j) n =
    Ok (map_option (\<lambda>k. (of_nat k, cand s span k)) (List.find (\<lambda>k. free_block s (cand s span k)) [j..<j + n]))"
  using assms(3)
proof (induction n arbitrary: j)
  case (Suc n)
  have d: "data_block s (cand s span j)" using cand_nat(2) [OF assms(1,2)] Suc.prems by simp
  then have lt: "cand s span j < h_total_blocks (header s)" by (simp add: data_block_def)
  have g: "bm_get (live_cur s) (cand s span j) = (Ok (cand s span j \<in> bm_mem (live_cur s)) :: (rfs_error, bool) res)"
    "bm_get (live_prev s) (cand s span j) = (Ok (cand s span j \<in> bm_mem (live_prev s)) :: (rfs_error, bool) res)"
    using assms(1) covers_index [OF _ lt] by (simp_all add: geometry_ok_def bm_get_mem)
  have ih: "alloc_scan s span (of_nat j + 1) n =
      Ok (map_option (\<lambda>k. (of_nat k, cand s span k)) (List.find (\<lambda>k. free_block s (cand s span k)) [Suc j..<Suc j + n]))"
    using Suc.IH [of "Suc j"] Suc.prems by (simp add: add.commute)
  have l: "[j..<j + Suc n] = j # [Suc j..<Suc j + n]" by (simp add: upt_rec [of j])
  show ?case unfolding l using g ih d
    by (simp add: cand_def [symmetric] free_block_def Let_def)
qed simp

text \<open>The outcome of an allocation: a free block of the data region, or \<^verbatim>\<open>NoSpace\<close> when there is none.\<close>

definition allocated :: "'w rfs2 \<Rightarrow> u64 \<Rightarrow> 'w rfs2 \<Rightarrow> bool" where
  "allocated s b s' \<longleftrightarrow> free_block s b \<and> alloc_cursor s' < h_total_blocks (header s) - FIRST_DATA_BLOCK
     \<and> s' = s\<lparr>alloc_cursor := alloc_cursor s', fresh := insert b (fresh s), op_fresh := op_fresh s @ [b]\<rparr>"

lemma alloc_block_cases:
  assumes "geometry_ok s"
  obtains b s' where "alloc_block s = (Ok b, s')" "allocated s b s'"
  | "alloc_block s = (Err NoSpace, s)" "\<forall>b. \<not> free_block s b"
proof -
  let ?span = "h_total_blocks (header s) - FIRST_DATA_BLOCK"
  note sp = span_facts [OF assms refl]
  have scan: "alloc_scan s ?span 0 (unat ?span) =
    Ok (map_option (\<lambda>k. (of_nat k, cand s ?span k)) (List.find (\<lambda>k. free_block s (cand s ?span k)) [0..<unat ?span]))"
    using alloc_scan_spec [OF assms refl, of 0 "unat ?span"] by simp
  show ?thesis
  proof (cases "List.find (\<lambda>k. free_block s (cand s ?span k)) [0..<unat ?span]")
    case None
    then have "\<not> free_block s (cand s ?span k)" if "k < unat ?span" for k
      using that by (auto simp: find_None_iff)
    then have "\<forall>b. \<not> free_block s b"
      using cand_all [OF assms refl] by (metis free_block_def)
    moreover have "alloc_block s = (Err NoSpace, s)" by (simp add: alloc_block_def Let_def scan None)
    ultimately show ?thesis by (intro that(2))
  next
    case (Some k)
    then have f: "free_block s (cand s ?span k)" by (auto simp: find_Some_iff)
    let ?s = "s\<lparr>alloc_cursor := (alloc_cursor s + of_nat k + 1) mod ?span,
        fresh := insert (cand s ?span k) (fresh s), op_fresh := op_fresh s @ [cand s ?span k]\<rparr>"
    have "alloc_block s = (Ok (cand s ?span k), ?s)" by (simp add: alloc_block_def Let_def scan Some)
    moreover have "(alloc_cursor s + of_nat k + 1) mod ?span < ?span"
      using sp(3) by (simp add: word_less_nat_alt unat_mod)
    moreover from this have "allocated s (cand s ?span k) ?s" using f unfolding allocated_def by simp
    ultimately show ?thesis by (intro that(1))
  qed
qed

section \<open>Computations that keep committed data\<close>

definition cow_inv :: "'w env \<Rightarrow> ('w \<Rightarrow> bool) \<Rightarrow> 'w rfs2 \<Rightarrow> bool" where
  "cow_inv E valid s \<longleftrightarrow> valid (dev s) \<and> h_total_blocks (header s) \<le> dev_total E (dev s) \<and> geometry_ok s
     \<and> (\<forall>b\<in>fresh s. data_block s b \<and> b \<notin> bm_mem (live_cur s) \<and> b \<notin> bm_mem (live_prev s))"

text \<open>The committed half of the state: what only \<^verbatim>\<open>commit\<close> changes.\<close>

definition same_committed :: "'w rfs2 \<Rightarrow> 'w rfs2 \<Rightarrow> bool" where
  "same_committed s s' \<longleftrightarrow> header s' = header s \<and> sb s' = sb s \<and> cur_slot s' = cur_slot s
     \<and> live_cur s' = live_cur s \<and> live_prev s' = live_prev s \<and> read_only s' = read_only s"

text \<open>From \<open>s\<close> to \<open>s'\<close> the disk changed only in blocks that were allocated on the way.\<close>

definition kept :: "'w env \<Rightarrow> ('w \<Rightarrow> bool) \<Rightarrow> ('w \<Rightarrow> u64 \<Rightarrow> bytes) \<Rightarrow> 'w rfs2 \<Rightarrow> 'w rfs2 \<Rightarrow> bool" where
  "kept E valid content s s' \<longleftrightarrow> cow_inv E valid s' \<and> same_committed s s' \<and> fresh s \<subseteq> fresh s'
     \<and> dev_total E (dev s') = dev_total E (dev s)
     \<and> (\<forall>b. b < dev_total E (dev s) \<longrightarrow> b \<notin> fresh s' - fresh s \<longrightarrow> content (dev s') b = content (dev s) b)"

definition cow :: "'w env \<Rightarrow> ('w \<Rightarrow> bool) \<Rightarrow> ('w \<Rightarrow> u64 \<Rightarrow> bytes) \<Rightarrow> ('w, 'a) fsm \<Rightarrow> bool" where
  "cow E valid content m \<longleftrightarrow> (\<forall>s r s'. cow_inv E valid s \<longrightarrow> m s = (r, s') \<longrightarrow> kept E valid content s s')"

text \<open>A state update that touches neither the device nor the allocator.\<close>

definition quiet_upd :: "'w rfs2 \<Rightarrow> 'w rfs2 \<Rightarrow> bool" where
  "quiet_upd s s' \<longleftrightarrow> same_committed s s' \<and> dev s' = dev s \<and> fresh s' = fresh s \<and> alloc_cursor s' = alloc_cursor s"

lemma quiet_updates [simp]:
  "quiet_upd s s" "quiet_upd s (s\<lparr>dirty := v1\<rparr>)" "quiet_upd s (s\<lparr>staged_root := v2\<rparr>)" "quiet_upd s (s\<lparr>op_fresh := v4\<rparr>)"
  "quiet_upd s (s\<lparr>staged_root := v2, staged_height := v3\<rparr>)" "quiet_upd s (s\<lparr>staged_inode_count := v5\<rparr>)"
  "quiet_upd s (s\<lparr>staged_next_inode := v6\<rparr>)" "quiet_upd s (s\<lparr>pins := v7\<rparr>)" "quiet_upd s (retire p s)"
  "quiet_upd s (fail_op snap s)"
  by (simp_all add: quiet_upd_def same_committed_def retire_def fail_op_def)

lemma kept_refl: "cow_inv E valid s \<Longrightarrow> kept E valid content s s"
  by (simp add: kept_def same_committed_def)

lemma kept_trans:
  assumes "kept E valid content s t" "kept E valid content t u"
  shows "kept E valid content s u"
proof -
  have "content (dev u) b = content (dev s) b"
    if "b < dev_total E (dev s)" "b \<notin> fresh u - fresh s" for b
  proof -
    have "b \<notin> fresh t - fresh s" "b \<notin> fresh u - fresh t" using assms that(2) by (auto simp: kept_def)
    then show ?thesis using assms that(1) by (simp add: kept_def)
  qed
  then show ?thesis using assms unfolding kept_def same_committed_def by auto
qed

lemma kept_quiet: "cow_inv E valid s \<Longrightarrow> quiet_upd s s' \<Longrightarrow> kept E valid content s s'"
  by (simp add: kept_def quiet_upd_def same_committed_def cow_inv_def geometry_ok_def data_block_def)

lemma kept_inv: "kept E valid content s s' \<Longrightarrow> cow_inv E valid s'"
  by (simp add: kept_def)

lemma kept_dev:
  assumes "cow_inv E valid s" "same_disk E valid content (dev s) w"
  shows "kept E valid content s (s\<lparr>dev := w\<rparr>)"
  using assms
  by (simp add: kept_def same_committed_def same_disk_def cow_inv_def geometry_ok_def data_block_def)

lemma cowI:
  "(\<And>s r s'. cow_inv E valid s \<Longrightarrow> m s = (r, s') \<Longrightarrow> kept E valid content s s') \<Longrightarrow> cow E valid content m"
  by (simp add: cow_def)

lemma cowD: "cow E valid content m \<Longrightarrow> cow_inv E valid s \<Longrightarrow> m s = (r, s') \<Longrightarrow> kept E valid content s s'"
  by (simp add: cow_def)

lemma cow_simple [cow_rules]:
  "cow E valid content (retS x)" "cow E valid content (failS e)" "cow E valid content (liftS r)"
  "cow E valid content (getS f)"
  by (auto intro!: cowI kept_refl simp: retS_def failS_def liftS_def getS_def)

lemma cow_modS [cow_rules]: "(\<And>s. quiet_upd s (f s)) \<Longrightarrow> cow E valid content (modS f)"
  by (rule cowI) (auto simp: modS_def intro: kept_quiet)

lemma cow_bindS [cow_rules]:
  assumes "cow E valid content m" "\<And>x. cow E valid content (f x)"
  shows "cow E valid content (bindS m f)"
proof (rule cowI)
  fix s r s' assume i: "cow_inv E valid s" and b: "bindS m f s = (r, s')"
  obtain r1 t where m: "m s = (r1, t)" by fastforce
  have k: "kept E valid content s t" by (rule cowD [OF assms(1) i m])
  show "kept E valid content s s'"
  proof (cases r1)
    case (Ok x)
    then have "f x t = (r, s')" using b m by (simp add: bindS_def)
    then show ?thesis using cowD [OF assms(2) kept_inv [OF k]] kept_trans [OF k] by blast
  qed (use b m k in \<open>simp_all add: bindS_def\<close>)
qed

lemma cow_if [cow_rules]:
  "cow E valid content m \<Longrightarrow> cow E valid content m' \<Longrightarrow> cow E valid content (if b then m else m')"
  by simp

lemma cow_option [cow_rules]:
  "cow E valid content m \<Longrightarrow> (\<And>x. cow E valid content (f x)) \<Longrightarrow> cow E valid content (case r of None \<Rightarrow> m | Some x \<Rightarrow> f x)"
  by (cases r) simp_all

lemma cow_prod [cow_rules]:
  "(\<And>x y. cow E valid content (f x y)) \<Longrightarrow> cow E valid content (case p of (x, y) \<Rightarrow> f x y)"
  by (cases p) simp

lemma cow_whenS [cow_rules]: "cow E valid content m \<Longrightarrow> cow E valid content (whenS b m)"
  by (simp add: whenS_def cow_simple)

lemma cow_forS [cow_rules]: "(\<And>x. cow E valid content (f x)) \<Longrightarrow> cow E valid content (forS xs f)"
  by (induction xs) (auto intro: cow_rules)

lemma cow_begin_op [cow_rules]: "cow E valid content begin_op"
  by (rule cowI) (auto simp: begin_op_def intro: kept_quiet)

lemma cow_check_rw [cow_rules]: "cow E valid content check_rw"
  by (rule cowI) (auto simp: check_rw_def intro: kept_refl split: if_splits)

lemma cow_alloc_ino [cow_rules]: "cow E valid content alloc_ino"
  by (rule cowI) (auto simp: alloc_ino_def Let_def intro: kept_quiet)

lemma cow_with_rollback [cow_rules]:
  assumes "cow E valid content m"
  shows "cow E valid content (with_rollback m)"
  unfolding with_rollback_def
proof (intro cow_bindS cow_begin_op cowI)
  fix snap s r s'
  assume i: "cow_inv E valid s" and
    b: "(case m s of (Ok v, s') \<Rightarrow> (Ok v, s'\<lparr>op_fresh := []\<rparr>) | (Err e, s') \<Rightarrow> (Err e, fail_op snap s')
         | (Panic, s') \<Rightarrow> (Panic, s')) = (r, s')"
  obtain r1 t where m: "m s = (r1, t)" by fastforce
  have k: "kept E valid content s t" by (rule cowD [OF assms i m])
  have "quiet_upd t s'" using b m by (cases r1) auto
  then show "kept E valid content s s'" using kept_trans [OF k kept_quiet [OF kept_inv [OF k]]] by blast
qed

lemma cow_run_op [cow_rules]: "cow E valid content m \<Longrightarrow> cow E valid content (run_op m)"
  unfolding run_op_def by (intro cow_rules)

lemma read_loop_eq:
  "read_loop E i fin pos acc =
     (if pos < fin
      then let boff = pos mod BLOCK_SIZE; n = min (BLOCK_SIZE - boff) (fin - pos) in
           bindS (bmap_get E i (of_nat (pos div BLOCK_SIZE))) (\<lambda>ptr.
             if is_null ptr then read_loop E i fin (pos + n) (acc @ replicate n 0)
             else bindS (read_ptrS E ptr) (\<lambda>buf. read_loop E i fin (pos + n) (acc @ slice buf boff n)))
      else retS acc)"
proof
  fix s
  show "read_loop E i fin pos acc s = (if pos < fin
      then let boff = pos mod BLOCK_SIZE; n = min (BLOCK_SIZE - boff) (fin - pos) in
           bindS (bmap_get E i (of_nat (pos div BLOCK_SIZE))) (\<lambda>ptr.
             if is_null ptr then read_loop E i fin (pos + n) (acc @ replicate n 0)
             else bindS (read_ptrS E ptr) (\<lambda>buf. read_loop E i fin (pos + n) (acc @ slice buf boff n)))
      else retS acc) s"
    by (subst read_loop.simps) (auto simp: Let_def retS_def bindS_def split: prod.splits res.splits)
qed

lemma write_loop_eq:
  "write_loop E i off bs pos =
     (if pos < length bs
      then let at = off + of_nat pos; l = at div 4096; boff = unat (at mod 4096);
               n = min (BLOCK_SIZE - boff) (length bs - pos) in
           bindS (bmap_get E i l) (\<lambda>old.
           bindS (if n < BLOCK_SIZE \<and> \<not> is_null old then read_ptrS E old else retS zero_block) (\<lambda>buf.
           bindS (write_fresh E (splice buf boff (slice bs pos n))) (\<lambda>ptr.
           bindS (bmap_set E (if is_null old then i\<lparr>iblocks := iblocks i + 1\<rparr> else i) l ptr) (\<lambda>i'.
           write_loop E i' off bs (pos + n)))))
      else retS i)"
  by (rule ext, subst write_loop.simps) (simp add: Let_def retS_def)

context block_device
begin

abbreviation (input) cow_here :: "('w, 'x) fsm \<Rightarrow> bool" where
  "cow_here \<equiv> cow E valid content"

lemma cow_devS:
  assumes "\<And>w r w'. valid w \<Longrightarrow> m w = (r, w') \<Longrightarrow> same_disk E valid content w w'"
  shows "cow_here (devS m)"
proof (rule cowI)
  fix s r s' assume i: "cow_inv E valid s" and d: "devS m s = (r, s')"
  obtain w where w: "m (dev s) = (r, w)" "s' = s\<lparr>dev := w\<rparr>"
    using d by (cases "m (dev s)") (simp add: devS_def)
  have "same_disk E valid content (dev s) w" using assms w(1) i by (simp add: cow_inv_def)
  then show "kept E valid content s s'" unfolding w(2) by (rule kept_dev [OF i])
qed

lemma cow_read_ptrS [cow_rules]: "cow_here (read_ptrS E p)"
  unfolding read_ptrS_def by (rule cow_devS) (rule read_ptr_opened(1))

lemma cow_flush [cow_rules]: "cow_here (devS (dev_flush E))"
  by (rule cow_devS) (rule flush_same)

lemma cow_nowS [cow_rules]: "cow_here (nowS E)"
proof (rule cowI)
  fix s r s' assume i: "cow_inv E valid s" and n: "nowS E s = (r, s')"
  obtain t w where w: "clock E (dev s) = (t, w)" by fastforce
  then have "s' = s\<lparr>dev := w\<rparr>" using n by (simp add: nowS_def)
  moreover have "same_disk E valid content (dev s) w" using clock_same w i by (simp add: cow_inv_def)
  ultimately show "kept E valid content s s'" using kept_dev [OF i] by simp
qed

text \<open>Writing a block that was just allocated.\<close>

lemma kept_write:
  assumes "cow_inv E valid s" "allocated s b t" "dev_write E b c (dev t) = (r, w)"
  shows "kept E valid content s (t\<lparr>dev := w\<rparr>)"
proof -
  obtain k where t: "t = s\<lparr>alloc_cursor := k, fresh := insert b (fresh s), op_fresh := op_fresh s @ [b]\<rparr>"
    and k: "k < h_total_blocks (header s) - FIRST_DATA_BLOCK" and f: "free_block s b"
    using assms(2) unfolding allocated_def by blast
  have w: "dev_write E b c (dev s) = (r, w)" using assms(3) by (simp add: t)
  have v: "valid (dev s)" "h_total_blocks (header s) \<le> dev_total E (dev s)" using assms(1) by (simp_all add: cow_inv_def)
  have bt: "b < dev_total E (dev s)"
    by (rule less_le_trans [OF _ v(2)]) (use f in \<open>simp add: free_block_def data_block_def\<close>)
  note wv = write_valid [OF v(1) w] and wf = write_frame [OF v(1) w bt]
  have "cow_inv E valid (t\<lparr>dev := w\<rparr>)"
    using assms(1) k f wv by (auto simp: cow_inv_def t geometry_ok_def data_block_def free_block_def)
  moreover have "b' < dev_total E (dev s) \<Longrightarrow> b' \<notin> insert b (fresh s) - fresh s \<Longrightarrow> content w b' = content (dev s) b'" for b'
    using wf f by (cases "b' = b") (auto simp: free_block_def)
  ultimately show ?thesis using wv by (auto simp: kept_def same_committed_def t)
qed

lemma cow_write_fresh [cow_rules]: "cow_here (write_fresh E buf)"
proof (rule cowI)
  fix s r s' assume i: "cow_inv E valid s" and wf: "write_fresh E buf s = (r, s')"
  have g: "geometry_ok s" using i by (simp add: cow_inv_def)
  show "kept E valid content s s'"
  proof (rule alloc_block_cases [OF g])
    assume "alloc_block s = (Err NoSpace, s)"
    then have "s' = s" using wf by (simp add: write_fresh_def bindS_def)
    then show ?thesis using kept_refl [OF i] by simp
  next
    fix b t assume a: "alloc_block s = (Ok b, t)" "allocated s b t"
    obtain tg c where e: "encrypt_block E b (txn_gen t) (dyn_aad b (txn_gen t)) buf = (tg, c)" by fastforce
    obtain r1 w where w: "dev_write E b c (dev t) = (r1, w)" by fastforce
    have k: "kept E valid content s (t\<lparr>dev := w\<rparr>)" by (rule kept_write [OF i a(2) w])
    have "quiet_upd (t\<lparr>dev := w\<rparr>) s'"
      using wf a(1) e w by (cases r1) (auto simp: write_fresh_def bindS_def getS_def modS_def retS_def devS_def)
    then show ?thesis using kept_trans [OF k kept_quiet [OF kept_inv [OF k]]] by blast
  qed
qed

lemma cow_imap_walk: "cow_here (imap_walk l E ino p)"
  by (induction l arbitrary: p) (auto intro!: cow_rules simp: Let_def)

lemma cow_imap_get [cow_rules]: "cow_here (imap_get E ino)"
  unfolding imap_get_def by (intro cow_rules cow_imap_walk)

lemma cow_get_inode_req [cow_rules]: "cow_here (get_inode_req E ino)"
  unfolding get_inode_req_def by (intro cow_rules)

lemma cow_grow_loop: "cow_here (grow_loop n E ino)"
  by (induction n) (auto intro!: cow_rules)

lemma cow_node_buf [cow_rules]: "cow_here (node_buf E p)"
  unfolding node_buf_def by (intro cow_rules)

lemma cow_imap_set_rec: "cow_here (imap_set_rec l E p ino bs)"
  by (induction l arbitrary: p) (auto intro!: cow_rules simp: Let_def)

lemma cow_imap_set [cow_rules]: "cow_here (imap_set E ino i)"
  unfolding imap_set_def grow_imap_def by (intro cow_rules cow_grow_loop cow_imap_set_rec) simp

lemma cow_bmap_walk: "cow_here (bmap_walk n E l p)"
  by (induction n arbitrary: p) (auto intro!: cow_rules)

lemma cow_bmap_get [cow_rules]: "cow_here (bmap_get E i l)"
  unfolding bmap_get_def Let_def by (intro cow_rules cow_bmap_walk)

lemma cow_bmap_grow: "cow_here (bmap_grow n E l i)"
  by (induction n arbitrary: i) (auto intro!: cow_rules)

lemma cow_bmap_set_rec: "cow_here (bmap_set_rec n E p l new)"
  by (induction n arbitrary: p) (auto intro!: cow_rules simp: Let_def)

lemma cow_bmap_set [cow_rules]: "cow_here (bmap_set E i l new)"
  unfolding bmap_set_def by (intro cow_rules cow_bmap_grow cow_bmap_set_rec) simp

lemma cow_retire_bmap [cow_rules]: "cow_here (retire_bmap h E p)"
  by (induction h arbitrary: p) (auto intro!: cow_rules simp: Let_def)

lemma cow_free_inode [cow_rules]: "cow_here (free_inode E ino i)"
  unfolding free_inode_def by (intro cow_rules) simp

lemma cow_drop_link [cow_rules]: "cow_here (drop_link E ino i now)"
  unfolding drop_link_def Let_def by (intro cow_rules)

lemma cow_read_loop [cow_rules]: "cow_here (read_loop E i fin pos acc)"
proof (induction "fin - pos" arbitrary: pos acc rule: less_induct)
  case less
  show ?case
  proof (cases "pos < fin")
    case True
    then have "fin - (pos + min (BLOCK_SIZE - pos mod BLOCK_SIZE) (fin - pos)) < fin - pos"
      by (simp add: BLOCK_SIZE_def)
    then show ?thesis
      unfolding read_loop_eq [of E i fin pos acc] Let_def by (intro cow_rules less.hyps)
  next
    case False
    then show ?thesis by (simp add: read_loop_eq cow_simple)
  qed
qed

lemma cow_write_loop [cow_rules]: "cow_here (write_loop E i off bs pos)"
proof (induction "length bs - pos" arbitrary: i pos rule: less_induct)
  case less
  show ?case
  proof (cases "pos < length bs")
    case True
    have "unat ((off + of_nat pos) mod 4096) < 4096" by (simp add: unat_mod)
    then have "length bs - (pos + min (BLOCK_SIZE - unat ((off + of_nat pos) mod 4096)) (length bs - pos))
        < length bs - pos" using True by (simp add: BLOCK_SIZE_def)
    then show ?thesis
      unfolding write_loop_eq [of E i off bs pos] Let_def by (intro cow_rules less.hyps)
  next
    case False
    then show ?thesis by (simp add: write_loop_eq cow_simple)
  qed
qed

lemma cow_read_blocks [cow_rules]: "cow_here (read_blocks E i off out)"
  unfolding read_blocks_def Let_def by (intro cow_rules)

lemma cow_write_blocks [cow_rules]: "cow_here (write_blocks E i off bs)"
  unfolding write_blocks_def by (intro cow_rules)

lemma cow_write_at [cow_rules]: "cow_here (write_at E ino off bs)"
  unfolding write_at_def write_at_inner_def by (intro cow_rules)

lemma cow_read_at [cow_rules]: "cow_here (read_at E ino off out)"
  unfolding read_at_def by (intro cow_rules)

lemma cow_cut_loop [cow_rules]: "cow_here (cut_loop ls E i)"
  by (induction ls arbitrary: i) (auto intro!: cow_rules)

lemma cow_cut_tail [cow_rules]: "cow_here (cut_tail E i n)"
  unfolding cut_tail_def Let_def by (intro cow_rules)

lemma cow_truncate [cow_rules]: "cow_here (truncate_file E ino n)"
  unfolding truncate_file_def truncate_inner_def by (intro cow_rules)

lemma cow_dir_block [cow_rules]: "cow_here (dir_block E d l)"
  unfolding dir_block_def by (intro cow_rules)

lemma cow_dir_lookup [cow_rules]: "cow_here (dir_lookup E d name)"
proof -
  have "cow_here (dir_lookup_loop ls E d name)" for ls by (induction ls) (auto intro!: cow_rules)
  then show ?thesis by (simp add: dir_lookup_def)
qed

lemma cow_dir_write_block [cow_rules]: "cow_here (dir_write_block E d l buf)"
  unfolding dir_write_block_def by (intro cow_rules)

lemma cow_dir_add_entry [cow_rules]: "cow_here (dir_add_entry E d name ino ft)"
proof -
  have "cow_here (dir_add_loop ls E d name ino ft)" for ls by (induction ls) (auto intro!: cow_rules)
  then show ?thesis unfolding dir_add_entry_def by (intro cow_rules)
qed

lemma cow_dir_remove_entry [cow_rules]: "cow_here (dir_remove_entry E d name)"
proof -
  have "cow_here (dir_remove_loop ls E d name)" for ls by (induction ls) (auto intro!: cow_rules)
  then show ?thesis by (simp add: dir_remove_entry_def)
qed

lemma cow_check_dir_empty [cow_rules]: "cow_here (check_dir_empty E d)"
  unfolding check_dir_empty_def by (intro cow_rules)

lemma cow_lookup [cow_rules]: "cow_here (lookup E path)"
proof -
  have "cow_here (lookup_loop cs E ino)" for cs ino by (induction cs arbitrary: ino) (auto intro!: cow_rules)
  then show ?thesis by (simp add: lookup_def cow_simple)
qed

lemma cow_readdir [cow_rules]: "cow_here (readdir E path)"
proof -
  have "cow_here (readdir_loop ls E d)" for ls d by (induction ls) (auto intro!: cow_rules)
  then show ?thesis unfolding readdir_def by (intro cow_rules)
qed

lemma cow_create_inner [cow_rules]: "cow_here (create_inner E path dir)"
  unfolding create_inner_def Let_def by (intro cow_rules) simp

lemma cow_unlink_inner [cow_rules]: "cow_here (unlink_inner E path)"
  unfolding unlink_inner_def by (intro cow_rules)

lemma cow_rmdir_inner [cow_rules]: "cow_here (rmdir_inner E path)"
  unfolding rmdir_inner_def by (intro cow_rules) simp

lemma cow_link_inner [cow_rules]: "cow_here (link_inner E a b)"
  unfolding link_inner_def by (intro cow_rules)

lemma cow_symlink_inner [cow_rules]: "cow_here (symlink_inner E a b)"
  unfolding symlink_inner_def Let_def by (intro cow_rules) simp

lemma cow_pin [cow_rules]: "cow_here (pin E ino)"
  unfolding pin_def by (intro cow_rules) simp

lemma cow_unpin [cow_rules]: "cow_here (unpin E ino)"
  unfolding unpin_def by (intro cow_rules) simp_all

lemma cow_dotdot_of [cow_rules]: "cow_here (dotdot_of E dir)"
  unfolding dotdot_of_def by (intro cow_rules)

lemma kept_loop_check:
  assumes "loop_check E src cur s = Some y" "cow_inv E valid s"
  shows "kept E valid content s (snd y)"
proof -
  have "E = E \<longrightarrow> cow_inv E valid s \<longrightarrow> kept E valid content s (snd y)"
    using assms(1)
  proof (rule loop_check.raw_induct [where P = "\<lambda>F src cur s y. F = E \<longrightarrow> cow_inv E valid s \<longrightarrow> kept E valid content s (snd y)", rotated],
      intro impI)
    fix rec F src cur s y
    assume ih: "\<And>F src cur s y. rec F src cur s = Some y \<Longrightarrow> F = E \<longrightarrow> cow_inv E valid s \<longrightarrow> kept E valid content s (snd y)"
      and b: "(if cur = src then Some (Err Invalid, s) else if cur = ROOT_INO then Some (Ok (), s)
         else case dotdot_of F cur s of (Ok up, s') \<Rightarrow> rec F src up s' | (Err e, s') \<Rightarrow> Some (Err e, s')
              | (Panic, s') \<Rightarrow> Some (Panic, s')) = Some y"
      and F: "F = E" and i: "cow_inv E valid s"
    obtain r t where d: "dotdot_of E cur s = (r, t)" by fastforce
    have k: "kept E valid content s t" by (rule cowD [OF cow_dotdot_of i d])
    show "kept E valid content s (snd y)"
    proof (cases "cur = src \<or> cur = ROOT_INO")
      case True
      then show ?thesis using b kept_refl [OF i] by (auto split: if_splits)
    next
      case False
      show ?thesis
      proof (cases r)
        case (Ok up)
        then have "rec E src up t = Some y" using b False d F by simp
        then show ?thesis using ih kept_inv [OF k] kept_trans [OF k] by blast
      qed (use b False d F k in auto)
    qed
  qed
  with assms(2) show ?thesis by simp
qed

lemma cow_rename_prepare [cow_rules]: "cow_here (rename_prepare E a b c d)"
  unfolding rename_prepare_def Let_def by (intro cow_rules)

lemma cow_rename_apply [cow_rules]: "cow_here (rename_apply E a b p)"
  unfolding rename_apply_def rename_evict_def rename_dotdot_def by (intro cow_rules)

lemma kept_rename_inner:
  assumes "rename_inner E old new s = Some y" "cow_inv E valid s"
  shows "kept E valid content s (snd y)"
proof -
  let ?m = "bindS (liftS (split_parent old)) (\<lambda>(oppath, oname).
             bindS (liftS (split_parent new)) (\<lambda>(nppath, nname).
             bindS (rename_prepare E oppath oname nppath nname) (\<lambda>p. retS (oname, nname, p))))"
  obtain r t where m: "?m s = (r, t)" by fastforce
  have "cow_here ?m" by (intro cow_rules)
  then have k: "kept E valid content s t" using assms(2) m by (rule cowD)
  have ap: "kept E valid content s (snd (rename_apply E a b p u))" if "kept E valid content s u" for a b p u
  proof -
    obtain r1 v where v: "rename_apply E a b p u = (r1, v)" by fastforce
    have "kept E valid content u v" by (rule cowD [OF cow_rename_apply kept_inv [OF that] v])
    then show ?thesis using kept_trans [OF that] v by simp
  qed
  note ri = assms(1) [unfolded rename_inner_def m]
  show ?thesis
  proof (cases r)
    case (Ok x)
    obtain oname nname pl where x: "x = (oname, nname, pl)" by (cases x)
    show ?thesis
    proof (cases pl)
      case None
      then have "y = (Ok (), t)" using ri by (simp add: Ok x)
      then show ?thesis using k by simp
    next
      case (Some p)
      show ?thesis
      proof (cases "is_dir (rp_inode p)")
        case True
        show ?thesis
        proof (cases "loop_check E (rp_src p) (rp_np p) t")
          case None
          then show ?thesis using ri by (simp add: Ok x Some True)
        next
          case l: (Some z)
          obtain r2 u where z: "z = (r2, u)" by (cases z)
          have ku: "kept E valid content s u"
            using kept_trans [OF k] kept_loop_check [OF l kept_inv [OF k]] z by simp
          show ?thesis
          proof (cases r2)
            case o: (Ok v)
            have "y = rename_apply E oname nname p u" using ri by (simp add: Ok x Some True l z o)
            then show ?thesis using ap [OF ku] by simp
          next
            case e: (Err err)
            have "y = (Err err, u)" using ri by (simp add: Ok x Some True l z e)
            then show ?thesis using ku by simp
          next
            case e: Panic
            have "y = (Panic, u)" using ri by (simp add: Ok x Some True l z e)
            then show ?thesis using ku by simp
          qed
        qed
      next
        case False
        then have "y = rename_apply E oname nname p t" using ri by (simp add: Ok x Some)
        then show ?thesis using ap [OF k] by simp
      qed
    qed
  next
    case (Err e)
    then have "y = (Err e, t)" using ri by simp
    then show ?thesis using k by simp
  next
    case Panic
    then have "y = (Panic, t)" using ri by simp
    then show ?thesis using k by simp
  qed
qed

lemma kept_rename:
  assumes "rename E old new s = Some y" "cow_inv E valid s"
  shows "kept E valid content s (snd y)"
proof -
  obtain r t where m: "bindS check_rw (\<lambda>_. begin_op) s = (r, t)" by fastforce
  have "cow_here (bindS check_rw (\<lambda>_. begin_op))" by (intro cow_rules)
  then have k: "kept E valid content s t" using assms(2) m by (rule cowD)
  note rn = assms(1) [unfolded rename_def m]
  show ?thesis
  proof (cases r)
    case (Ok snap)
    show ?thesis
    proof (cases "rename_inner E old new t")
      case None
      then show ?thesis using rn by (simp add: Ok)
    next
      case (Some z)
      obtain r2 u where z: "z = (r2, u)" by (cases z)
      have ku: "kept E valid content s u"
        using kept_trans [OF k] kept_rename_inner [OF Some kept_inv [OF k]] z by simp
      have "snd y = u\<lparr>op_fresh := []\<rparr> \<or> snd y = fail_op snap u \<or> snd y = u"
      proof (cases r2)
        case o: (Ok v)
        have "y = (Ok v, u\<lparr>op_fresh := []\<rparr>)" using rn by (simp add: Ok Some z o)
        then show ?thesis by simp
      next
        case e: (Err err)
        have "y = (Err err, fail_op snap u)" using rn by (simp add: Ok Some z e)
        then show ?thesis by simp
      next
        case e: Panic
        have "y = (Panic, u)" using rn by (simp add: Ok Some z e)
        then show ?thesis by simp
      qed
      then have "quiet_upd u (snd y)" by auto
      then show ?thesis using kept_trans [OF ku kept_quiet [OF kept_inv [OF ku]]] by simp
    qed
  next
    case (Err e)
    then have "y = (Err e, t)" using rn by simp
    then show ?thesis using k by simp
  next
    case Panic
    then have "y = (Panic, t)" using rn by simp
    then show ?thesis using k by simp
  qed
qed

end

section \<open>Sequences of operations\<close>

text \<open>One call of a public operation other than \<^verbatim>\<open>commit\<close> and \<^verbatim>\<open>fsync\<close>, whatever its outcome.\<close>

inductive fs_step :: "'w env \<Rightarrow> 'w rfs2 \<Rightarrow> 'w rfs2 \<Rightarrow> bool" for E where
  st_write: "write_at E ino off bs s = (r0, s') \<Longrightarrow> fs_step E s s'"
| st_truncate: "truncate_file E ino n s = (r0, s') \<Longrightarrow> fs_step E s s'"
| st_create: "create E path s = (r1, s') \<Longrightarrow> fs_step E s s'"
| st_mkdir: "mkdir E path s = (r1, s') \<Longrightarrow> fs_step E s s'"
| st_unlink: "unlink E path s = (r0, s') \<Longrightarrow> fs_step E s s'"
| st_rmdir: "rmdir E path s = (r0, s') \<Longrightarrow> fs_step E s s'"
| st_link: "link E a b s = (r0, s') \<Longrightarrow> fs_step E s s'"
| st_symlink: "symlink E a b s = (r1, s') \<Longrightarrow> fs_step E s s'"
| st_rename: "rename E a b s = Some (r0, s') \<Longrightarrow> fs_step E s s'"
| st_pin: "pin E ino s = (r0, s') \<Longrightarrow> fs_step E s s'"
| st_unpin: "unpin E ino s = (r0, s') \<Longrightarrow> fs_step E s s'"
| st_read: "read_at E ino off out s = (r2, s') \<Longrightarrow> fs_step E s s'"
| st_lookup: "lookup E path s = (r1, s') \<Longrightarrow> fs_step E s s'"
| st_readdir: "readdir E path s = (r3, s') \<Longrightarrow> fs_step E s s'"

context block_device
begin

lemma fs_step_kept:
  assumes "fs_step E s s'" "cow_inv E valid s"
  shows "kept E valid content s s'"
  using assms(1)
proof cases
  case (st_write ino off bs r)
  then show ?thesis by (rule cowD [OF cow_write_at assms(2)])
next
  case (st_truncate ino n r)
  then show ?thesis by (rule cowD [OF cow_truncate assms(2)])
next
  case (st_create path r)
  have "cow_here (create E path)" unfolding create_def by (intro cow_rules)
  then show ?thesis using assms(2) st_create by (rule cowD)
next
  case (st_mkdir path r)
  have "cow_here (mkdir E path)" unfolding mkdir_def by (intro cow_rules)
  then show ?thesis using assms(2) st_mkdir by (rule cowD)
next
  case (st_unlink path r)
  have "cow_here (unlink E path)" unfolding unlink_def by (intro cow_rules)
  then show ?thesis using assms(2) st_unlink by (rule cowD)
next
  case (st_rmdir path r)
  have "cow_here (rmdir E path)" unfolding rmdir_def by (intro cow_rules)
  then show ?thesis using assms(2) st_rmdir by (rule cowD)
next
  case (st_link a b r)
  have "cow_here (link E a b)" unfolding link_def by (intro cow_rules)
  then show ?thesis using assms(2) st_link by (rule cowD)
next
  case (st_symlink a b r)
  have "cow_here (symlink E a b)" unfolding symlink_def by (intro cow_rules)
  then show ?thesis using assms(2) st_symlink by (rule cowD)
next
  case (st_rename a b r)
  then show ?thesis using kept_rename assms(2) by fastforce
next
  case (st_pin ino r)
  then show ?thesis by (rule cowD [OF cow_pin assms(2)])
next
  case (st_unpin ino r)
  then show ?thesis by (rule cowD [OF cow_unpin assms(2)])
next
  case (st_read ino off out r)
  then show ?thesis by (rule cowD [OF cow_read_at assms(2)])
next
  case (st_lookup path r)
  then show ?thesis by (rule cowD [OF cow_lookup assms(2)])
next
  case (st_readdir path r)
  then show ?thesis by (rule cowD [OF cow_readdir assms(2)])
qed

lemma fs_steps_kept:
  "(fs_step E)\<^sup>*\<^sup>* s s' \<Longrightarrow> cow_inv E valid s \<Longrightarrow> kept E valid content s s'"
proof (induction rule: rtranclp_induct)
  case base
  then show ?case by (rule kept_refl)
next
  case (step t u)
  then show ?case using kept_trans fs_step_kept kept_inv by blast
qed

end

text \<open>Blocks no operation before the next commit may change: the header, the two slots, and what either valid
  superblock reaches.\<close>

definition committed_blocks :: "'w rfs2 \<Rightarrow> u64 set" where
  "committed_blocks s = {0, SB_SLOT_A, SB_SLOT_B} \<union> bm_mem (live_cur s) \<union> bm_mem (live_prev s)"

lemma kept_committed:
  assumes "kept E valid content s s'" "b \<in> committed_blocks s" "b < dev_total E (dev s)"
  shows "content (dev s') b = content (dev s) b"
proof -
  have "b \<notin> fresh s'"
  proof
    assume "b \<in> fresh s'"
    then have "FIRST_DATA_BLOCK \<le> b" "b \<notin> bm_mem (live_cur s')" "b \<notin> bm_mem (live_prev s')"
      using kept_inv [OF assms(1)] by (auto simp: cow_inv_def data_block_def)
    moreover have "live_cur s' = live_cur s" "live_prev s' = live_prev s"
      using assms(1) by (simp_all add: kept_def same_committed_def)
    moreover have "\<not> FIRST_DATA_BLOCK \<le> 0" "\<not> FIRST_DATA_BLOCK \<le> SB_SLOT_A" "\<not> FIRST_DATA_BLOCK \<le> SB_SLOT_B"
      by (simp_all add: FIRST_DATA_BLOCK_def SB_SLOT_A_def SB_SLOT_B_def word_le_nat_alt)
    ultimately show False using assms(2) by (auto simp: committed_blocks_def)
  qed
  then show ?thesis using assms(1,3) by (simp add: kept_def)
qed

text \<open>A tree whose blocks did not change is the same tree.\<close>

lemma reach_same:
  "reach E c n m \<Longrightarrow> (\<And>x. reach E c n x \<Longrightarrow> c' (block (nptr x)) = c (block (nptr x))) \<Longrightarrow> reach E c' n m"
proof (induction rule: reach.induct)
  case (reach_self n)
  from reach_self(1) show ?case by (rule reach.reach_self)
next
  case (reach_down n buf k m)
  have "opened E c' (nptr n) = Ok buf"
    using reach_down.hyps(2) reach_down.prems [OF reach.reach_self [OF reach_down.hyps(1)]] by (simp add: opened_def)
  moreover have "reach E c' k m"
    using reach_down.IH reach_down.prems reach.reach_down [OF reach_down.hyps(1-3)] by blast
  ultimately show ?case using reach_down.hyps by (auto intro: reach.reach_down)
qed

lemma reach_eq:
  assumes "\<And>x. reach E c n x \<Longrightarrow> c' (block (nptr x)) = c (block (nptr x))"
  shows "reach E c' n m \<longleftrightarrow> reach E c n m"
proof
  assume "reach E c' n m"
  then show "reach E c n m" using assms
  proof (induction rule: reach.induct)
    case (reach_self n)
    then show ?case by (auto intro: reach.reach_self)
  next
    case (reach_down n buf k m)
    have "opened E c (nptr n) = Ok buf"
      using reach_down.hyps(2) reach_down.prems [OF reach.reach_self [OF reach_down.hyps(1)]] by (simp add: opened_def)
    then have "reach E c k m"
      using reach_down.IH reach_down.prems reach.reach_down [OF reach_down.hyps(1) _ reach_down.hyps(3)] by blast
    then show ?case
      using \<open>opened E c (nptr n) = Ok buf\<close> reach_down.hyps by (auto intro: reach.reach_down)
  qed
next
  assume "reach E c n m"
  then show "reach E c' n m" using assms by (rule reach_same)
qed


text \<open>
  C17. The allocator returns a block of the data region that is reachable from neither valid superblock and was not
  yet allocated in this generation (so no \<^verbatim>\<open>(block, gen)\<close> nonce is reused), and reports
  \<^verbatim>\<open>NoSpace\<close> exactly when there is no such block; it never panics.
\<close>
theorem alloc_block_spec:
  assumes "geometry_ok s"
  shows "(\<exists>b s'. alloc_block s = (Ok b, s') \<and> FIRST_DATA_BLOCK \<le> b \<and> b < h_total_blocks (header s)
            \<and> b \<notin> bm_mem (live_cur s) \<and> b \<notin> bm_mem (live_prev s) \<and> b \<notin> fresh s
            \<and> fresh s' = insert b (fresh s) \<and> geometry_ok s')
    \<or> (alloc_block s = (Err NoSpace, s)
        \<and> {b. FIRST_DATA_BLOCK \<le> b \<and> b < h_total_blocks (header s)} \<subseteq> bm_mem (live_cur s) \<union> bm_mem (live_prev s) \<union> fresh s)"
proof (rule alloc_block_cases [OF assms])
  fix b s' assume a: "alloc_block s = (Ok b, s')" "allocated s b s'"
  then have f: "free_block s b" and k: "alloc_cursor s' < h_total_blocks (header s) - FIRST_DATA_BLOCK"
    and s': "s' = s\<lparr>alloc_cursor := alloc_cursor s', fresh := insert b (fresh s), op_fresh := op_fresh s @ [b]\<rparr>"
    by (simp_all add: allocated_def)
  have "fresh s' = insert b (fresh s)" "header s' = header s" "live_cur s' = live_cur s" "live_prev s' = live_prev s"
    by (subst s', simp)+
  then show ?thesis using a(1) f k assms
    by (intro disjI1 exI [of _ b] exI [of _ s']) (simp add: free_block_def data_block_def geometry_ok_def)
next
  assume "alloc_block s = (Err NoSpace, s)" "\<forall>b. \<not> free_block s b"
  then show ?thesis by (auto simp: free_block_def data_block_def)
qed

section \<open>Commit\<close>

lemma clear_all_mem:
  "clear_all bs bm = Ok bm' \<Longrightarrow> bm_mem bm' = bm_mem bm - set bs \<and> length (bm_words bm') = length (bm_words bm)"
proof (induction bs arbitrary: bm)
  case (Cons b bs)
  then obtain bm1 where b: "bm_clear bm b = (Ok bm1 :: (rfs_error, bitmap) res)" "clear_all bs bm1 = Ok bm'"
    by (auto simp: res_bind_eq_Ok)
  have i: "unat b div 64 < length (bm_words bm)" using b(1) by (auto simp: bm_clear_def unat_div64 split: if_splits)
  obtain bm2 where "bm_clear bm b = (Ok bm2 :: (rfs_error, bitmap) res)" "bm_mem bm2 = bm_mem bm - {b}"
    "length (bm_words bm2) = length (bm_words bm)" by (rule bm_clear_Ok [OF i])
  then show ?case using Cons.IH [OF b(2)] b(1) by auto
qed simp

lemma set_all_mem:
  "set_all bs bm = Ok bm' \<Longrightarrow> bm_mem bm' = bm_mem bm \<union> set bs \<and> length (bm_words bm') = length (bm_words bm)"
proof (induction bs arbitrary: bm)
  case (Cons b bs)
  then obtain p bm1 where b: "bm_set bm b = (Ok (p, bm1) :: (rfs_error, bool \<times> bitmap) res)" "set_all bs bm1 = Ok bm'"
    by (auto simp: res_bind_eq_Ok)
  have i: "unat b div 64 < length (bm_words bm)" using b(1) by (auto simp: bm_set_def unat_div64 split: if_splits)
  obtain bm2 where "bm_set bm b = (Ok (b \<in> bm_mem bm, bm2) :: (rfs_error, bool \<times> bitmap) res)"
    "bm_mem bm2 = insert b (bm_mem bm)" "length (bm_words bm2) = length (bm_words bm)"
    by (rule bm_set_Ok [OF i])
  then show ?case using Cons.IH [OF b(2)] b(1) by auto
qed simp

lemma next_live_mem:
  assumes "next_live s = Ok bm"
  shows "bm_mem bm = (bm_mem (live_cur s) - retired s) \<union> (fresh s - dropped_fresh s)"
    "length (bm_words bm) = length (bm_words (live_cur s))"
proof -
  obtain bm1 where 1: "clear_all (sorted_list_of_set (retired s)) (live_cur s) = Ok bm1"
    "set_all (filter (\<lambda>b. b \<notin> dropped_fresh s) (sorted_list_of_set (fresh s))) bm1 = Ok bm"
    using assms by (auto simp: next_live_def res_bind_eq_Ok)
  have fin: "finite (A :: u64 set)" for A by simp
  show "bm_mem bm = (bm_mem (live_cur s) - retired s) \<union> (fresh s - dropped_fresh s)"
    using clear_all_mem [OF 1(1)] set_all_mem [OF 1(2)] by (auto simp: fin)
  show "length (bm_words bm) = length (bm_words (live_cur s))"
    using clear_all_mem [OF 1(1)] set_all_mem [OF 1(2)] by simp
qed

text \<open>What a completed commit leaves in memory.\<close>

definition flipped :: "'w rfs2 \<Rightarrow> 'w rfs2 \<Rightarrow> bool" where
  "flipped s s' \<longleftrightarrow> cur_slot s' = other_slot (cur_slot s) \<and> header s' = header s
     \<and> bm_mem (live_cur s') = (bm_mem (live_cur s) - retired s) \<union> (fresh s - dropped_fresh s)
     \<and> live_prev s' = live_cur s \<and> sb_gen (sb s') = sb_gen (sb s) + 1
     \<and> inode_map_root (sb s') = staged_root s \<and> inode_map_height (sb s') = staged_height s
     \<and> next_inode (sb s') = staged_next_inode s \<and> inode_count (sb s') = staged_inode_count s
     \<and> sb_total_blocks (sb s') = h_total_blocks (header s) \<and> sb_uuid (sb s') = h_uuid (header s)
     \<and> fresh s' = {} \<and> dropped_fresh s' = {} \<and> retired s' = {} \<and> \<not> dirty s'"

lemma commit_idle: "\<not> dirty s \<Longrightarrow> commit E s = (Ok (), s)"
  "dirty s \<Longrightarrow> sb_gen (sb s) \<ge> GEN_LIMIT \<Longrightarrow> commit E s = (Err GenExhausted, s)"
  by (simp_all add: commit_def bindS_def getS_def retS_def failS_def)

text \<open>The five ways a commit that has something to write can go, in the order of its steps.\<close>

lemma commit_run:
  assumes "dirty s" "sb_gen (sb s) < GEN_LIMIT" "dev_flush E (dev s) = (r1, w1)"
  shows "\<not> is_ok r1 \<Longrightarrow> \<exists>r. commit E s = (r, s\<lparr>dev := w1\<rparr>) \<and> \<not> is_ok r"
    and "is_ok r1 \<Longrightarrow> \<not> is_ok (next_live s) \<Longrightarrow> \<exists>r. commit E s = (r, s\<lparr>dev := w1\<rparr>) \<and> \<not> is_ok r"
    and "is_ok r1 \<Longrightarrow> next_live s = Ok lv \<Longrightarrow> clock E w1 = (now, w2)
      \<Longrightarrow> write_slot E (other_slot (cur_slot s)) (next_sb s lv now) w2 = (r3, w3) \<Longrightarrow> \<not> is_ok r3
      \<Longrightarrow> \<exists>r. commit E s = (r, s\<lparr>dev := w3\<rparr>) \<and> \<not> is_ok r"
    and "is_ok r1 \<Longrightarrow> next_live s = Ok lv \<Longrightarrow> clock E w1 = (now, w2)
      \<Longrightarrow> write_slot E (other_slot (cur_slot s)) (next_sb s lv now) w2 = (r3, w3) \<Longrightarrow> is_ok r3
      \<Longrightarrow> dev_flush E w3 = (r4, w4) \<Longrightarrow> \<not> is_ok r4 \<Longrightarrow> \<exists>r. commit E s = (r, s\<lparr>dev := w4\<rparr>) \<and> \<not> is_ok r"
    and "is_ok r1 \<Longrightarrow> next_live s = Ok lv \<Longrightarrow> clock E w1 = (now, w2)
      \<Longrightarrow> write_slot E (other_slot (cur_slot s)) (next_sb s lv now) w2 = (r3, w3) \<Longrightarrow> is_ok r3
      \<Longrightarrow> dev_flush E w3 = (r4, w4) \<Longrightarrow> is_ok r4
      \<Longrightarrow> commit E s = (Ok (), rotate (next_sb s lv now) lv (s\<lparr>dev := w4\<rparr>))"
proof -
  have g: "\<not> sb_gen (sb s) \<ge> GEN_LIMIT" using assms(2) by simp
  note d = commit_def bindS_def getS_def devS_def liftS_def nowS_def modS_def Let_def
  show "\<not> is_ok r1 \<Longrightarrow> \<exists>r. commit E s = (r, s\<lparr>dev := w1\<rparr>) \<and> \<not> is_ok r"
    using assms(1,3) g by (cases r1) (simp_all add: d)
  show "is_ok r1 \<Longrightarrow> \<not> is_ok (next_live s) \<Longrightarrow> \<exists>r. commit E s = (r, s\<lparr>dev := w1\<rparr>) \<and> \<not> is_ok r"
    using assms(1,3) g by (cases r1; cases "next_live s") (simp_all add: d)
  show "is_ok r1 \<Longrightarrow> next_live s = Ok lv \<Longrightarrow> clock E w1 = (now, w2)
      \<Longrightarrow> write_slot E (other_slot (cur_slot s)) (next_sb s lv now) w2 = (r3, w3) \<Longrightarrow> \<not> is_ok r3
      \<Longrightarrow> \<exists>r. commit E s = (r, s\<lparr>dev := w3\<rparr>) \<and> \<not> is_ok r"
    using assms(1,3) g by (cases r1; cases r3) (simp_all add: d)
  show "is_ok r1 \<Longrightarrow> next_live s = Ok lv \<Longrightarrow> clock E w1 = (now, w2)
      \<Longrightarrow> write_slot E (other_slot (cur_slot s)) (next_sb s lv now) w2 = (r3, w3) \<Longrightarrow> is_ok r3
      \<Longrightarrow> dev_flush E w3 = (r4, w4) \<Longrightarrow> \<not> is_ok r4 \<Longrightarrow> \<exists>r. commit E s = (r, s\<lparr>dev := w4\<rparr>) \<and> \<not> is_ok r"
    using assms(1,3) g by (cases r1; cases r3; cases r4) (simp_all add: d)
  show "is_ok r1 \<Longrightarrow> next_live s = Ok lv \<Longrightarrow> clock E w1 = (now, w2)
      \<Longrightarrow> write_slot E (other_slot (cur_slot s)) (next_sb s lv now) w2 = (r3, w3) \<Longrightarrow> is_ok r3
      \<Longrightarrow> dev_flush E w3 = (r4, w4) \<Longrightarrow> is_ok r4
      \<Longrightarrow> commit E s = (Ok (), rotate (next_sb s lv now) lv (s\<lparr>dev := w4\<rparr>))"
    using assms(1,3) g by (cases r1; cases r3; cases r4) (simp_all add: d)
qed

definition slot_ok :: "'w rfs2 \<Rightarrow> bool" where
  "slot_ok s \<longleftrightarrow> cur_slot s = SB_SLOT_A \<or> cur_slot s = SB_SLOT_B"

lemma other_slot_facts:
  assumes "cow_inv E valid s"
  shows "other_slot (cur_slot s) < dev_total E (dev s)" "other_slot (cur_slot s) < FIRST_DATA_BLOCK"
proof -
  show l: "other_slot (cur_slot s) < FIRST_DATA_BLOCK"
    by (simp add: other_slot_def SB_SLOT_A_def SB_SLOT_B_def FIRST_DATA_BLOCK_def word_less_nat_alt)
  have "FIRST_DATA_BLOCK < h_total_blocks (header s)" "h_total_blocks (header s) \<le> dev_total E (dev s)"
    using assms by (simp_all add: cow_inv_def geometry_ok_def)
  with l show "other_slot (cur_slot s) < dev_total E (dev s)" by order
qed

text \<open>The disk is the same except for one slot.\<close>

definition but_slot :: "'w env \<Rightarrow> ('w \<Rightarrow> bool) \<Rightarrow> ('w \<Rightarrow> u64 \<Rightarrow> bytes) \<Rightarrow> u64 \<Rightarrow> 'w \<Rightarrow> 'w \<Rightarrow> bool" where
  "but_slot E valid content slot w w' \<longleftrightarrow> valid w' \<and> dev_total E w' = dev_total E w
     \<and> (\<forall>b. b < dev_total E w \<longrightarrow> b \<noteq> slot \<longrightarrow> content w' b = content w b)"

lemma but_slot_same: "same_disk E valid content w w' \<Longrightarrow> but_slot E valid content slot w w'"
  by (simp add: but_slot_def same_disk_def)

lemma but_slot_trans:
  "but_slot E valid content slot w w' \<Longrightarrow> but_slot E valid content slot w' w'' \<Longrightarrow> but_slot E valid content slot w w''"
  by (simp add: but_slot_def)

lemma cow_inv_dev:
  "cow_inv E valid s \<Longrightarrow> but_slot E valid content slot (dev s) w \<Longrightarrow> cow_inv E valid (s\<lparr>dev := w\<rparr>)"
  by (simp add: cow_inv_def but_slot_def geometry_ok_def data_block_def)

lemma cow_inv_rotate:
  assumes "cow_inv E valid s" "next_live s = Ok lv" "but_slot E valid content slot (dev s) w"
  shows "cow_inv E valid (rotate sbn lv (s\<lparr>dev := w\<rparr>))"
  using assms next_live_mem(2) [OF assms(2)]
  by (simp add: cow_inv_def rotate_def but_slot_def geometry_ok_def bm_covers_def)

lemma flipped_rotate:
  assumes "next_live s = Ok lv"
  shows "flipped s (rotate (next_sb s lv now) lv (s\<lparr>dev := w\<rparr>))"
  using next_live_mem(1) [OF assms] by (simp add: flipped_def rotate_def next_sb_def txn_gen_def)

context block_device
begin

lemma write_slot_but:
  assumes "valid w" "slot < dev_total E w" "write_slot E slot x w = (r, w')"
  shows "but_slot E valid content slot w w'" "is_ok r \<Longrightarrow> content w' slot = slot_image E slot x"
proof -
  have d: "dev_write E slot (slot_image E slot x) w = (r, w')" using assms(3) by (simp add: write_slot_image)
  show "but_slot E valid content slot w w'"
    using write_valid [OF assms(1) d] write_frame [OF assms(1) d assms(2)] by (simp add: but_slot_def)
  assume "is_ok r"
  then obtain u where "r = Ok u" by (cases r) simp_all
  then show "content w' slot = slot_image E slot x" using write_ok [OF assms(1) _ assms(2)] d by blast
qed

lemma commit_effect:
  assumes "cow_inv E valid s" "commit E s = (r, s')"
  shows "((\<not> is_ok r \<or> \<not> dirty s) \<and> (\<exists>w. s' = s\<lparr>dev := w\<rparr> \<and> but_slot E valid content (other_slot (cur_slot s)) (dev s) w))
    \<or> (r = Ok () \<and> dirty s \<and> flipped s s' \<and> cow_inv E valid s'
        \<and> but_slot E valid content (other_slot (cur_slot s)) (dev s) (dev s')
        \<and> content (dev s') (other_slot (cur_slot s)) = slot_image E (other_slot (cur_slot s)) (sb s'))"
    (is "?A \<or> ?B")
proof -
  let ?o = "other_slot (cur_slot s)"
  have v: "valid (dev s)" using assms(1) by (simp add: cow_inv_def)
  note lt = other_slot_facts(1) [OF assms(1)]
  have id: "but_slot E valid content ?o (dev s) (dev s)" using v by (simp add: but_slot_def)
  have fail: "?A" if "commit E s = (r', s\<lparr>dev := w\<rparr>)" "\<not> is_ok r'" "but_slot E valid content ?o (dev s) w" for r' w
    using that assms(2) by auto
  consider "\<not> dirty s" | "dirty s" "sb_gen (sb s) \<ge> GEN_LIMIT" | "dirty s" "sb_gen (sb s) < GEN_LIMIT" by fastforce
  then show ?thesis
  proof cases
    case 1
    then have "s' = s" using assms(2) commit_idle(1) by (metis prod.inject)
    then have "?A" using 1 id by (auto intro!: exI [of _ "dev s"])
    then show ?thesis ..
  next
    case 2
    then have "r = Err GenExhausted" "s' = s" using assms(2) commit_idle(2) by (metis prod.inject)+
    then have "?A" using id by (auto intro!: exI [of _ "dev s"])
    then show ?thesis ..
  next
    case 3
    obtain r1 w1 where f1: "dev_flush E (dev s) = (r1, w1)" by fastforce
    note run = commit_run [OF 3 f1]
    note s1 = flush_same [OF v f1]
    have v1: "valid w1" "dev_total E w1 = dev_total E (dev s)" using s1 by (simp_all add: same_disk_def)
    show ?thesis
    proof (cases "is_ok r1 \<and> is_ok (next_live s)")
      case False
      then show ?thesis using run(1,2) fail but_slot_same [OF s1] by blast
    next
      case True
      then obtain lv where lv: "next_live s = Ok lv" by (cases "next_live s") simp_all
      obtain now w2 where c: "clock E w1 = (now, w2)" by fastforce
      have s2: "same_disk E valid content w1 w2" by (rule clock_same [OF v1(1) c])
      then have v2: "valid w2" "?o < dev_total E w2" using v1 lt by (simp_all add: same_disk_def)
      obtain r3 w3 where ws: "write_slot E ?o (next_sb s lv now) w2 = (r3, w3)" by fastforce
      note b3 = write_slot_but [OF v2 ws]
      have t3: "but_slot E valid content ?o (dev s) w3"
        using but_slot_trans [OF but_slot_same [OF s1] but_slot_trans [OF but_slot_same [OF s2] b3(1)]] .
      obtain r4 w4 where f4: "dev_flush E w3 = (r4, w4)" by fastforce
      have s4: "same_disk E valid content w3 w4" using flush_same f4 b3(1) by (simp add: but_slot_def)
      have t4: "but_slot E valid content ?o (dev s) w4" by (rule but_slot_trans [OF t3 but_slot_same [OF s4]])
      consider "\<not> is_ok r3" | "is_ok r3" "\<not> is_ok r4" | "is_ok r3" "is_ok r4" by blast
      then show ?thesis
      proof cases
        case 1
        then show ?thesis using run(3) [OF _ lv c ws] True fail t3 by blast
      next
        case 2
        then show ?thesis using run(4) [OF _ lv c ws _ f4] True fail t4 by blast
      next
        case 33: 3
        have cm: "commit E s = (Ok (), rotate (next_sb s lv now) lv (s\<lparr>dev := w4\<rparr>))"
          using run(5) [OF _ lv c ws _ f4] True 33 by blast
        then have r: "r = Ok ()" "s' = rotate (next_sb s lv now) lv (s\<lparr>dev := w4\<rparr>)" using assms(2) by simp_all
        have "content w4 ?o = slot_image E ?o (next_sb s lv now)"
          using b3(2) 33(1) s4 by (simp add: same_disk_def)
        then have "content (dev s') ?o = slot_image E ?o (sb s')" using r(2) by (simp add: rotate_def)
        moreover have "dev s' = w4" using r(2) by (simp add: rotate_def)
        moreover have "cow_inv E valid s'" unfolding r(2) by (rule cow_inv_rotate [OF assms(1) lv t4])
        moreover have "flipped s s'" unfolding r(2) by (rule flipped_rotate [OF lv])
        ultimately show ?thesis using r(1) 3(1) t4 by simp
      qed
    qed
  qed
qed

end

text \<open>
  C10. Commit is the only operation that changes committed state, and it does so in one place: whatever the device
  reports, every block other than the inactive superblock slot keeps its bytes.  If it succeeds with something
  staged, that slot holds the new superblock, one generation higher, whose tree is the staged one; the live set
  of the old superblock becomes the protected previous set, and the new live set is the old one without the
  retired and with the kept fresh blocks.  If it fails, nothing but the device state changes in memory.
\<close>
theorem commit_flips_one_slot:
  assumes "block_device E valid content" "cow_inv E valid s" "commit E s = (r, s')"
  shows "(\<forall>b. b < dev_total E (dev s) \<and> b \<noteq> other_slot (cur_slot s) \<longrightarrow> content (dev s') b = content (dev s) b)
    \<and> cow_inv E valid s'
    \<and> (if is_ok r \<and> dirty s
       then content (dev s') (other_slot (cur_slot s)) = slot_image E (other_slot (cur_slot s)) (sb s')
            \<and> cur_slot s' = other_slot (cur_slot s) \<and> sb_gen (sb s') = sb_gen (sb s) + 1
            \<and> inode_map_root (sb s') = staged_root s \<and> inode_map_height (sb s') = staged_height s
            \<and> live_prev s' = live_cur s
            \<and> bm_mem (live_cur s') = (bm_mem (live_cur s) - retired s) \<union> (fresh s - dropped_fresh s)
       else \<exists>w. s' = s\<lparr>dev := w\<rparr>)"
  using block_device.commit_effect [OF assms]
proof
  assume h: "(\<not> is_ok r \<or> \<not> dirty s)
    \<and> (\<exists>w. s' = s\<lparr>dev := w\<rparr> \<and> but_slot E valid content (other_slot (cur_slot s)) (dev s) w)"
  then obtain w where w: "s' = s\<lparr>dev := w\<rparr>" "but_slot E valid content (other_slot (cur_slot s)) (dev s) w" by blast
  then show ?thesis using h cow_inv_dev [OF assms(2) w(2)] by (auto simp: but_slot_def)
qed (auto simp: but_slot_def flipped_def)


section \<open>Rollback\<close>


text \<open>A pointer whose block reads back as \<open>buf\<close> in every device state that still has its bytes.\<close>

definition readable :: "'w env \<Rightarrow> ('w \<Rightarrow> bool) \<Rightarrow> ('w \<Rightarrow> u64 \<Rightarrow> bytes) \<Rightarrow> 'w \<Rightarrow> block_ptr \<Rightarrow> bytes \<Rightarrow> bool" where
  "readable E valid content w0 p buf \<longleftrightarrow>
     (\<forall>w. valid w \<longrightarrow> content w = content w0 \<longrightarrow> (\<exists>w'. read_ptr E p w = (Ok buf, w')))"

lemma same_disk_trans:
  "same_disk E valid content w w' \<Longrightarrow> same_disk E valid content w' w'' \<Longrightarrow> same_disk E valid content w w''"
  by (simp add: same_disk_def)

lemma imap_capacity_0: "imap_capacity 0 = 32"
  by (simp add: imap_capacity_def checked_pow128_def INODES_PER_LEAF_def)

lemma write_fresh_full:
  assumes "geometry_ok s" "\<forall>b. \<not> free_block s b"
  shows "write_fresh E buf s = (Err NoSpace, s)"
proof (rule alloc_block_cases [OF assms(1)])
  fix b s' assume "allocated s b s'"
  then show ?thesis using assms(2) by (simp add: allocated_def)
next
  assume "alloc_block s = (Err NoSpace, s)"
  then show ?thesis by (simp add: write_fresh_def bindS_def)
qed

context block_device
begin

lemma read_ptrS_readable:
  assumes "readable E valid content w0 p buf" "same_disk E valid content w0 (dev s)"
  obtains w where "read_ptrS E p s = (Ok buf, s\<lparr>dev := w\<rparr>)" "same_disk E valid content w0 w"
proof -
  have v: "valid (dev s)" "content (dev s) = content w0" using assms(2) by (simp_all add: same_disk_def)
  then obtain w where r: "read_ptr E p (dev s) = (Ok buf, w)" using assms(1) by (auto simp: readable_def)
  have "same_disk E valid content w0 w" using same_disk_trans [OF assms(2) read_ptr_opened(1) [OF v(1) r]] .
  then show ?thesis by (intro that) (simp_all add: read_ptrS_def devS_def r)
qed

text \<open>A rewrite of the inode-map leaf on a full volume: the old leaf is already retired when the allocation
  fails.\<close>

lemma imap_set_full:
  assumes "readable E valid content w0 (staged_root s) buf" "same_disk E valid content w0 (dev s)"
    and "staged_height s = 0" "ino < 32" "\<not> is_null (staged_root s)" "geometry_ok s" "\<forall>b. \<not> free_block s b"
  obtains w where "imap_set E ino i s = (Err NoSpace, retire (staged_root s) (s\<lparr>dev := w\<rparr>))"
    "same_disk E valid content w0 w"
proof -
  obtain w where r: "read_ptrS E (staged_root s) s = (Ok buf, s\<lparr>dev := w\<rparr>)" "same_disk E valid content w0 w"
    by (rule read_ptrS_readable [OF assms(1,2)])
  have "\<not> 32 \<le> ino" using assms(4) by (simp add: not_le)
  then have g: "grow_imap E ino s = (Ok (), s)"
    using assms(3) by (simp add: grow_imap_def loop_fuel_def bindS_def getS_def retS_def imap_capacity_0)
  have q: "geometry_ok (retire (staged_root s) (s\<lparr>dev := w\<rparr>))" "\<forall>b. \<not> free_block (retire (staged_root s) (s\<lparr>dev := w\<rparr>)) b"
    using assms(6,7) by (simp_all add: retire_def geometry_ok_def free_block_def data_block_def)
  have "imap_set E ino i s = (Err NoSpace, retire (staged_root s) (s\<lparr>dev := w\<rparr>))"
    using g r(1) assms(3,5) write_fresh_full [OF q]
    by (simp add: imap_set_def bindS_def getS_def node_buf_def modS_def)
  then show ?thesis using r(2) by (rule that)
qed

text \<open>A \<^verbatim>\<open>write_at\<close> of no bytes to a regular file, on a full volume whose inode-map leaf was
  written earlier in the same generation.\<close>

lemma write_at_full:
  assumes "cow_inv E valid s" "readable E valid content (dev s) (staged_root s) buf"
    and "staged_height s = 0" "ino < 32" "\<not> is_null (staged_root s)" "\<forall>b. \<not> free_block s b"
    and "\<not> read_only s" "sb_gen (sb s) < GEN_LIMIT"
    and "i = inode_decode (slice buf (leaf_slot ino) INODE_SIZE)" "is_used i" "is_reg i" "\<not> is_dir i"
  obtains w where "write_at E ino off [] s = (Err NoSpace, fail_op
      \<lparr>os_root = staged_root s, os_height = staged_height s, os_next_inode = staged_next_inode s,
       os_inode_count = staged_inode_count s, os_dirty = dirty s, os_retired = retired s\<rparr>
      (retire (staged_root s) (s\<lparr>op_fresh := [], dev := w\<rparr>)))"
    "same_disk E valid content (dev s) w"
proof -
  let ?s0 = "s\<lparr>op_fresh := []\<rparr>"
  have v: "same_disk E valid content (dev s) (dev ?s0)" using assms(1) by (simp add: same_disk_def cow_inv_def)
  have "\<not> 32 \<le> ino" using assms(4) by (simp add: not_le)
  moreover obtain w1 where r1: "read_ptrS E (staged_root s) ?s0 = (Ok buf, ?s0\<lparr>dev := w1\<rparr>)"
    "same_disk E valid content (dev s) w1" by (rule read_ptrS_readable [OF assms(2) v])
  ultimately have get: "get_inode_req E ino ?s0 = (Ok i, ?s0\<lparr>dev := w1\<rparr>)"
    using assms(3,5,9,10)
    by (simp add: get_inode_req_def imap_get_def bindS_def getS_def retS_def liftS_def imap_capacity_0 Let_def)
  obtain now w2 where c: "clock E w1 = (now, w2)" by fastforce
  have s2: "same_disk E valid content (dev s) w2"
    using same_disk_trans [OF r1(2) clock_same [OF _ c]] r1(2) by (simp add: same_disk_def)
  let ?s2 = "?s0\<lparr>dev := w2\<rparr>"
  let ?i = "i\<lparr>isize := max (isize i) off, mtime := now, ctime := now, inode_gen := txn_gen ?s2\<rparr>"
  have "geometry_ok ?s2" "\<forall>b. \<not> free_block ?s2 b"
    using assms(1,6) by (simp_all add: cow_inv_def geometry_ok_def free_block_def data_block_def)
  then obtain w3 where set: "imap_set E ino ?i ?s2 = (Err NoSpace, retire (staged_root s) (?s2\<lparr>dev := w3\<rparr>))"
    "same_disk E valid content (dev s) w3"
    using imap_set_full [of "dev s" ?s2 buf ino ?i] assms(2,3,4,5) s2 by auto
  have wl: "write_blocks E i off [] = retS i" unfolding write_blocks_def by (subst write_loop_eq) simp
  have "write_at_inner E ino off [] ?s0 = (Err NoSpace, retire (staged_root s) (?s0\<lparr>dev := w3\<rparr>))"
    using set(1) assms(11,12)
    by (simp add: write_at_inner_def bindS_def get wl retS_def nowS_def c getS_def)
  then have "write_at E ino off [] s = (Err NoSpace, fail_op
      \<lparr>os_root = staged_root s, os_height = staged_height s, os_next_inode = staged_next_inode s,
       os_inode_count = staged_inode_count s, os_dirty = dirty s, os_retired = retired s\<rparr>
      (retire (staged_root s) (s\<lparr>op_fresh := [], dev := w3\<rparr>)))"
    using assms(7,8) by (simp add: write_at_def run_op_def with_rollback_def bindS_def check_rw_def begin_op_def not_le)
  then show ?thesis using set(2) by (rule that)
qed

end

text \<open>
  C18. The rollback forgets to restore \<^verbatim>\<open>dropped_fresh\<close>.  If an operation fails after it retired a block
  that an earlier, successful operation of the same generation wrote, the staged tree points to that block again
  but the block stays marked as dropped.  The next commit then publishes a superblock whose inode-map root is not
  in its own live set, and the allocator counts the root block as free: the next write may overwrite the
  committed tree.  Here the failing operation is a \<^verbatim>\<open>write_at\<close> on a full volume.
\<close>
theorem rollback_frees_live_root:
  assumes "block_device E valid content" "cow_inv E valid s"
    and "readable E valid content (dev s) (staged_root s) buf"
    and "staged_height s = 0" "ino < 32" "\<not> is_null (staged_root s)" "block (staged_root s) \<in> fresh s"
    and "\<forall>b. \<not> free_block s b" "\<not> read_only s" "sb_gen (sb s) < GEN_LIMIT" "dirty s"
    and "i = inode_decode (slice buf (leaf_slot ino) INODE_SIZE)" "is_used i" "is_reg i" "\<not> is_dir i"
  shows "\<exists>s1. write_at E ino off [] s = (Err NoSpace, s1) \<and> staged_root s1 = staged_root s
    \<and> (\<forall>s2. commit E s1 = (Ok (), s2)
          \<longrightarrow> inode_map_root (sb s2) = staged_root s \<and> free_block s2 (block (staged_root s)))"
proof -
  obtain w where wr: "write_at E ino off [] s = (Err NoSpace, fail_op
      \<lparr>os_root = staged_root s, os_height = staged_height s, os_next_inode = staged_next_inode s,
       os_inode_count = staged_inode_count s, os_dirty = dirty s, os_retired = retired s\<rparr>
      (retire (staged_root s) (s\<lparr>op_fresh := [], dev := w\<rparr>)))"
    and w: "same_disk E valid content (dev s) w"
    by (rule block_device.write_at_full [OF assms(1-6,8-10,12-15)])
  let ?s1 = "snd (write_at E ino off [] s)" let ?b = "block (staged_root s)"
  have e: "?s1 = s\<lparr>op_fresh := [], dev := w, dropped_fresh := insert ?b (dropped_fresh s)\<rparr>"
    using assms(4,6,7) by (simp add: wr fail_op_def retire_def)
  have i1: "cow_inv E valid ?s1"
    using assms(2) w by (simp add: e cow_inv_def same_disk_def geometry_ok_def data_block_def)
  have f: "data_block s ?b" "?b \<notin> bm_mem (live_cur s)" using assms(2,7) by (auto simp: cow_inv_def)
  have "inode_map_root (sb s2) = staged_root s \<and> free_block s2 ?b" if "commit E ?s1 = (Ok (), s2)" for s2
  proof -
    have "flipped ?s1 s2" using block_device.commit_effect [OF assms(1) i1 that] assms(11) by (simp add: e)
    then show ?thesis using f by (simp add: flipped_def e free_block_def data_block_def)
  qed
  then show ?thesis using wr e by (intro exI [of _ ?s1]) simp
qed

section \<open>The growth loop ends\<close>

lemma free_after_alloc:
  assumes "allocated s b t"
  shows "{x. free_block (t\<lparr>dev := w\<rparr>) x} = {x. free_block s x} - {b}" "free_block s b"
proof -
  obtain k where t: "t = s\<lparr>alloc_cursor := k, fresh := insert b (fresh s), op_fresh := op_fresh s @ [b]\<rparr>"
    and f: "free_block s b" using assms unfolding allocated_def by blast
  show "{x. free_block (t\<lparr>dev := w\<rparr>) x} = {x. free_block s x} - {b}"
    by (auto simp: t free_block_def data_block_def)
  show "free_block s b" by (rule f)
qed

lemma card_free_alloc:
  assumes "allocated s b t" "t1 = t\<lparr>dev := w, dirty := True\<rparr>"
  shows "card {x. free_block t1 x} < card {x. free_block s x}"
proof -
  have "{x. free_block t1 x} = {x. free_block (t\<lparr>dev := w\<rparr>) x}"
    by (simp add: assms(2) free_block_def data_block_def)
  then show ?thesis
    using free_after_alloc [OF assms(1)] card_Diff1_less [of "{x. free_block s x}" b] by simp
qed

lemma card_free_bound: "card {x. free_block s x} < loop_fuel s"
proof -
  have "unat ` {x. free_block s x} \<subseteq> {..<unat (h_total_blocks (header s))}"
    by (auto simp: free_block_def data_block_def word_less_nat_alt)
  then have "card (unat ` {x. free_block s x}) \<le> unat (h_total_blocks (header s))"
    using card_mono [of "{..<unat (h_total_blocks (header s))}"] by fastforce
  moreover have "card (unat ` {x. free_block s x}) = card {x. free_block s x}"
    by (rule card_image) (auto simp: inj_on_def word_unat_eq_iff)
  ultimately show ?thesis by (simp add: loop_fuel_def)
qed

lemma zero_block_length [simp]: "length zero_block = BLOCK_SIZE"
  by (simp add: zero_block_def)

lemma set_ptr_at_length:
  "ptr_ok p \<Longrightarrow> idx < FANOUT \<Longrightarrow> length buf = BLOCK_SIZE \<Longrightarrow> length (set_ptr_at buf idx p) = BLOCK_SIZE"
  by (simp add: set_ptr_at_def FANOUT_def BLOCK_PTR_SIZE_def BLOCK_SIZE_def)

context sound_driver
begin

lemma write_fresh_cases:
  assumes "cow_inv E valid s" "block_transform E" "length buf = BLOCK_SIZE" "write_fresh E buf s = (r, s')"
  obtains b t w p where "r = Ok p" "allocated s b t" "s' = t\<lparr>dev := w, dirty := True\<rparr>" "ptr_ok p"
    "block p = b" "gen p = txn_gen s"
  | e where "r = Err e"
proof -
  have g: "geometry_ok s" using assms(1) by (simp add: cow_inv_def)
  show ?thesis
  proof (rule alloc_block_cases [OF g])
    assume "alloc_block s = (Err NoSpace, s)"
    then show ?thesis using assms(4) by (intro that(2) [of NoSpace]) (simp add: write_fresh_def bindS_def)
  next
    fix b t assume a: "alloc_block s = (Ok b, t)" "allocated s b t"
    then have st: "dev t = dev s" "txn_gen t = txn_gen s"
      by (auto simp: allocated_def txn_gen_def dest: arg_cong [of t _ dev] arg_cong [of t _ sb])
    obtain tg c where e: "encrypt_block E b (txn_gen s) (dyn_aad b (txn_gen s)) buf = (tg, c)" by fastforce
    have l: "length c = BLOCK_SIZE" "length tg = 16"
      using block_transform.seal_length [OF assms(2) e] assms(3) by simp_all
    obtain r1 w where w: "dev_write E b c (dev s) = (r1, w)" by fastforce
    have np: "r1 \<noteq> Panic" using write_no_panic [OF _ l(1), of "dev s" b] w assms(1) by (simp add: cow_inv_def)
    show ?thesis
    proof (cases r1)
      case (Ok u)
      then have "r = Ok \<lparr>block = b, gen = txn_gen s, tag = tg\<rparr>" "s' = t\<lparr>dev := w, dirty := True\<rparr>"
        using assms(4) a(1) e w st
        by (auto simp: write_fresh_def bindS_def getS_def modS_def retS_def devS_def)
      then show ?thesis using that(1) [OF _ a(2)] l(2) by (simp add: ptr_ok_def)
    next
      case (Err er)
      then have "r = Err er" using assms(4) a(1) e w st
        by (auto simp: write_fresh_def bindS_def getS_def modS_def retS_def devS_def)
      then show ?thesis by (rule that(2))
    qed (use np in simp)
  qed
qed

lemma grow_loop_returns:
  assumes "block_transform E"
  shows "cow_inv E valid s \<Longrightarrow> ptr_ok (staged_root s) \<Longrightarrow> card {x. free_block s x} < n
    \<Longrightarrow> grow_loop n E ino s = (r, s') \<Longrightarrow> r \<noteq> Panic \<and> (is_ok r \<longrightarrow> ino < imap_capacity (staged_height s'))"
proof (induction n arbitrary: s)
  case (Suc n)
  let ?buf = "set_ptr_at zero_block 0 (staged_root s)"
  have lb: "length ?buf = BLOCK_SIZE" using Suc.prems(2) by (intro set_ptr_at_length) (simp_all add: FANOUT_def)
  show ?case
  proof (cases "ino \<ge> imap_capacity (staged_height s)")
    case False
    then have "r = Ok ()" "s' = s" using Suc.prems(4) by (auto simp: bindS_def getS_def retS_def)
    then show ?thesis using False by simp
  next
    case True
    obtain r1 t1 where wf: "write_fresh E ?buf s = (r1, t1)" by fastforce
    show ?thesis
    proof (rule write_fresh_cases [OF Suc.prems(1) assms lb wf])
      fix e assume "r1 = Err e"
      then have "r = Err e" using Suc.prems(4) True wf by (simp add: bindS_def getS_def)
      then show ?thesis by simp
    next
      fix b t w p
      assume h: "r1 = Ok p" "allocated s b t" "t1 = t\<lparr>dev := w, dirty := True\<rparr>" "ptr_ok p"
      let ?u = "t1\<lparr>staged_root := p, staged_height := staged_height t1 + 1\<rparr>"
      have rest: "grow_loop n E ino ?u = (r, s')"
        using Suc.prems(4) True wf h(1) by (simp add: bindS_def getS_def modS_def)
      have k: "kept E valid content s t1" by (rule cowD [OF cow_write_fresh Suc.prems(1) wf])
      have iu: "cow_inv E valid ?u" by (rule kept_inv [OF kept_quiet [OF kept_inv [OF k]]]) simp
      have "{x. free_block ?u x} = {x. free_block t1 x}" by (simp add: free_block_def data_block_def)
      then have "card {x. free_block ?u x} < n" using card_free_alloc [OF h(2,3)] Suc.prems(3) by simp
      then show ?thesis using Suc.IH [OF iu _ _ rest] h(4) by simp
    qed
  qed
qed simp

lemma bmap_grow_returns:
  assumes "block_transform E"
  shows "cow_inv E valid s \<Longrightarrow> ptr_ok (bmap_root i) \<Longrightarrow> card {x. free_block s x} < n
    \<Longrightarrow> bmap_grow n E l i s = (r, s') \<Longrightarrow> r \<noteq> Panic \<and> (\<forall>j. r = Ok j \<longrightarrow> l < bmap_capacity (ucast (bmap_height j)))"
proof (induction n arbitrary: s i)
  case (Suc n)
  let ?buf = "set_ptr_at zero_block 0 (bmap_root i)"
  have lb: "length ?buf = BLOCK_SIZE" using Suc.prems(2) by (intro set_ptr_at_length) (simp_all add: FANOUT_def)
  show ?case
  proof (cases "l \<ge> bmap_capacity (ucast (bmap_height i))")
    case False
    then show ?thesis using Suc.prems(4) by (auto simp: retS_def)
  next
    case True
    obtain r1 t1 where wf: "write_fresh E ?buf s = (r1, t1)" by fastforce
    show ?thesis
    proof (rule write_fresh_cases [OF Suc.prems(1) assms lb wf])
      fix e assume "r1 = Err e"
      then have "r = Err e" using Suc.prems(4) True wf by (simp add: bindS_def)
      then show ?thesis by simp
    next
      fix b t w p
      assume h: "r1 = Ok p" "allocated s b t" "t1 = t\<lparr>dev := w, dirty := True\<rparr>" "ptr_ok p"
      let ?i = "i\<lparr>bmap_root := p, bmap_height := bmap_height i + 1\<rparr>"
      have rest: "bmap_grow n E l ?i t1 = (r, s')" using Suc.prems(4) True wf h(1) by (simp add: bindS_def)
      have k: "cow_inv E valid t1" by (rule kept_inv [OF cowD [OF cow_write_fresh Suc.prems(1) wf]])
      have "card {x. free_block t1 x} < n" using card_free_alloc [OF h(2,3)] Suc.prems(3) by simp
      then show ?thesis using Suc.IH [OF k _ _ rest] h(4) by simp
    qed
  qed
qed simp

end

text \<open>
  C22. The growth loop of the inode map ends: on a driver that reports failures as errors it returns, and when it
  returns without an error the inode number is addressable.  Each round consumes a free block, so the loop ends
  even for the inode number \<^verbatim>\<open>u64::MAX\<close>, which no height can address.
\<close>
theorem grow_imap_returns:
  assumes "sound_driver E valid content" "block_transform E" "cow_inv E valid s" "ptr_ok (staged_root s)"
    and "grow_imap E ino s = (r, s')"
  shows "r \<noteq> Panic \<and> (r = Ok () \<longrightarrow> ino < imap_capacity (staged_height s'))"
proof -
  have "grow_loop (loop_fuel s) E ino s = (r, s')" using assms(5) by (simp add: grow_imap_def bindS_def getS_def)
  from sound_driver.grow_loop_returns [OF assms(1,2,3,4) card_free_bound this] show ?thesis by auto
qed

section \<open>Concrete volumes\<close>

lemma bm_one: "n < 64 \<Longrightarrow> bm_mem \<lparr>bm_words = [push_bit n 1], bm_nbits = k\<rparr> = {of_nat n}"
proof (rule set_eqI)
  fix x :: u64 assume n: "n < 64"
  have "x = of_nat n \<longleftrightarrow> unat x = n"
    using n by (auto simp: unat_of_nat)
  moreover have "x \<in> bm_mem \<lparr>bm_words = [push_bit n 1], bm_nbits = k\<rparr> \<longleftrightarrow> unat x < 64 \<and> unat x mod 64 = n"
    using n by (auto simp: bm_mem_def bit_exp_iff div_less_iff_less_mult)
  ultimately show "x \<in> bm_mem \<lparr>bm_words = [push_bit n 1], bm_nbits = k\<rparr> \<longleftrightarrow> x \<in> {of_nat n}"
    using n by auto
qed

text \<open>A freshly mounted volume of 64 blocks whose inode map is the single leaf in block 4.\<close>

definition demo_fs :: "mem_disk rfs2" where
  "demo_fs = mounted demo_header demo_sb SB_SLOT_A False \<lparr>bm_words = [push_bit 4 1], bm_nbits = 64\<rparr> (bm_new 64) demo_disk"

lemma demo_fs_simps [simp]:
  "header demo_fs = demo_header" "sb demo_fs = demo_sb" "cur_slot demo_fs = SB_SLOT_A" "dev demo_fs = demo_disk"
  "fresh demo_fs = {}" "bm_mem (live_cur demo_fs) = {4}" "bm_mem (live_prev demo_fs) = {}" "alloc_cursor demo_fs = 0"
  "staged_root demo_fs = demo_root" "staged_height demo_fs = 0" "h_total_blocks demo_header = 64"
  using bm_one [of 4 64]
  by (simp_all add: demo_fs_def mounted_def demo_sb_def demo_root_def demo_header_def)

lemma demo_fs_geometry: "geometry_ok demo_fs"
proof -
  have "bm_covers (live_cur demo_fs) 64" "bm_covers (live_prev demo_fs) 64"
    by (simp_all add: demo_fs_def mounted_def bm_covers_def bm_new_def)
  then show ?thesis by (simp add: geometry_ok_def FIRST_DATA_BLOCK_def)
qed

lemma demo_fs_inv: "cow_inv mem_env mem_valid demo_fs"
  using demo_fs_geometry demo_disk_facts by (simp add: cow_inv_def)

lemma demo_below: "below mem_env (mem_content demo_disk) (Imap 0 demo_root) = {4}"
  by (simp add: below_def demo_leaf_reach) (simp add: demo_root_def)


theorem alloc_block_spec_witness: "\<exists>b s'. alloc_block demo_fs = (Ok b, s') \<and> b \<noteq> 4 \<and> fresh s' = {b}"
proof -
  have "(3 :: u64) \<in> {b. FIRST_DATA_BLOCK \<le> b \<and> b < 64}" by (simp add: FIRST_DATA_BLOCK_def)
  then show ?thesis using alloc_block_spec [OF demo_fs_geometry] by auto
qed

theorem commit_flips_one_slot_witness:
  "mem_content (dev (snd (commit mem_env demo_fs))) SB_SLOT_A = mem_content demo_disk SB_SLOT_A"
proof -
  have c: "commit mem_env demo_fs = (fst (commit mem_env demo_fs), snd (commit mem_env demo_fs))" by simp
  from commit_flips_one_slot [OF memdisk.block_device_axioms demo_fs_inv c] show ?thesis
    using demo_disk_facts(2) by (simp add: other_slot_def SB_SLOT_A_def SB_SLOT_B_def)
qed



theorem grow_imap_returns_witness:
  "fst (grow_imap mem_env (2 ^ 64 - 1) demo_fs) \<noteq> Panic"
proof -
  have c: "grow_imap mem_env (2 ^ 64 - 1) demo_fs
    = (fst (grow_imap mem_env (2 ^ 64 - 1) demo_fs), snd (grow_imap mem_env (2 ^ 64 - 1) demo_fs))" by simp
  have "ptr_ok (staged_root demo_fs)" by (simp add: ptr_ok_def) (simp add: demo_root_def)
  from grow_imap_returns [OF memdisk.sound_driver_axioms memdisk.block_transform_axioms demo_fs_inv this c]
  show ?thesis by simp
qed

text \<open>A full volume of five blocks: block 3 is committed, block 4 holds the leaf that the current generation
  staged, with a regular file as inode 1.\<close>

definition full_inode :: inode where
  "full_inode = inode_free\<lparr>flags := FLAG_USED, mode := S_IFREG, nlink := 1\<rparr>"

definition full_leaf :: bytes where
  "full_leaf = splice zero_block INODE_SIZE (inode_encode full_inode)"

definition full_fs :: "mem_disk rfs2" where
  "full_fs = (mounted (demo_header\<lparr>h_total_blocks := 5\<rparr>) demo_sb SB_SLOT_A False
       \<lparr>bm_words = [push_bit 3 1], bm_nbits = 5\<rparr> (bm_new 5)
       \<lparr>mdata = replicate (4 * BLOCK_SIZE) 0 @ full_leaf, mtime_now = 0\<rparr>)
     \<lparr>staged_root := demo_root, fresh := {4}, dirty := True\<rparr>"

lemma full_inode_facts: "inode_ok full_inode" "is_used full_inode" "is_reg full_inode" "\<not> is_dir full_inode"
  by (simp_all add: full_inode_def inode_ok_def inode_free_def is_used_def is_reg_def is_dir_def is_fast_symlink_def
      FLAG_USED_def FLAG_FAST_SYMLINK_def S_IFREG_def S_IFDIR_def S_IFMT_def)

lemma full_leaf_length: "length full_leaf = BLOCK_SIZE"
  using full_inode_facts(1) by (simp add: full_leaf_def BLOCK_SIZE_def INODE_SIZE_def)

lemma full_leaf_inode: "inode_decode (slice full_leaf (leaf_slot 1) INODE_SIZE) = full_inode"
proof -
  have "leaf_slot 1 = INODE_SIZE" by (simp add: leaf_slot_def)
  then have "slice full_leaf (leaf_slot 1) INODE_SIZE = inode_encode full_inode"
    using full_inode_facts(1) by (simp add: full_leaf_def BLOCK_SIZE_def INODE_SIZE_def)
  then show ?thesis using inode_decode_encode [OF full_inode_facts(1)] by simp
qed

lemma full_fs_simps [simp]:
  "header full_fs = demo_header\<lparr>h_total_blocks := 5\<rparr>" "fresh full_fs = {4}" "bm_mem (live_cur full_fs) = {3}"
  "bm_mem (live_prev full_fs) = {}" "alloc_cursor full_fs = 0" "staged_root full_fs = demo_root"
  "staged_height full_fs = 0" "dirty full_fs" "sb full_fs = demo_sb"
  using bm_one [of 3 5] by (simp_all add: full_fs_def mounted_def demo_sb_def)

lemma full_fs_inv: "cow_inv mem_env mem_valid full_fs"
proof -
  have "bm_covers (live_cur full_fs) 5" "bm_covers (live_prev full_fs) 5"
    by (simp_all add: full_fs_def mounted_def bm_covers_def bm_new_def)
  moreover have "mem_valid (dev full_fs)" "mem_total (dev full_fs) = 5"
    using full_leaf_length by (simp_all add: full_fs_def mounted_def mem_valid_def mem_total_def BLOCK_SIZE_def)
  ultimately show ?thesis by (simp add: cow_inv_def geometry_ok_def data_block_def FIRST_DATA_BLOCK_def)
qed

lemma full_fs_full: "\<not> free_block full_fs b"
proof
  assume "free_block full_fs b"
  then have "3 \<le> unat b" "unat b < 5" "unat b \<noteq> 3" "unat b \<noteq> 4"
    by (auto simp: free_block_def data_block_def FIRST_DATA_BLOCK_def word_le_nat_alt word_less_nat_alt word_unat_eq_iff)
  then show False by simp
qed

lemma full_fs_content: "mem_content (dev full_fs) 4 = full_leaf"
  using full_leaf_length
  by (simp add: mem_content_def full_fs_def mounted_def mem_off_def slice_def) (simp add: BLOCK_SIZE_def)

lemma full_fs_readable: "readable mem_env mem_valid mem_content (dev full_fs) demo_root full_leaf"
  unfolding readable_def
proof (intro allI impI)
  fix w assume "mem_valid w" "mem_content w = mem_content (dev full_fs)"
  then have c: "slice (mdata w) (mem_off 4) BLOCK_SIZE = full_leaf"
    using full_fs_content by (simp add: fun_eq_iff mem_content_def)
  then have "min BLOCK_SIZE (length (mdata w) - mem_off 4) = BLOCK_SIZE"
    using full_leaf_length length_slice [of "mdata w" "mem_off 4" BLOCK_SIZE] by simp
  then have "\<not> length (mdata w) < mem_off 4 + BLOCK_SIZE" by (simp add: BLOCK_SIZE_def)
  then show "\<exists>w'. read_ptr mem_env demo_root w = (Ok full_leaf, w')"
    using c by (simp add: read_ptr_def bindS_def liftS_def mem_read_def demo_root_def identity_decrypt_def TAG_SIZE_def)
qed

lemma full_fs_guards: "\<not> is_null demo_root" "sb_gen demo_sb < GEN_LIMIT" "\<not> read_only full_fs" "ptr_ok demo_root"
  "block demo_root = 4" "h_uuid demo_header = replicate 16 7" "cur_slot full_fs = SB_SLOT_A"
  "retired full_fs = {}" "dropped_fresh full_fs = {}" "dev_total mem_env (dev full_fs) = 5"
  using full_leaf_length
  by (simp_all add: demo_sb_def GEN_LIMIT_def word_less_nat_alt full_fs_def mounted_def demo_header_def ptr_ok_def
      RO_COMPAT_HARDLINKS_def KNOWN_RO_COMPAT_def is_null_def demo_root_def mem_total_def BLOCK_SIZE_def)

lemma full_write:
  obtains w where "write_at mem_env 1 0 [] full_fs
      = (Err NoSpace, full_fs\<lparr>op_fresh := [], dev := w, dropped_fresh := {4}\<rparr>)"
    "mem_valid w" "mem_total w = 5"
proof -
  obtain w where "write_at mem_env 1 0 [] full_fs = (Err NoSpace, fail_op
      \<lparr>os_root = staged_root full_fs, os_height = staged_height full_fs, os_next_inode = staged_next_inode full_fs,
       os_inode_count = staged_inode_count full_fs, os_dirty = dirty full_fs, os_retired = retired full_fs\<rparr>
      (retire (staged_root full_fs) (full_fs\<lparr>op_fresh := [], dev := w\<rparr>)))"
    "same_disk mem_env mem_valid mem_content (dev full_fs) w"
    by (rule memdisk.write_at_full [of full_fs full_leaf 1 full_inode 0])
      (use full_fs_inv full_fs_readable full_fs_full full_inode_facts full_leaf_inode full_fs_guards in \<open>simp_all\<close>)
  then show ?thesis using full_fs_guards
    by (intro that [of w]) (simp_all add: fail_op_def retire_def same_disk_def)
qed

lemma full_commit:
  assumes "mem_valid w" "mem_total w = 5" "s1 = full_fs\<lparr>op_fresh := [], dev := w, dropped_fresh := {4}\<rparr>"
  shows "\<exists>s2. commit mem_env s1 = (Ok (), s2)"
proof -
  let ?w2 = "w\<lparr>mtime_now := mtime_now w + 1\<rparr>"
  let ?n = "next_sb s1 (live_cur s1) (mtime_now w)"
  have nl: "next_live s1 = Ok (live_cur s1)" using full_fs_guards by (simp add: next_live_def assms(3))
  have "sb_ok ?n" using full_fs_guards by (simp add: sb_ok_def next_sb_def assms(3))
  then have l: "length (slot_image mem_env SB_SLOT_B ?n) = BLOCK_SIZE"
    using identity_slot_image(1) [OF mem_env_identity] by simp
  have "mem_off SB_SLOT_B + BLOCK_SIZE \<le> length (mdata w)"
    by (rule mem_off_exact(2) [OF assms(1)]) (simp add: assms(2) SB_SLOT_B_def)
  then have wr: "write_slot mem_env (other_slot (cur_slot s1)) ?n ?w2
      = (Ok (), ?w2\<lparr>mdata := splice (mdata ?w2) (mem_off SB_SLOT_B) (slot_image mem_env SB_SLOT_B ?n)\<rparr>)"
    using l full_fs_guards(7) by (simp add: write_slot_image mem_write_def other_slot_def assms(3))
  show ?thesis
    using commit_run(5) [of s1 mem_env "Ok ()" w "live_cur s1" "mtime_now w" ?w2, OF _ _ _ _ nl _ wr] full_fs_guards(2)
    by (simp add: assms(3) retS_def)
qed

theorem rollback_frees_live_root_witness:
  "\<exists>s1 s2. write_at mem_env 1 0 [] full_fs = (Err NoSpace, s1) \<and> commit mem_env s1 = (Ok (), s2)
     \<and> inode_map_root (sb s2) = demo_root \<and> free_block s2 4"
proof -
  obtain w where w: "write_at mem_env 1 0 [] full_fs
      = (Err NoSpace, full_fs\<lparr>op_fresh := [], dev := w, dropped_fresh := {4}\<rparr>)" "mem_valid w" "mem_total w = 5"
    by (rule full_write)
  obtain s2 where c: "commit mem_env (full_fs\<lparr>op_fresh := [], dev := w, dropped_fresh := {4}\<rparr>) = (Ok (), s2)"
    using full_commit [OF w(2,3) refl] by blast
  have "\<exists>s1. write_at mem_env 1 0 [] full_fs = (Err NoSpace, s1) \<and> staged_root s1 = staged_root full_fs
    \<and> (\<forall>s2. commit mem_env s1 = (Ok (), s2)
          \<longrightarrow> inode_map_root (sb s2) = staged_root full_fs \<and> free_block s2 (block (staged_root full_fs)))"
    by (rule rollback_frees_live_root [OF memdisk.block_device_axioms full_fs_inv, of full_leaf 1 full_inode 0])
      (use full_fs_readable full_fs_full full_inode_facts full_leaf_inode full_fs_guards in \<open>simp_all\<close>)
  then show ?thesis using w(1) c full_fs_guards(5) by auto
qed

end
