(* ===== verification/Free_List.thy ===== *)
theory Free_List
  imports Prelude
begin

text \<open>
  Free lists threaded through memory, as the kernel heap (\<^verbatim>\<open>kernel/src/heap.rs\<close>) and the userspace
  allocator (\<^verbatim>\<open>lythos-rt/src/allocator.rs\<close>) keep them: each free block starts with a header that holds
  its size and the address of the next free block.  The memory is an explicit store from block addresses to headers,
  so that the proofs have to show that no write reaches a header of another block.  Both allocators insert a freed
  block in address order and merge it with its neighbours; they differ in whether the size field counts the header,
  which is the parameter \<open>hdr\<close>.  The second half of the theory is the specification both are refined to: a
  list of disjoint segments in address order.
\<close>

section \<open>Blocks in memory\<close>

text \<open>\<^verbatim>\<open>struct FreeBlock\<close>; the address 0 is the null pointer.\<close>

record free_block =
  fb_size :: nat
  fb_next :: nat

record list_mem =
  head :: nat
  blocks :: "nat \<Rightarrow> free_block"

text \<open>The place that holds the address of the current block: the head pointer or the \<^verbatim>\<open>next\<close> field of its
  predecessor.\<close>

datatype slot_link = Head | NextOf nat

fun set_link :: "slot_link \<Rightarrow> nat \<Rightarrow> list_mem \<Rightarrow> list_mem" where
  "set_link Head q h = h\<lparr>head := q\<rparr>"
| "set_link (NextOf a) q h = h\<lparr>blocks := (blocks h)(a := (blocks h a)\<lparr>fb_next := q\<rparr>)\<rparr>"

text \<open>The walk to the insertion point of \<open>block\<close>: the last block before it and the first one after it.  A
  cyclic list would make it run forever, which is the value \<open>None\<close>.\<close>

partial_function (option) find_slot :: "(nat \<Rightarrow> free_block) \<Rightarrow> nat \<Rightarrow> slot_link \<Rightarrow> nat \<Rightarrow> (slot_link \<times> nat) option" where
  "find_slot m blk prev cur =
     (if cur \<noteq> 0 \<and> cur < blk then find_slot m blk (NextOf cur) (fb_next (m cur)) else Some (prev, cur))"

definition merge_next :: "nat \<Rightarrow> nat \<Rightarrow> nat \<Rightarrow> list_mem \<Rightarrow> list_mem" where
  "merge_next hdr blk cur h =
     (if cur \<noteq> 0 \<and> blk + hdr + fb_size (blocks h blk) = cur
      then h\<lparr>blocks := (blocks h)(blk := \<lparr>fb_size = fb_size (blocks h blk) + (hdr + fb_size (blocks h cur)),
                                         fb_next = fb_next (blocks h cur)\<rparr>)\<rparr>
      else h)"

definition merge_prev :: "nat \<Rightarrow> slot_link \<Rightarrow> nat \<Rightarrow> list_mem \<Rightarrow> list_mem" where
  "merge_prev hdr prev blk h = (case prev of
      Head \<Rightarrow> h
    | NextOf p \<Rightarrow>
        if p + hdr + fb_size (blocks h p) = blk
        then h\<lparr>blocks := (blocks h)(p := \<lparr>fb_size = fb_size (blocks h p) + (hdr + fb_size (blocks h blk)),
                                         fb_next = fb_next (blocks h blk)\<rparr>)\<rparr>
        else h)"

definition insert_block :: "nat \<Rightarrow> nat \<Rightarrow> list_mem \<Rightarrow> list_mem option" where
  "insert_block hdr blk h = (case find_slot (blocks h) blk Head (head h) of
      None \<Rightarrow> None
    | Some (prev, cur) \<Rightarrow>
        (let h1 = h\<lparr>blocks := (blocks h)(blk := (blocks h blk)\<lparr>fb_next := cur\<rparr>)\<rparr>
         in Some (merge_prev hdr prev blk (merge_next hdr blk cur (set_link prev blk h1)))))"

text \<open>Rounding up to a multiple of 16 as both allocators do it, and the bound on a requested size that
  \<^verbatim>\<open>Layout\<close> guarantees.\<close>

lemma round_16: "unat x + 15 < 2 ^ 64 \<Longrightarrow> unat ((x + 16 - 1) AND NOT (16 - 1 :: u64)) = 16 * ((unat x + 15) div 16)"
proof -
  assume a: "unat x + 15 < 2 ^ 64"
  have m: "(15 :: u64) = mask 4" by (simp add: mask_eq_exp_minus_1)
  have u: "unat (x + 15) = unat x + 15" using a by (simp add: unat_word_ariths)
  have "(x + 16 - 1) AND NOT (16 - 1 :: u64) = (x + 15) AND NOT (mask 4)" by (simp add: m [symmetric] add.commute)
  also have "\<dots> = push_bit 4 (drop_bit 4 (x + 15))"
    by (rule bit_word_eqI) (auto simp: bit_simps)
  finally have "unat ((x + 16 - 1) AND NOT (16 - 1 :: u64)) = unat (push_bit 4 (drop_bit 4 (x + 15)))" by simp
  also have "\<dots> = 16 * (unat (x + 15) div 16)"
  proof -
    have "unat (drop_bit 4 (x + 15)) = unat (x + 15) div 16" by (simp add: drop_bit_eq_div unat_div)
    moreover have "unat (x + 15) div 16 * 16 < 2 ^ 64"
      using a le_less_trans [OF div_times_less_eq_dividend [of "unat (x + 15)" 16]] u by simp
    ultimately show ?thesis by (simp add: push_bit_eq_mult mult.commute unat_word_ariths)
  qed
  finally show ?thesis by (simp add: u)
qed

lemma round_16_bounds: "k \<le> 16 * ((k + 15) div 16)" "16 * ((k + 15) div 16) < k + 16" for k :: nat
proof -
  have "16 * ((k + 15) div 16) + (k + 15) mod 16 = k + 15" "(k + 15) mod 16 < 16" by (simp_all only: mult_div_mod_eq)
  then show "k \<le> 16 * ((k + 15) div 16)" "16 * ((k + 15) div 16) < k + 16" by linarith+
qed

definition layout_ok :: "u64 \<Rightarrow> bool" where
  "layout_ok n \<longleftrightarrow> unat n < 2 ^ 63"

section \<open>Segments\<close>

text \<open>A segment is an address and a length, header included.\<close>

type_synonym seg = "nat \<times> nat"

definition seg_set :: "seg \<Rightarrow> nat set" where
  "seg_set x = {fst x..<fst x + snd x}"

definition region :: "seg list \<Rightarrow> nat set" where
  "region xs = (\<Union>x\<in>set xs. seg_set x)"

definition MIN_SPLIT :: nat where "MIN_SPLIT = 32"

text \<open>Address order with a gap between neighbours: disjoint and fully coalesced.  Addresses and lengths are
  multiples of 16, and a segment has room for its header.\<close>

definition seg_ok :: "seg \<Rightarrow> bool" where
  "seg_ok x \<longleftrightarrow> 0 < fst x \<and> 16 dvd fst x \<and> 16 dvd snd x \<and> MIN_SPLIT \<le> snd x"

definition segs_ok :: "seg list \<Rightarrow> bool" where
  "segs_ok xs \<longleftrightarrow> sorted_wrt (\<lambda>x y. fst x + snd x < fst y) xs \<and> list_all seg_ok xs"

text \<open>First fit: the segment that is handed out and the list that remains.\<close>

fun first_fit :: "nat \<Rightarrow> seg list \<Rightarrow> (seg \<times> seg list) option" where
  "first_fit need [] = None"
| "first_fit need ((a, n) # xs) =
     (if need \<le> n
      then (if MIN_SPLIT \<le> n - need then Some ((a, need), (a + need, n - need) # xs) else Some ((a, n), xs))
      else map_option (\<lambda>(s, ys). (s, (a, n) # ys)) (first_fit need xs))"

text \<open>Insertion in address order, merging with the successor and then with the predecessor.\<close>

definition join_next :: "seg \<Rightarrow> seg list \<Rightarrow> seg list" where
  "join_next s qs = (case qs of
      [] \<Rightarrow> [s]
    | (c, k) # r \<Rightarrow> if fst s + snd s = c then (fst s, snd s + k) # r else s # qs)"

definition join_prev :: "seg list \<Rightarrow> seg list \<Rightarrow> seg list" where
  "join_prev ps qs = (if ps \<noteq> [] \<and> qs \<noteq> [] \<and> fst (last ps) + snd (last ps) = fst (hd qs)
     then butlast ps @ (fst (last ps), snd (last ps) + snd (hd qs)) # tl qs else ps @ qs)"

definition insert_seg :: "seg \<Rightarrow> seg list \<Rightarrow> seg list" where
  "insert_seg s xs = join_prev (takeWhile (\<lambda>x. fst x < fst s) xs) (join_next s (dropWhile (\<lambda>x. fst x < fst s) xs))"

lemma region_simps [simp]:
  "region [] = {}" "region (x # xs) = seg_set x \<union> region xs" "region (xs @ ys) = region xs \<union> region ys"
  by (simp_all add: region_def)

lemma segs_ok_simps:
  "segs_ok (x # xs) \<longleftrightarrow> seg_ok x \<and> (\<forall>y\<in>set xs. fst x + snd x < fst y) \<and> segs_ok xs"
  "segs_ok (xs @ ys) \<longleftrightarrow> segs_ok xs \<and> segs_ok ys \<and> (\<forall>x\<in>set xs. \<forall>y\<in>set ys. fst x + snd x < fst y)"
  by (auto simp: segs_ok_def sorted_wrt_append)

lemma segs_ok_Nil [simp]: "segs_ok []"
  by (simp add: segs_ok_def)

section \<open>First fit\<close>

lemma seg_okD: "seg_ok x \<Longrightarrow> 0 < fst x \<and> 16 dvd fst x \<and> 16 dvd snd x \<and> MIN_SPLIT \<le> snd x"
  by (simp add: seg_ok_def)

lemma later_disjoint:
  "\<forall>y\<in>set ys. fst x + snd x < fst y \<Longrightarrow> seg_set x \<inter> region ys = {}"
  by (fastforce simp: seg_set_def region_def)

lemma seg_set_split: "need \<le> n \<Longrightarrow> seg_set (a, n) = seg_set (a, need) \<union> seg_set (a + need, n - need)"
  "seg_set (a, need) \<inter> seg_set (a + need, k) = {}"
  by (auto simp: seg_set_def)

text \<open>What is left after a first fit, and that the handed-out segment was free.\<close>

definition fit_ok :: "nat \<Rightarrow> seg list \<Rightarrow> seg \<Rightarrow> seg list \<Rightarrow> bool" where
  "fit_ok need xs s ys \<longleftrightarrow> seg_ok s \<and> need \<le> snd s \<and> snd s < need + MIN_SPLIT \<and> segs_ok ys \<and> seg_set s \<subseteq> region xs
     \<and> region ys = region xs - seg_set s \<and> (\<forall>y\<in>set ys. \<exists>x\<in>set xs. fst x \<le> fst y)"

lemma first_fit_spec:
  "segs_ok xs \<Longrightarrow> first_fit need xs = Some (s, ys) \<Longrightarrow> 16 dvd need \<Longrightarrow> MIN_SPLIT \<le> need \<Longrightarrow> fit_ok need xs s ys"
proof (induction need xs arbitrary: s ys rule: first_fit.induct)
  case (2 need a n xs)
  have x: "seg_ok (a, n)" "\<forall>y\<in>set xs. a + n < fst y" "segs_ok xs" using 2(2) by (simp_all add: segs_ok_simps)
  have d: "seg_set (a, n) \<inter> region xs = {}" by (rule later_disjoint) (use x(2) in simp)
  show ?case
  proof (cases "need \<le> n")
    case fits: True
    show ?thesis
    proof (cases "MIN_SPLIT \<le> n - need")
      case True
      then have s: "s = (a, need)" "ys = (a + need, n - need) # xs" using 2(3) fits by simp_all
      have "seg_ok (a, need)" "seg_ok (a + need, n - need)"
        using x(1) 2(4,5) True by (simp_all add: seg_ok_def dvd_diff_nat)
      moreover have "region ys = region ((a, n) # xs) - seg_set s"
        using d seg_set_split(1) [OF fits, of a] seg_set_split(2) [of a need "n - need"] by (auto simp: s)
      ultimately show ?thesis using x fits seg_set_split(1) [OF fits, of a]
        by (auto simp: fit_ok_def s segs_ok_simps MIN_SPLIT_def)
    next
      case False
      then have s: "s = (a, n)" "ys = xs" using 2(3) fits by simp_all
      have "region xs = region ((a, n) # xs) - seg_set (a, n)" using d by auto
      then show ?thesis using x fits False by (auto simp: fit_ok_def s)
    qed
  next
    case False
    then obtain zs where z: "first_fit need xs = Some (s, zs)" "ys = (a, n) # zs" using 2(3) by auto
    have IH: "fit_ok need xs s zs" by (rule 2(1) [OF False x(3) z(1) 2(4,5)])
    have "a + n < fst y" if "y \<in> set zs" for y using IH that x(2) by (fastforce simp: fit_ok_def)
    moreover have "seg_set s \<inter> seg_set (a, n) = {}" using d IH by (auto simp: fit_ok_def)
    ultimately show ?thesis using IH x(1) by (auto simp: fit_ok_def z(2) segs_ok_simps)
  qed
qed simp

lemma first_fit_None: "first_fit need xs = None \<longleftrightarrow> (\<forall>x\<in>set xs. snd x < need)"
  by (induction need xs rule: first_fit.induct) auto

section \<open>Insertion\<close>

lemma take_drop_segs:
  assumes "segs_ok xs"
  shows "\<forall>x\<in>set (takeWhile (\<lambda>x. fst x < b) xs). fst x < b" "\<forall>x\<in>set (dropWhile (\<lambda>x. fst x < b) xs). b \<le> fst x"
proof -
  show "\<forall>x\<in>set (takeWhile (\<lambda>x. fst x < b) xs). fst x < b" by (auto dest: set_takeWhileD)
  show "\<forall>x\<in>set (dropWhile (\<lambda>x. fst x < b) xs). b \<le> fst x"
    using assms
  proof (induction xs)
    case (Cons x xs)
    then have "\<forall>y\<in>set xs. fst x < fst y" "segs_ok xs" by (auto simp: segs_ok_simps)
    then show ?case using Cons.IH by (cases "fst x < b") auto
  qed simp
qed

lemma join_next_ok:
  assumes "seg_ok s" "segs_ok qs" "\<forall>q\<in>set qs. fst s \<le> fst q" "seg_set s \<inter> region qs = {}"
  shows "segs_ok (join_next s qs)" "region (join_next s qs) = seg_set s \<union> region qs"
    "\<exists>n r. join_next s qs = (fst s, n) # r \<and> snd s \<le> n"
proof -
  have "segs_ok (join_next s qs) \<and> region (join_next s qs) = seg_set s \<union> region qs
      \<and> (\<exists>n r. join_next s qs = (fst s, n) # r \<and> snd s \<le> n)"
  proof (cases qs)
    case Nil
    then show ?thesis using assms(1) by (cases s) (simp add: join_next_def segs_ok_simps)
  next
    case (Cons q r)
    obtain c k where q: "q = (c, k)" by fastforce
    have qok: "seg_ok (c, k)" "\<forall>y\<in>set r. c + k < fst y" "segs_ok r"
      using assms(2) by (simp_all add: Cons q segs_ok_simps)
    have gap: "fst s + snd s \<le> c"
    proof (rule ccontr)
      assume "\<not> fst s + snd s \<le> c"
      then have "c \<in> seg_set s \<inter> seg_set (c, k)"
        using assms(3) qok(1) by (simp add: seg_set_def seg_ok_def Cons q MIN_SPLIT_def)
      then show False using assms(4) by (auto simp: Cons q)
    qed
    show ?thesis
    proof (cases "fst s + snd s = c")
      case True
      then have "seg_ok (fst s, snd s + k)" using assms(1) qok(1) by (simp add: seg_ok_def)
      moreover have "seg_set (fst s, snd s + k) = seg_set s \<union> seg_set (c, k)" using True by (auto simp: seg_set_def)
      ultimately show ?thesis using True qok by (auto simp: join_next_def Cons q segs_ok_simps)
    next
      case False
      then have "\<forall>y\<in>set qs. fst s + snd s < fst y" using gap qok(2) by (fastforce simp: Cons q)
      then show ?thesis using False assms(1,2) by (cases s) (simp add: join_next_def Cons q segs_ok_simps)
    qed
  qed
  then show "segs_ok (join_next s qs)" "region (join_next s qs) = seg_set s \<union> region qs"
    "\<exists>n r. join_next s qs = (fst s, n) # r \<and> snd s \<le> n" by simp_all
qed

lemma join_prev_ok:
  assumes "segs_ok ps" "segs_ok ((b, n) # r)" "\<forall>p\<in>set ps. fst p < b" "region ps \<inter> region ((b, n) # r) = {}"
  shows "segs_ok (join_prev ps ((b, n) # r))" "region (join_prev ps ((b, n) # r)) = region ps \<union> region ((b, n) # r)"
proof -
  have q: "seg_ok (b, n)" "\<forall>y\<in>set r. b + n < fst y" "segs_ok r" using assms(2) by (simp_all add: segs_ok_simps)
  have "segs_ok (join_prev ps ((b, n) # r)) \<and> region (join_prev ps ((b, n) # r)) = region ps \<union> region ((b, n) # r)"
  proof (cases ps rule: rev_cases)
    case Nil
    then show ?thesis using assms(2) by (simp add: join_prev_def)
  next
    case (snoc ps0 p)
    obtain c k where p: "p = (c, k)" by fastforce
    have pk: "segs_ok ps0" "seg_ok (c, k)" "\<forall>x\<in>set ps0. fst x + snd x < c"
      using assms(1) by (simp_all add: snoc p segs_ok_simps)
    have gap: "c + k \<le> b"
    proof (rule ccontr)
      assume "\<not> c + k \<le> b"
      then have "b \<in> seg_set (c, k) \<inter> seg_set (b, n)"
        using assms(3) q(1) by (simp add: seg_set_def seg_ok_def snoc p MIN_SPLIT_def)
      then show False using assms(4) by (auto simp: snoc p)
    qed
    show ?thesis
    proof (cases "c + k = b")
      case True
      then have "seg_ok (c, k + n)" using pk(2) q(1) by (simp add: seg_ok_def)
      moreover have "seg_set (c, k + n) = seg_set (c, k) \<union> seg_set (b, n)" using True by (auto simp: seg_set_def)
      moreover have "\<forall>x\<in>set ps0. \<forall>y\<in>set r. fst x + snd x < fst y" using pk(3) q(2) gap by fastforce
      ultimately show ?thesis using True pk q by (auto simp: join_prev_def snoc p segs_ok_simps add.assoc)
    next
      case False
      then have g: "c + k < b" using gap by simp
      then have "\<forall>x\<in>set ps. \<forall>y\<in>set ((b, n) # r). fst x + snd x < fst y"
        using pk(3) q(2) by (fastforce simp: snoc p)
      then have "segs_ok (ps @ (b, n) # r)" using assms(1,2) by (simp only: segs_ok_simps(2))
      then show ?thesis using False by (simp add: join_prev_def snoc p Un_assoc)
    qed
  qed
  then show "segs_ok (join_prev ps ((b, n) # r))" "region (join_prev ps ((b, n) # r)) = region ps \<union> region ((b, n) # r)"
    by simp_all
qed

lemma insert_seg_spec:
  assumes "segs_ok xs" "seg_ok s" "seg_set s \<inter> region xs = {}"
  shows "segs_ok (insert_seg s xs)" "region (insert_seg s xs) = seg_set s \<union> region xs"
proof -
  let ?ps = "takeWhile (\<lambda>x. fst x < fst s) xs" and ?qs = "dropWhile (\<lambda>x. fst x < fst s) xs"
  have app: "?ps @ ?qs = xs" by simp
  have ok: "segs_ok ?ps" "segs_ok ?qs" using assms(1) segs_ok_simps(2) [of ?ps ?qs] app by simp_all
  have rg: "region xs = region ?ps \<union> region ?qs" using region_simps(3) [of ?ps ?qs] app by simp
  have pq: "region ?ps \<inter> region ?qs = {}"
    using assms(1) segs_ok_simps(2) [of ?ps ?qs] app later_disjoint [of ?qs] by (fastforce simp: region_def)
  note td = take_drop_segs [OF assms(1), of "fst s"]
  have dis: "seg_set s \<inter> region ?qs = {}" using assms(3) rg by auto
  note j = join_next_ok [OF assms(2) ok(2) td(2) dis]
  obtain n r where nr: "join_next s ?qs = (fst s, n) # r" using j(3) by blast
  have "region ?ps \<inter> region (join_next s ?qs) = {}" using j(2) pq assms(3) rg by auto
  then show "segs_ok (insert_seg s xs)" "region (insert_seg s xs) = seg_set s \<union> region xs"
    using join_prev_ok [OF ok(1), of "fst s" n r] j(1,2) td(1) rg by (auto simp: insert_seg_def nr)
qed

section \<open>Lists of blocks in memory\<close>

text \<open>\<open>path hdr m p xs q\<close>: following the next fields from \<open>p\<close> passes exactly the blocks of the segments
  \<open>xs\<close> and arrives at \<open>q\<close>.\<close>

primrec path :: "nat \<Rightarrow> (nat \<Rightarrow> free_block) \<Rightarrow> nat \<Rightarrow> seg list \<Rightarrow> nat \<Rightarrow> bool" where
  "path hdr m p [] q \<longleftrightarrow> p = q"
| "path hdr m p (x # xs) q \<longleftrightarrow> p = fst x \<and> snd x = hdr + fb_size (m (fst x)) \<and> path hdr m (fb_next (m (fst x))) xs q"

definition holds :: "nat \<Rightarrow> list_mem \<Rightarrow> seg list \<Rightarrow> bool" where
  "holds hdr h xs \<longleftrightarrow> path hdr (blocks h) (head h) xs 0 \<and> segs_ok xs"

lemma path_append [simp]: "path hdr m p (xs @ ys) q \<longleftrightarrow> (\<exists>r. path hdr m p xs r \<and> path hdr m r ys q)"
  by (induction xs arbitrary: p) auto

lemma path_cong: "(\<And>x. x \<in> set xs \<Longrightarrow> m' (fst x) = m (fst x)) \<Longrightarrow> path hdr m' p xs q \<longleftrightarrow> path hdr m p xs q"
proof (induction xs arbitrary: p)
  case (Cons x xs)
  have "m' (fst x) = m (fst x)" using Cons.prems by simp
  moreover have "path hdr m' q' xs q \<longleftrightarrow> path hdr m q' xs q" for q'
    using Cons.prems by (intro Cons.IH) simp
  ultimately show ?case by simp
qed simp

lemma path_upd: "a \<notin> fst ` set xs \<Longrightarrow> path hdr (m(a := v)) p xs q \<longleftrightarrow> path hdr m p xs q"
  by (rule path_cong) auto

text \<open>The link that a walk over \<open>ps\<close> leaves behind.\<close>

definition last_link :: "seg list \<Rightarrow> slot_link" where
  "last_link ps = (if ps = [] then Head else NextOf (fst (last ps)))"

lemma set_link_path:
  assumes "path hdr (blocks h) (head h) ps r" "distinct (map fst ps)"
  shows "path hdr (blocks (set_link (last_link ps) q h)) (head (set_link (last_link ps) q h)) ps q"
proof (cases ps rule: rev_cases)
  case (snoc ps0 p)
  then have "fst p \<notin> fst ` set ps0" using assms(2) by auto
  then show ?thesis using assms(1) by (auto simp: snoc last_link_def path_upd)
qed (simp add: last_link_def)

lemma set_link_other:
  "a \<notin> fst ` set ps \<Longrightarrow> blocks (set_link (last_link ps) q h) a = blocks h a"
  by (cases ps rule: rev_cases) (auto simp: last_link_def)

lemma last_link_notin: "a \<notin> fst ` set ps \<Longrightarrow> last_link ps \<noteq> NextOf a"
  by (auto simp: last_link_def)

lemma segs_distinct: "segs_ok xs \<Longrightarrow> distinct (map fst xs)"
  by (induction xs) (fastforce simp: segs_ok_simps)+

lemma find_slot_path:
  "path hdr m cur xs 0 \<Longrightarrow> list_all seg_ok xs \<Longrightarrow>
     find_slot m b (last_link ps) cur
       = Some (last_link (ps @ takeWhile (\<lambda>x. fst x < b) xs), if dropWhile (\<lambda>x. fst x < b) xs = [] then 0
               else fst (hd (dropWhile (\<lambda>x. fst x < b) xs)))"
proof (induction xs arbitrary: cur ps)
  case Nil
  then show ?case by (subst find_slot.simps) simp
next
  case (Cons x xs)
  have c: "cur = fst x" "fst x \<noteq> 0" using Cons.prems by (simp_all add: seg_ok_def)
  show ?case
  proof (cases "fst x < b")
    case True
    have "last_link (ps @ [x]) = NextOf cur" by (simp add: last_link_def c)
    then have "find_slot m b (last_link ps) cur = find_slot m b (last_link (ps @ [x])) (fb_next (m cur))"
      using True c by (subst find_slot.simps) simp
    moreover have "path hdr m (fb_next (m cur)) xs 0" "list_all seg_ok xs" using Cons.prems by simp_all
    ultimately show ?thesis using Cons.IH [of "fb_next (m cur)" "ps @ [x]"] True by simp
  next
    case False
    then show ?thesis using c by (subst find_slot.simps) simp
  qed
qed

lemma set_link_split:
  assumes "path hdr (blocks h) (head h) (ps @ (c, n) # xs) 0" "segs_ok (ps @ (c, n) # xs)"
    and "path hdr (blocks h1) r ys 0" "\<And>a. a \<in> fst ` set ps \<Longrightarrow> blocks h1 a = blocks h a" "head h1 = head h"
    and "fst ` set ps \<inter> fst ` set ys = {}" "h2 = set_link (last_link ps) r h1"
  shows "path hdr (blocks h2) (head h2) (ps @ ys) 0"
proof -
  have p: "path hdr (blocks h) (head h) ps c" using assms(1) by auto
  have d: "distinct (map fst ps)" using segs_distinct [OF assms(2)] by simp
  have "path hdr (blocks h1) (head h1) ps c" using p path_cong [of ps "blocks h1" "blocks h"] assms(4,5) by auto
  from set_link_path [OF this d, of r] have "path hdr (blocks h2) (head h2) ps r" by (simp add: assms(7))
  moreover have "path hdr (blocks h2) r ys 0"
  proof -
    have "blocks h2 (fst y) = blocks h1 (fst y)" if "y \<in> set ys" for y
      unfolding assms(7) using that assms(6) by (intro set_link_other) auto
    then show ?thesis using assms(3) path_cong [of ys "blocks h2" "blocks h1"] by blast
  qed
  ultimately show ?thesis by auto
qed

section \<open>Insertion refines its specification\<close>

text \<open>After the walk: the blocks before and after the new one, and the new block linked in between.\<close>

lemma link_in_path:
  assumes "path hdr (blocks h) (head h) ps c" "path hdr (blocks h) c qs 0" "segs_ok ps" "segs_ok qs"
    and "b \<notin> fst ` set ps" "b \<notin> fst ` set qs" "fst ` set ps \<inter> fst ` set qs = {}"
    and "h1 = h\<lparr>blocks := (blocks h)(b := (blocks h b)\<lparr>fb_next := c\<rparr>)\<rparr>" "h2 = set_link (last_link ps) b h1"
  shows "path hdr (blocks h2) (head h2) ps b" "path hdr (blocks h2) c qs 0"
    "blocks h2 b = \<lparr>fb_size = fb_size (blocks h b), fb_next = c\<rparr>"
proof -
  have "path hdr (blocks h1) (head h1) ps c" using assms(1,5) by (simp add: assms(8) path_upd)
  then show "path hdr (blocks h2) (head h2) ps b"
    unfolding assms(9) by (rule set_link_path) (rule segs_distinct [OF assms(3)])
  have "path hdr (blocks h1) c qs 0" using assms(2,6) by (simp add: assms(8) path_upd)
  moreover have "blocks h2 (fst x) = blocks h1 (fst x)" if "x \<in> set qs" for x
    unfolding assms(9) using that assms(7) by (intro set_link_other) auto
  ultimately show "path hdr (blocks h2) c qs 0" using path_cong [of qs "blocks h2" "blocks h1"] by blast
  have "blocks h2 b = blocks h1 b" unfolding assms(9) by (rule set_link_other [OF assms(5)])
  then show "blocks h2 b = \<lparr>fb_size = fb_size (blocks h b), fb_next = c\<rparr>" by (simp add: assms(8))
qed

lemma merge_next_path:
  assumes "path hdr (blocks h) (head h) ps b" "path hdr (blocks h) c qs 0" "blocks h b = \<lparr>fb_size = n, fb_next = c\<rparr>"
    and "b \<notin> fst ` set ps" "b \<notin> fst ` set qs" "segs_ok qs" "h2 = merge_next hdr b c h"
  shows "path hdr (blocks h2) (head h2) (ps @ join_next (b, hdr + n) qs) 0"
proof (cases qs)
  case Nil
  then have "h2 = h" using assms(2,7) by (simp add: merge_next_def)
  then show ?thesis using assms(1,2,3) by (auto simp: Nil join_next_def)
next
  case (Cons x r)
  obtain k where x: "x = (c, k)" "k = hdr + fb_size (blocks h c)" "path hdr (blocks h) (fb_next (blocks h c)) r 0"
    using assms(2) by (cases x) (auto simp: Cons)
  have "c \<noteq> 0" using assms(6) by (simp add: Cons x segs_ok_simps seg_ok_def)
  show ?thesis
  proof (cases "b + (hdr + n) = c")
    case True
    then have "h2 = h\<lparr>blocks := (blocks h)(b := \<lparr>fb_size = n + k, fb_next = fb_next (blocks h c)\<rparr>)\<rparr>"
      using assms(3,7) \<open>c \<noteq> 0\<close> by (simp add: merge_next_def x(2) add.assoc)
    then show ?thesis using True assms(1,4,5) x by (auto simp: join_next_def Cons path_upd)
  next
    case False
    then have "h2 = h" using assms(3,7) by (simp add: merge_next_def add.assoc)
    then show ?thesis using False assms(1,2,3) x by (auto simp: join_next_def Cons)
  qed
qed

lemma merge_prev_path:
  assumes "path hdr (blocks h) (head h) (ps @ (b, n) # r) 0" "distinct (map fst (ps @ (b, n) # r))"
    and "h2 = merge_prev hdr (last_link ps) b h"
  shows "path hdr (blocks h2) (head h2) (join_prev ps ((b, n) # r)) 0"
proof (cases ps rule: rev_cases)
  case Nil
  then show ?thesis using assms by (simp add: merge_prev_def last_link_def join_prev_def)
next
  case (snoc ps0 p)
  obtain c k where p: "p = (c, k)" by fastforce
  have m: "path hdr (blocks h) (head h) ps0 c" "k = hdr + fb_size (blocks h c)" "fb_next (blocks h c) = b"
    "n = hdr + fb_size (blocks h b)" "path hdr (blocks h) (fb_next (blocks h b)) r 0"
    using assms(1) by (auto simp: snoc p)
  have nin: "c \<notin> fst ` set ps0" "c \<notin> fst ` set r" "b \<noteq> c" using assms(2) by (auto simp: snoc p)
  have l: "last_link ps = NextOf c" by (simp add: last_link_def snoc p)
  show ?thesis
  proof (cases "c + k = b")
    case True
    then have "h2 = h\<lparr>blocks := (blocks h)(c := \<lparr>fb_size = fb_size (blocks h c) + n, fb_next = fb_next (blocks h b)\<rparr>)\<rparr>"
      by (simp add: assms(3) l merge_prev_def m(2,4) add.assoc)
    then show ?thesis using True m nin by (auto simp: join_prev_def snoc p path_upd)
  next
    case False
    then have "h2 = h" by (simp add: assms(3) l merge_prev_def m(2) add.assoc)
    then show ?thesis using False assms(1) by (simp add: join_prev_def snoc p)
  qed
qed

lemma seg_fst_in: "seg_ok x \<Longrightarrow> fst x \<in> seg_set x"
  by (simp add: seg_ok_def seg_set_def MIN_SPLIT_def)

lemma fst_notin: "segs_ok xs \<Longrightarrow> seg_set s \<inter> region xs = {} \<Longrightarrow> seg_ok s \<Longrightarrow> fst s \<notin> fst ` set xs"
proof
  assume a: "segs_ok xs" "seg_set s \<inter> region xs = {}" "seg_ok s" "fst s \<in> fst ` set xs"
  then obtain x where x: "x \<in> set xs" "fst x = fst s" by force
  then have "seg_ok x" using a(1) by (simp add: segs_ok_def list_all_iff)
  then have "fst s \<in> region xs" using x seg_fst_in [of x] by (auto simp: region_def)
  then show False using a(2) seg_fst_in [OF a(3)] by blast
qed

lemma path_dropWhile:
  "path hdr m c xs 0 \<Longrightarrow> c = (if xs = [] then 0 else fst (hd xs))"
  by (cases xs) auto

lemma join_next_fst: "fst ` set (join_next s qs) \<subseteq> insert (fst s) (fst ` set qs)"
  by (cases qs) (auto simp: join_next_def split: if_splits)

lemma insert_block_refines:
  assumes "holds hdr h xs" "seg_ok (b, n)" "seg_set (b, n) \<inter> region xs = {}" "n = hdr + fb_size (blocks h b)"
  shows "\<exists>h'. insert_block hdr b h = Some h' \<and> holds hdr h' (insert_seg (b, n) xs)
    \<and> (\<forall>a. a \<noteq> b \<and> a \<notin> fst ` set xs \<longrightarrow> blocks h' a = blocks h a)"
proof -
  let ?ps = "takeWhile (\<lambda>x. fst x < b) xs" and ?qs = "dropWhile (\<lambda>x. fst x < b) xs"
  have ok: "segs_ok xs" and pth: "path hdr (blocks h) (head h) xs 0" using assms(1) by (simp_all add: holds_def)
  have app: "xs = ?ps @ ?qs" by simp
  have okpq: "segs_ok ?ps" "segs_ok ?qs" "\<forall>x\<in>set ?ps. \<forall>y\<in>set ?qs. fst x + snd x < fst y"
    using ok segs_ok_simps(2) [of ?ps ?qs] app by simp_all
  obtain c where c: "path hdr (blocks h) (head h) ?ps c" "path hdr (blocks h) c ?qs 0"
    using pth app path_append [of hdr "blocks h" "head h" ?ps ?qs 0] by auto
  have nb: "b \<notin> fst ` set xs" using fst_notin [OF ok assms(3,2)] by simp
  then have n1: "b \<notin> fst ` set ?ps" "b \<notin> fst ` set ?qs" by (auto dest: set_takeWhileD set_dropWhileD)
  have dj: "fst ` set ?ps \<inter> fst ` set ?qs = {}" using okpq(3) by fastforce
  have fs: "find_slot (blocks h) b Head (head h) = Some (last_link ?ps, c)"
    using find_slot_path [OF pth, of b "[]"] ok path_dropWhile [OF c(2)] by (simp add: last_link_def segs_ok_def)
  define h1 where "h1 = h\<lparr>blocks := (blocks h)(b := (blocks h b)\<lparr>fb_next := c\<rparr>)\<rparr>"
  define h2 where "h2 = set_link (last_link ?ps) b h1"
  define h3 where "h3 = merge_next hdr b c h2"
  define h4 where "h4 = merge_prev hdr (last_link ?ps) b h3"
  note l = link_in_path [OF c okpq(1,2) n1 dj h1_def h2_def]
  have p3: "path hdr (blocks h3) (head h3) (?ps @ join_next (b, n) ?qs) 0"
    unfolding assms(4) by (rule merge_next_path [OF l n1 okpq(2) h3_def])
  have "seg_set (b, n) \<inter> region ?qs = {}" using assms(3) region_simps(3) [of ?ps ?qs] app by auto
  from join_next_ok [OF assms(2) okpq(2) _ this] take_drop_segs(2) [OF ok, of b]
  obtain k r where j: "join_next (b, n) ?qs = (b, k) # r" "segs_ok ((b, k) # r)" by auto
  have "fst ` set ?ps \<inter> fst ` set ((b, k) # r) = {}"
    using join_next_fst [of "(b, n)" ?qs] n1(1) dj unfolding j by auto
  then have "distinct (map fst (?ps @ (b, k) # r))"
    using segs_distinct [OF okpq(1)] segs_distinct [OF j(2)] by simp
  from merge_prev_path [OF p3 [unfolded j] this h4_def]
  have "path hdr (blocks h4) (head h4) (insert_seg (b, n) xs) 0" by (simp add: insert_seg_def j)
  moreover have "insert_block hdr b h = Some h4"
    by (simp add: insert_block_def fs h1_def h2_def h3_def h4_def Let_def)
  moreover have "segs_ok (insert_seg (b, n) xs)" by (rule insert_seg_spec [OF ok assms(2,3)])
  moreover have "blocks h4 a = blocks h a" if "a \<noteq> b" "a \<notin> fst ` set xs" for a
  proof -
    have n: "a \<notin> fst ` set ?ps" using that(2) by (auto dest: set_takeWhileD)
    have "blocks h2 a = blocks h1 a" unfolding h2_def by (rule set_link_other [OF n])
    then show ?thesis using last_link_notin [OF n] that(1)
      by (auto simp: h4_def h3_def merge_prev_def merge_next_def h1_def split: slot_link.splits)
  qed
  ultimately show ?thesis by (auto simp: holds_def)
qed

end
