(* ===== verification/Pmm.thy ===== *)
theory Pmm
  imports Prelude
begin

text \<open>
  The physical memory manager (\<^verbatim>\<open>kernel/src/pmm.rs\<close>): a static bitmap with one bit per 4 KiB frame, set
  for a frame in use, and a counter of free frames.  The packed words are kept; \<open>free_set\<close> is the set of free
  frames they stand for, and every operation is described by its effect on that set.  The locale
  \<open>frame_source\<close> is the contract that clients of \<^verbatim>\<open>alloc_frame\<close> and \<^verbatim>\<open>free_frame\<close> rely on.
\<close>

section \<open>The bitmap\<close>

definition FRAME_SIZE :: u64 where "FRAME_SIZE = 4096"
definition MAX_FRAMES :: nat where "MAX_FRAMES = 4 * 1024 * 1024 * 1024 div 4096"
definition BITMAP_WORDS :: nat where "BITMAP_WORDS = MAX_FRAMES div 64"
definition LIMINE_MMAP_USABLE :: u64 where "LIMINE_MMAP_USABLE = 0"

record pmm =
  pm_bitmap :: "u64 list"
  free_frames :: u64

text \<open>The three helpers index the static array through a raw pointer; the callers keep the frame below
  \<open>MAX_FRAMES\<close>.\<close>

definition set_used :: "nat \<Rightarrow> u64 list \<Rightarrow> u64 list" where
  "set_used f bm = bm[f div 64 := bm ! (f div 64) OR push_bit (f mod 64) 1]"

definition set_free :: "nat \<Rightarrow> u64 list \<Rightarrow> u64 list" where
  "set_free f bm = bm[f div 64 := bm ! (f div 64) AND NOT (push_bit (f mod 64) 1)]"

definition is_used_frame :: "u64 list \<Rightarrow> nat \<Rightarrow> bool" where
  "is_used_frame bm f \<longleftrightarrow> bm ! (f div 64) AND push_bit (f mod 64) 1 \<noteq> 0"

definition mark_range_free :: "u64 \<Rightarrow> u64 \<Rightarrow> u64 list \<Rightarrow> u64 list" where
  "mark_range_free start fin bm =
     (if fin \<le> start then bm
      else fold set_free [unat ((start + FRAME_SIZE - 1) div FRAME_SIZE)
                          ..<min (unat (fin div FRAME_SIZE)) MAX_FRAMES] bm)"

definition mark_range_used :: "u64 \<Rightarrow> u64 \<Rightarrow> u64 list \<Rightarrow> u64 list" where
  "mark_range_used start fin bm =
     (if fin \<le> start then bm
      else fold set_used [unat (start div FRAME_SIZE)
                          ..<min (unat ((fin + FRAME_SIZE - 1) div FRAME_SIZE)) MAX_FRAMES] bm)"

definition count_zeros :: "u64 \<Rightarrow> nat" where
  "count_zeros w = length (filter (\<lambda>k. \<not> bit w k) [0..<64])"

definition trailing_ones :: "u64 \<Rightarrow> nat" where
  "trailing_ones w = length (takeWhile (bit w) [0..<64])"

section \<open>Operations\<close>

definition free_usable :: "(u64 \<times> u64 \<times> u64) list \<Rightarrow> u64 list \<Rightarrow> u64 list" where
  "free_usable entries = fold (\<lambda>(base, len, typ) bm.
     if typ = LIMINE_MMAP_USABLE then mark_range_free base (base + len) bm else bm) entries"

definition init_from_limine :: "(u64 \<times> u64 \<times> u64) list \<Rightarrow> u64 \<Rightarrow> u64 \<Rightarrow> pmm" where
  "init_from_limine entries kernel_phys_base kernel_phys_end =
     (let all_used = replicate BITMAP_WORDS (- 1);
          freed = free_usable entries all_used;
          bm = set_used 0 (mark_range_used kernel_phys_base kernel_phys_end freed)
      in \<lparr>pm_bitmap = bm, free_frames = of_nat (\<Sum>w\<leftarrow>bm. count_zeros w)\<rparr>)"

definition alloc_frame :: "pmm \<Rightarrow> u64 option \<times> pmm" where
  "alloc_frame s = (case position (\<lambda>w. w \<noteq> - 1) (pm_bitmap s) of
      None \<Rightarrow> (None, s)
    | Some wi \<Rightarrow>
        (let w = pm_bitmap s ! wi; b = trailing_ones w in
         (Some (of_nat (wi * 64 + b) * FRAME_SIZE),
          s\<lparr>pm_bitmap := (pm_bitmap s)[wi := w OR push_bit b 1], free_frames := free_frames s - 1\<rparr>)))"

text \<open>The three assertions are panics.\<close>

definition free_frame :: "u64 \<Rightarrow> (pmm, unit, unit) sm" where
  "free_frame addr s =
     (if addr mod FRAME_SIZE \<noteq> 0 then (Panic, s)
      else let f = unat (addr div FRAME_SIZE) in
           if \<not> f < MAX_FRAMES then (Panic, s)
           else if \<not> is_used_frame (pm_bitmap s) f then (Panic, s)
           else (Ok (), s\<lparr>pm_bitmap := set_free f (pm_bitmap s), free_frames := free_frames s + 1\<rparr>))"

definition free_frame_count :: "pmm \<Rightarrow> u64" where
  "free_frame_count s = free_frames s"

text \<open>The first used frame among \<open>n\<close> frames from \<open>start\<close>, relative to \<open>start\<close>: the inner loop of
  \<^verbatim>\<open>alloc_frames_contiguous\<close>.\<close>

definition first_used :: "u64 list \<Rightarrow> nat \<Rightarrow> nat \<Rightarrow> nat option" where
  "first_used bm start n = position (\<lambda>i. is_used_frame bm (start + i)) [0..<n]"

function find_run :: "u64 list \<Rightarrow> nat \<Rightarrow> nat \<Rightarrow> nat option" where
  "find_run bm n start =
     (if start + n \<le> MAX_FRAMES
      then (case first_used bm start n of
              None \<Rightarrow> Some start
            | Some i \<Rightarrow> find_run bm n (start + i + 1))
      else None)"
  by pat_completeness auto
termination find_run
  by (relation "measure (\<lambda>(bm, n, start). MAX_FRAMES + 1 - start)") auto

declare find_run.simps [simp del]

definition alloc_frames_contiguous :: "nat \<Rightarrow> pmm \<Rightarrow> u64 option \<times> pmm" where
  "alloc_frames_contiguous n s =
     (if n = 0 then (None, s)
      else case find_run (pm_bitmap s) n 0 of
             None \<Rightarrow> (None, s)
           | Some start \<Rightarrow>
               (Some (of_nat start * FRAME_SIZE),
                s\<lparr>pm_bitmap := fold set_used [start..<start + n] (pm_bitmap s),
                  free_frames := free_frames s - of_nat n\<rparr>))"

definition free_frames_contiguous :: "u64 \<Rightarrow> nat \<Rightarrow> (pmm, unit, unit) sm" where
  "free_frames_contiguous addr n = forS [0..<n] (\<lambda>i. free_frame (addr + of_nat i * FRAME_SIZE))"

section \<open>The set of free frames\<close>

definition used_set :: "u64 list \<Rightarrow> nat set" where
  "used_set bm = {f. f < 64 * length bm \<and> bit (bm ! (f div 64)) (f mod 64)}"

definition free_set :: "pmm \<Rightarrow> nat set" where
  "free_set s = {f. f < MAX_FRAMES} - used_set (pm_bitmap s)"

definition pmm_ok :: "pmm \<Rightarrow> bool" where
  "pmm_ok s \<longleftrightarrow> length (pm_bitmap s) = BITMAP_WORDS \<and> free_frames s = of_nat (card (free_set s))"

lemma sizes: "MAX_FRAMES = 64 * BITMAP_WORDS" "MAX_FRAMES = 1048576"
  by (simp_all add: MAX_FRAMES_def BITMAP_WORDS_def)

lemma free_set_upd [simp]: "free_set (s\<lparr>free_frames := n\<rparr>) = free_set s"
  by (simp add: free_set_def)

lemma finite_free [simp]: "finite (free_set s)"
  by (simp add: free_set_def)

lemma mask_bit: "k < 64 \<Longrightarrow> bit (push_bit k (1 :: u64)) j \<longleftrightarrow> j = k"
  by (auto simp: bit_exp_iff possible_bit_word)

lemma is_used_iff: "f < 64 * length bm \<Longrightarrow> is_used_frame bm f \<longleftrightarrow> f \<in> used_set bm"
proof -
  assume f: "f < 64 * length bm"
  let ?w = "bm ! (f div 64)"
  have "is_used_frame bm f \<longleftrightarrow> (\<exists>k. bit (?w AND push_bit (f mod 64) 1) k)"
    unfolding is_used_frame_def using bit_eqI [of "?w AND push_bit (f mod 64) 1" 0] by auto
  also have "\<dots> \<longleftrightarrow> bit ?w (f mod 64)" by (simp add: bit_and_iff mask_bit del: push_bit_of_1)
  finally show ?thesis using f by (simp add: used_set_def)
qed

lemma frame_eq: "f div 64 = g div 64 \<Longrightarrow> f mod 64 = g mod 64 \<longleftrightarrow> f = (g :: nat)"
  by (metis div_mult_mod_eq)

lemma set_used_set [bits_simps]:
  assumes "f < 64 * length bm"
  shows "used_set (set_used f bm) = insert f (used_set bm)" "length (set_used f bm) = length bm"
proof -
  have i: "f div 64 < length bm" using assms by (simp add: div_less_iff_less_mult mult.commute)
  have "x \<in> used_set (set_used f bm) \<longleftrightarrow> x \<in> insert f (used_set bm)" for x
  proof (cases "x div 64 = f div 64")
    case True
    then show ?thesis using i assms frame_eq [OF True]
      by (auto simp: used_set_def set_used_def bit_or_iff mask_bit simp del: push_bit_of_1)
  next
    case False
    then show ?thesis using assms by (auto simp: used_set_def set_used_def)
  qed
  then show "used_set (set_used f bm) = insert f (used_set bm)" by blast
  show "length (set_used f bm) = length bm" by (simp add: set_used_def)
qed

lemma set_free_set [bits_simps]:
  assumes "f < 64 * length bm"
  shows "used_set (set_free f bm) = used_set bm - {f}" "length (set_free f bm) = length bm"
proof -
  have i: "f div 64 < length bm" using assms by (simp add: div_less_iff_less_mult mult.commute)
  have "x \<in> used_set (set_free f bm) \<longleftrightarrow> x \<in> used_set bm - {f}" for x
  proof (cases "x div 64 = f div 64")
    case True
    then show ?thesis using i assms frame_eq [OF True]
      by (auto simp: used_set_def set_free_def bit_and_iff bit_not_iff possible_bit_word mask_bit simp del: push_bit_of_1)
  next
    case False
    then show ?thesis using assms by (auto simp: used_set_def set_free_def)
  qed
  then show "used_set (set_free f bm) = used_set bm - {f}" by blast
  show "length (set_free f bm) = length bm" by (simp add: set_free_def)
qed

lemma fold_set_used:
  "\<forall>f\<in>set fs. f < 64 * length bm \<Longrightarrow>
     used_set (fold set_used fs bm) = used_set bm \<union> set fs \<and> length (fold set_used fs bm) = length bm"
  by (induction fs arbitrary: bm) (auto simp: bits_simps)

lemma fold_set_free:
  "\<forall>f\<in>set fs. f < 64 * length bm \<Longrightarrow>
     used_set (fold set_free fs bm) = used_set bm - set fs \<and> length (fold set_free fs bm) = length bm"
  by (induction fs arbitrary: bm) (auto simp: bits_simps)

section \<open>Correctness of the operations\<close>

lemma trailing_ones_spec:
  assumes "w \<noteq> (- 1 :: u64)"
  shows "trailing_ones w < 64" "\<not> bit w (trailing_ones w)" "k < trailing_ones w \<Longrightarrow> bit w k"
proof -
  let ?t = "takeWhile (bit w) [0..<64]"
  obtain k where k: "k < 64" "\<not> bit w k" using assms bit_word_eqI [of w "- 1"] by auto
  have "?t \<noteq> [0..<64]"
  proof
    assume "?t = [0..<64]"
    then have "\<forall>x\<in>set [0..<64]. bit w x" by (simp only: takeWhile_eq_all_conv)
    then show False using k by simp
  qed
  then have l: "length ?t < length [0..<64]"
    by (metis length_takeWhile_le le_neq_implies_less takeWhile_eq_take take_all_iff linorder_not_less)
  then show "trailing_ones w < 64" by (simp add: trailing_ones_def)
  show "\<not> bit w (trailing_ones w)"
    using nth_length_takeWhile [OF l] l by (simp add: trailing_ones_def)
  show "bit w k" if "k < trailing_ones w" for k
    using that l nth_mem [of k ?t] set_takeWhileD [of "[0..<64] ! k" "bit w" "[0..<64]"]
    by (simp add: trailing_ones_def takeWhile_nth)
qed

lemma full_words:
  assumes "f < 64 * length bm" "\<forall>j \<le> f div 64. bm ! j = - 1"
  shows "f \<in> used_set bm"
  using assms by (simp add: used_set_def)

lemma alloc_frame_cases:
  assumes "pmm_ok s"
  obtains "alloc_frame s = (None, s)" "free_set s = {}"
  | f s' where "alloc_frame s = (Some (of_nat (4096 * f)), s')" "f \<in> free_set s" "\<And>g. g \<in> free_set s \<Longrightarrow> f \<le> g"
      "free_set s' = free_set s - {f}" "pmm_ok s'"
proof (cases "position (\<lambda>w. w \<noteq> - 1) (pm_bitmap s)")
  case None
  then have "\<forall>w\<in>set (pm_bitmap s). w = - 1" by (simp add: position_None)
  then have "free_set s = {}"
    using assms full_words [of _ "pm_bitmap s"] by (auto simp: free_set_def pmm_ok_def sizes used_set_def div_less_iff_less_mult mult.commute)
  then show ?thesis using None by (intro that(1)) (simp_all add: alloc_frame_def)
next
  case (Some wi)
  let ?bm = "pm_bitmap s" let ?w = "?bm ! wi" let ?f = "wi * 64 + trailing_ones ?w"
  let ?s = "s\<lparr>pm_bitmap := set_used ?f ?bm, free_frames := free_frames s - 1\<rparr>"
  have wi: "wi < length ?bm" "?w \<noteq> - 1" "\<And>j. j < wi \<Longrightarrow> ?bm ! j = - 1" using Some by (auto simp: position_Some)
  note t = trailing_ones_spec [OF wi(2)]
  have ix: "?f div 64 = wi" "?f mod 64 = trailing_ones ?w" using t(1) by simp_all
  have bnd: "?f < 64 * length ?bm" using wi(1) t(1) by linarith
  have f: "?f \<in> free_set s"
    using bnd t(2) ix assms by (simp add: free_set_def used_set_def pmm_ok_def sizes)
  have least: "?f \<le> g" if "g \<in> free_set s" for g
  proof (rule ccontr)
    assume "\<not> ?f \<le> g"
    then have "g < wi * 64 + trailing_ones ?w" "64 * (g div 64) + g mod 64 = g" "g mod 64 < 64" by simp_all
    then have "g div 64 < wi \<or> g div 64 = wi \<and> g mod 64 < trailing_ones ?w" using t(1) by linarith
    then have "bit (?bm ! (g div 64)) (g mod 64)" using wi(3) t(3) by auto
    then show False using that assms by (simp add: free_set_def used_set_def pmm_ok_def sizes)
  qed
  have fs: "free_set ?s = free_set s - {?f}" using set_used_set(1) [OF bnd] by (auto simp: free_set_def)
  have "card (free_set ?s) = card (free_set s) - 1" "0 < card (free_set s)"
    using f fs by (auto simp: card_gt_0_iff)
  then have "pmm_ok ?s" using assms set_used_set(2) [OF bnd] by (simp add: pmm_ok_def of_nat_diff)
  moreover have "alloc_frame s = (Some (of_nat (4096 * ?f)), ?s)"
    using Some ix by (simp add: alloc_frame_def Let_def set_used_def FRAME_SIZE_def algebra_simps)
  ultimately show ?thesis using f least fs by (intro that(2)) auto
qed

lemma free_frame_cases:
  assumes "pmm_ok s"
  shows "if addr mod 4096 = 0 \<and> unat (addr div 4096) < MAX_FRAMES \<and> unat (addr div 4096) \<notin> free_set s
     then \<exists>s'. free_frame addr s = (Ok (), s') \<and> pmm_ok s' \<and> free_set s' = insert (unat (addr div 4096)) (free_set s)
     else free_frame addr s = (Panic, s)"
proof (cases "addr mod 4096 = 0 \<and> unat (addr div 4096) < MAX_FRAMES")
  case True
  let ?f = "unat (addr div 4096)"
  let ?s = "s\<lparr>pm_bitmap := set_free ?f (pm_bitmap s), free_frames := free_frames s + 1\<rparr>"
  have bnd: "?f < 64 * length (pm_bitmap s)" using True assms by (simp add: pmm_ok_def sizes)
  have u: "is_used_frame (pm_bitmap s) ?f \<longleftrightarrow> ?f \<notin> free_set s"
    using True is_used_iff [OF bnd] by (simp add: free_set_def)
  have fs: "free_set ?s = insert ?f (free_set s)" using True set_free_set(1) [OF bnd] by (auto simp: free_set_def)
  have "pmm_ok ?s" if "?f \<notin> free_set s"
    using assms that fs set_free_set(2) [OF bnd] by (simp add: pmm_ok_def)
  then show ?thesis using True u fs by (auto simp: free_frame_def FRAME_SIZE_def Let_def)
qed (auto simp: free_frame_def FRAME_SIZE_def Let_def)

lemma first_used_None:
  assumes "start + n \<le> 64 * length bm"
  shows "first_used bm start n = None \<longleftrightarrow> {start..<start + n} \<inter> used_set bm = {}"
proof -
  have "first_used bm start n = None \<longleftrightarrow> (\<forall>i < n. start + i \<notin> used_set bm)"
    using assms by (auto simp: first_used_def position_None is_used_iff)
  also have "\<dots> \<longleftrightarrow> (\<forall>x\<in>{start..<start + n}. x \<notin> used_set bm)"
  proof safe
    fix x assume "\<forall>i<n. start + i \<notin> used_set bm" "x \<in> {start..<start + n}" "x \<in> used_set bm"
    then show False by (auto dest: spec [of _ "x - start"])
  qed auto
  finally show ?thesis by blast
qed

lemma first_used_Some:
  assumes "start + n \<le> 64 * length bm" "first_used bm start n = Some i"
  shows "i < n" "start + i \<in> used_set bm"
  using assms by (auto simp: first_used_def position_Some is_used_iff)

text \<open>The search returns the lowest run of free frames, or \<open>None\<close> if there is none.\<close>

definition lowest_run :: "u64 list \<Rightarrow> nat \<Rightarrow> nat \<Rightarrow> nat option \<Rightarrow> bool" where
  "lowest_run bm n start r = (case r of
      Some a \<Rightarrow> start \<le> a \<and> a + n \<le> MAX_FRAMES \<and> {a..<a + n} \<inter> used_set bm = {}
        \<and> (\<forall>b. start \<le> b \<and> b < a \<longrightarrow> {b..<b + n} \<inter> used_set bm \<noteq> {})
    | None \<Rightarrow> \<forall>b. start \<le> b \<and> b + n \<le> MAX_FRAMES \<longrightarrow> {b..<b + n} \<inter> used_set bm \<noteq> {})"

lemma lowest_run_later:
  assumes "lowest_run bm n (start + i + 1) r" "i < n" "start + i \<in> used_set bm"
  shows "lowest_run bm n start r"
proof -
  have "{b..<b + n} \<inter> used_set bm \<noteq> {}" if "start \<le> b" "\<not> start + i + 1 \<le> b" for b
  proof -
    have "start + i \<in> {b..<b + n} \<inter> used_set bm" using that assms(2,3) by simp
    then show ?thesis by blast
  qed
  then show ?thesis using assms(1) by (fastforce simp: lowest_run_def split: option.splits)
qed

lemma find_run_spec: "length bm = BITMAP_WORDS \<Longrightarrow> 0 < n \<Longrightarrow> lowest_run bm n start (find_run bm n start)"
proof (induction bm n start rule: find_run.induct)
  case (1 bm n start)
  show ?case
  proof (cases "start + n \<le> MAX_FRAMES")
    case False
    then show ?thesis by (subst find_run.simps) (auto simp: lowest_run_def)
  next
    case True
    then have b: "start + n \<le> 64 * length bm" using 1(2) by (simp add: sizes)
    show ?thesis
    proof (cases "first_used bm start n")
      case None
      then have "find_run bm n start = Some start" using True by (subst find_run.simps) simp
      then show ?thesis using None first_used_None [OF b] True by (simp add: lowest_run_def)
    next
      case (Some i)
      then have "find_run bm n start = find_run bm n (start + i + 1)" using True by (subst find_run.simps) simp
      then show ?thesis
        using lowest_run_later [OF 1(1) [OF True Some 1(2,3)]] first_used_Some [OF b Some] by simp
    qed
  qed
qed

lemma alloc_contiguous_cases:
  assumes "pmm_ok s" "0 < n"
  obtains "alloc_frames_contiguous n s = (None, s)"
      "\<And>b. b + n \<le> MAX_FRAMES \<Longrightarrow> \<not> {b..<b + n} \<subseteq> free_set s"
  | a s' where "alloc_frames_contiguous n s = (Some (of_nat (4096 * a)), s')" "{a..<a + n} \<subseteq> free_set s"
      "\<And>b. b < a \<Longrightarrow> \<not> {b..<b + n} \<subseteq> free_set s" "free_set s' = free_set s - {a..<a + n}" "pmm_ok s'"
proof -
  let ?bm = "pm_bitmap s"
  have l: "length ?bm = BITMAP_WORDS" using assms(1) by (simp add: pmm_ok_def)
  have sub: "{b..<b + n} \<subseteq> free_set s \<longleftrightarrow> {b..<b + n} \<inter> used_set ?bm = {}" if "b + n \<le> MAX_FRAMES" for b
    using that by (auto simp: free_set_def)
  note run = find_run_spec [OF l assms(2), of 0]
  show ?thesis
  proof (cases "find_run ?bm n 0")
    case None
    then show ?thesis using run sub assms(2)
      by (intro that(1)) (auto simp: alloc_frames_contiguous_def lowest_run_def)
  next
    case (Some a)
    let ?s = "s\<lparr>pm_bitmap := fold set_used [a..<a + n] ?bm, free_frames := free_frames s - of_nat n\<rparr>"
    have a: "a + n \<le> MAX_FRAMES" "{a..<a + n} \<inter> used_set ?bm = {}"
      "\<And>b. b < a \<Longrightarrow> {b..<b + n} \<inter> used_set ?bm \<noteq> {}" using run Some by (simp_all add: lowest_run_def)
    have fl: "used_set (fold set_used [a..<a + n] ?bm) = used_set ?bm \<union> {a..<a + n}"
      "length (fold set_used [a..<a + n] ?bm) = BITMAP_WORDS"
      using fold_set_used [of "[a..<a + n]" ?bm] a(1) l by (simp_all add: sizes)
    have fs: "free_set ?s = free_set s - {a..<a + n}" using fl(1) by (auto simp: free_set_def)
    have s1: "{a..<a + n} \<subseteq> free_set s" using sub [OF a(1)] a(2) by simp
    have "card (free_set ?s) = card (free_set s) - n" "n \<le> card (free_set s)"
      using fs s1 card_Diff_subset [OF _ s1] card_mono [OF finite_free s1] by simp_all
    then have "pmm_ok ?s" using assms(1) fl(2) by (simp add: pmm_ok_def of_nat_diff)
    moreover have "alloc_frames_contiguous n s = (Some (of_nat (4096 * a)), ?s)"
      using Some assms(2) by (simp add: alloc_frames_contiguous_def FRAME_SIZE_def mult.commute)
    moreover have "\<not> {b..<b + n} \<subseteq> free_set s" if "b < a" for b using a(1) a(3) [OF that] that sub [of b] by simp
    ultimately show ?thesis using s1 fs by (intro that(2)) auto
  qed
qed

section \<open>The contract for clients\<close>

text \<open>What the users of the frame allocator rely on: \<open>avail\<close> is the set of addresses it may still hand out.\<close>

locale frame_source =
  fixes alloc :: "'s \<Rightarrow> u64 option \<times> 's" and release :: "u64 \<Rightarrow> ('s, unit, unit) sm"
    and avail :: "'s \<Rightarrow> u64 set" and ok :: "'s \<Rightarrow> bool"
  assumes alloc_Some: "ok s \<Longrightarrow> alloc s = (Some a, s') \<Longrightarrow> a \<in> avail s \<and> avail s' = avail s - {a} \<and> ok s'"
    and alloc_None: "ok s \<Longrightarrow> alloc s = (None, s') \<Longrightarrow> avail s = {} \<and> s' = s"
    and release_Ok: "ok s \<Longrightarrow> release a s = (Ok u, s') \<Longrightarrow> a \<notin> avail s \<and> avail s' = insert a (avail s) \<and> ok s'"
    and release_fail: "ok s \<Longrightarrow> release a s = (r, s') \<Longrightarrow> \<not> is_ok r \<Longrightarrow> s' = s"

text \<open>A request of a client, and the frames its owner holds afterwards: a successful allocation adds the
  frame, a successful release drops it.\<close>

datatype frame_req = GetFrame | PutFrame u64

fun frame_step :: "('s \<Rightarrow> u64 option \<times> 's) \<Rightarrow> (u64 \<Rightarrow> ('s, unit, unit) sm) \<Rightarrow> frame_req \<Rightarrow> 's \<times> u64 list \<Rightarrow> 's \<times> u64 list" where
  "frame_step alloc release GetFrame (s, held) = (case alloc s of
      (Some a, s') \<Rightarrow> (s', a # held)
    | (None, s') \<Rightarrow> (s', held))"
| "frame_step alloc release (PutFrame a) (s, held) = (case release a s of
      (Ok u, s') \<Rightarrow> (s', removeAll a held)
    | (Err e, s') \<Rightarrow> (s', held)
    | (Panic, s') \<Rightarrow> (s', held))"

context frame_source
begin

text \<open>The frames held are pairwise distinct and none of them is available, whatever the clients do.\<close>

definition owned :: "'s \<times> u64 list \<Rightarrow> bool" where
  "owned x \<longleftrightarrow> ok (fst x) \<and> distinct (snd x) \<and> set (snd x) \<inter> avail (fst x) = {}"

lemma owned_step: "owned x \<Longrightarrow> owned (frame_step alloc release q x)"
proof (cases x)
  case (Pair s held)
  assume o1: "owned x"
  then have k: "ok s" "distinct held" "set held \<inter> avail s = {}" by (simp_all add: owned_def Pair)
  show ?thesis
  proof (cases q)
    case GetFrame
    obtain r s' where a: "alloc s = (r, s')" by fastforce
    show ?thesis
    proof (cases r)
      case None
      then show ?thesis using GetFrame a k alloc_None [OF k(1)] by (simp add: owned_def Pair)
    next
      case (Some b)
      then show ?thesis using GetFrame a k alloc_Some [OF k(1), of b s'] by (auto simp: owned_def Pair)
    qed
  next
    case (PutFrame a)
    obtain r s' where b: "release a s = (r, s')" by fastforce
    show ?thesis
    proof (cases r)
      case (Ok u)
      then show ?thesis using PutFrame b k release_Ok [OF k(1), of a u s']
        by (auto simp: owned_def Pair distinct_removeAll)
    qed (use PutFrame b k release_fail [OF k(1) b] in \<open>simp_all add: owned_def Pair\<close>)
  qed
qed

lemma owned_steps: "owned x \<Longrightarrow> owned (fold (frame_step alloc release) qs x)"
  by (induction qs arbitrary: x) (simp_all add: owned_step)

end

definition pmm_avail :: "pmm \<Rightarrow> u64 set" where
  "pmm_avail s = (\<lambda>f. of_nat (4096 * f)) ` free_set s"

lemma unat_frame: "f < MAX_FRAMES \<Longrightarrow> unat (4096 * of_nat f :: u64) = 4096 * f"
proof -
  assume "f < MAX_FRAMES"
  then have "4096 * f < 2 ^ LENGTH(64)" by (simp add: sizes(2))
  then have "unat (of_nat (4096 * f) :: u64) = 4096 * f" by (subst unat_of_nat) (rule mod_less)
  then show ?thesis by simp
qed

lemma frame_addr_inj: "inj_on (\<lambda>f. of_nat (4096 * f) :: u64) {f. f < MAX_FRAMES}"
proof (rule inj_onI)
  fix f g assume m: "f \<in> {f. f < MAX_FRAMES}" "g \<in> {f. f < MAX_FRAMES}" "(of_nat (4096 * f) :: u64) = of_nat (4096 * g)"
  from m(3) have "4096 * of_nat f = (4096 * of_nat g :: u64)" by (simp only: of_nat_mult of_nat_numeral)
  then have "unat (4096 * of_nat f :: u64) = unat (4096 * of_nat g :: u64)" by (rule arg_cong)
  then have "4096 * f = 4096 * g" using m(1,2) by (simp only: mem_Collect_eq unat_frame)
  then show "f = g" by simp
qed

lemma addr_frame: "addr mod 4096 = 0 \<Longrightarrow> of_nat (4096 * unat (addr div 4096 :: u64)) = addr"
  using mult_div_mod_eq [of 4096 addr] by simp

lemma pmm_avail_image: "f < MAX_FRAMES \<Longrightarrow> of_nat (4096 * f) \<in> pmm_avail s \<longleftrightarrow> f \<in> free_set s"
  unfolding pmm_avail_def using inj_on_image_mem_iff [OF frame_addr_inj, of f "free_set s"]
  by (auto simp: free_set_def)

interpretation frames: frame_source alloc_frame free_frame pmm_avail pmm_ok
proof unfold_locales
  fix s s' a assume ok: "pmm_ok s"
  show "a \<in> pmm_avail s \<and> pmm_avail s' = pmm_avail s - {a} \<and> pmm_ok s'" if "alloc_frame s = (Some a, s')"
  proof (rule alloc_frame_cases [OF ok])
    fix f t assume f: "alloc_frame s = (Some (of_nat (4096 * f)), t)" "f \<in> free_set s" "free_set t = free_set s - {f}" "pmm_ok t"
    then have "pmm_avail t = pmm_avail s - {of_nat (4096 * f)}"
      unfolding pmm_avail_def f(3)
      by (subst inj_on_image_set_diff [OF frame_addr_inj]) (auto simp: free_set_def)
    then show ?thesis using f that by (simp add: pmm_avail_def)
  qed (use that in simp)
  show "pmm_avail s = {} \<and> s' = s" if "alloc_frame s = (None, s')"
    by (rule alloc_frame_cases [OF ok]) (use that in \<open>simp_all add: pmm_avail_def\<close>)
next
  fix s s' a u assume a: "pmm_ok s" "free_frame a s = (Ok u, s')"
  let ?f = "unat (a div 4096)"
  have c: "a mod 4096 = 0 \<and> ?f < MAX_FRAMES \<and> ?f \<notin> free_set s"
    using free_frame_cases [OF a(1), of a] a(2) by (simp split: if_splits)
  then have s': "pmm_ok s'" "free_set s' = insert ?f (free_set s)" using free_frame_cases [OF a(1), of a] a(2) by simp_all
  have e: "of_nat (4096 * ?f) = a" using c by (intro addr_frame) simp
  have "a \<notin> pmm_avail s" using c pmm_avail_image [of ?f s] unfolding e by simp
  moreover have "pmm_avail s' = insert a (pmm_avail s)" unfolding pmm_avail_def s'(2) image_insert e ..
  ultimately show "a \<notin> pmm_avail s \<and> pmm_avail s' = insert a (pmm_avail s) \<and> pmm_ok s'" using s'(1) by simp
next
  fix s s' a and r :: "(unit, unit) res" assume "pmm_ok s" "free_frame a s = (r, s')" "\<not> is_ok r"
  then show "s' = s" unfolding free_frame_def Let_def by (cases r) (simp_all split: if_splits)
qed

section \<open>Initialisation\<close>

definition inside :: "u64 \<Rightarrow> u64 \<Rightarrow> nat \<Rightarrow> bool" where
  "inside start fin f \<longleftrightarrow> unat start \<le> 4096 * f \<and> 4096 * (f + 1) \<le> unat fin"

definition overlaps :: "u64 \<Rightarrow> u64 \<Rightarrow> nat \<Rightarrow> bool" where
  "overlaps start fin f \<longleftrightarrow> start < fin \<and> 4096 * f < unat fin \<and> unat start < 4096 * (f + 1)"

lemma round_up_frame: "unat x + 4095 < 2 ^ 64 \<Longrightarrow> unat ((x + FRAME_SIZE - 1) div FRAME_SIZE) = (unat x + 4095) div 4096"
proof -
  assume "unat x + 4095 < 2 ^ 64"
  then have "unat (x + 4095) = unat x + 4095" by (simp add: unat_word_ariths)
  then have "unat (4095 + x) = unat x + 4095" by (simp add: add.commute)
  then show ?thesis by (simp add: FRAME_SIZE_def unat_div)
qed

lemma frame_bounds:
  fixes x y f :: nat
  shows "(x + 4095) div 4096 \<le> f \<longleftrightarrow> x \<le> 4096 * f" "f < y div 4096 \<longleftrightarrow> 4096 * (f + 1) \<le> y"
    "x div 4096 \<le> f \<longleftrightarrow> x < 4096 * (f + 1)" "f < (y + 4095) div 4096 \<longleftrightarrow> 4096 * f < y"
proof -
  have d: "a div 4096 \<le> f \<longleftrightarrow> a < 4096 * (f + 1)" for a :: nat
    using div_less_iff_less_mult [of 4096 a "Suc f"] by (simp add: less_Suc_eq_le mult.commute)
  show "x div 4096 \<le> f \<longleftrightarrow> x < 4096 * (f + 1)" by (rule d)
  show "(x + 4095) div 4096 \<le> f \<longleftrightarrow> x \<le> 4096 * f" using d [of "x + 4095"] by auto
  show "f < y div 4096 \<longleftrightarrow> 4096 * (f + 1) \<le> y" using d [of y] by auto
  show "f < (y + 4095) div 4096 \<longleftrightarrow> 4096 * f < y" using d [of "y + 4095"] by auto
qed

lemma mark_range_free_set:
  assumes "length bm = BITMAP_WORDS" "unat start + 4095 < 2 ^ 64"
  shows "used_set (mark_range_free start fin bm) = used_set bm - {f. inside start fin f}"
    "length (mark_range_free start fin bm) = BITMAP_WORDS"
proof -
  let ?fs = "[unat ((start + FRAME_SIZE - 1) div FRAME_SIZE)..<min (unat (fin div FRAME_SIZE)) MAX_FRAMES]"
  have u: "unat (fin div FRAME_SIZE) = unat fin div 4096" by (simp add: FRAME_SIZE_def unat_div)
  have s: "set ?fs = {f. inside start fin f \<and> f < MAX_FRAMES}"
    unfolding round_up_frame [OF assms(2)] u by (simp add: set_eq_iff frame_bounds inside_def less_Suc_eq_le)
  have e: "{f. inside start fin f} = {}" if "fin \<le> start"
    using that by (auto simp: inside_def word_le_nat_alt)
  have b: "used_set bm \<subseteq> {f. f < MAX_FRAMES}" using assms(1) by (auto simp: used_set_def sizes)
  have "\<forall>f\<in>set ?fs. f < 64 * length bm" using assms(1) by (simp add: sizes)
  note f = fold_set_free [OF this]
  have "used_set bm - {f. inside start fin f \<and> f < MAX_FRAMES} = used_set bm - {f. inside start fin f}" using b by auto
  then have "used_set (mark_range_free start fin bm) = used_set bm - {f. inside start fin f}
      \<and> length (mark_range_free start fin bm) = BITMAP_WORDS"
    using f s e assms(1) by (cases "fin \<le> start") (simp_all add: mark_range_free_def)
  then show "used_set (mark_range_free start fin bm) = used_set bm - {f. inside start fin f}"
    "length (mark_range_free start fin bm) = BITMAP_WORDS" by simp_all
qed

lemma mark_range_used_set:
  assumes "length bm = BITMAP_WORDS" "unat fin + 4095 < 2 ^ 64"
  shows "used_set (mark_range_used start fin bm) = used_set bm \<union> {f. overlaps start fin f \<and> f < MAX_FRAMES}"
    "length (mark_range_used start fin bm) = BITMAP_WORDS"
proof -
  let ?fs = "[unat (start div FRAME_SIZE)..<min (unat ((fin + FRAME_SIZE - 1) div FRAME_SIZE)) MAX_FRAMES]"
  have u: "unat (start div FRAME_SIZE) = unat start div 4096" by (simp add: FRAME_SIZE_def unat_div)
  have s: "set ?fs = {f. overlaps start fin f \<and> f < MAX_FRAMES}" if "start < fin"
    unfolding round_up_frame [OF assms(2)] u using that by (auto simp add: set_eq_iff frame_bounds overlaps_def)
  have "\<forall>f\<in>set ?fs. f < 64 * length bm" using assms(1) by (simp add: sizes)
  note f = fold_set_used [OF this]
  have "used_set (mark_range_used start fin bm) = used_set bm \<union> {f. overlaps start fin f \<and> f < MAX_FRAMES}
      \<and> length (mark_range_used start fin bm) = BITMAP_WORDS"
  proof (cases "fin \<le> start")
    case True
    then have e: "{f. overlaps start fin f \<and> f < MAX_FRAMES} = {}" by (auto simp: overlaps_def)
    show ?thesis unfolding e using True assms(1) by (simp add: mark_range_used_def)
  next
    case False
    then show ?thesis using f s assms(1) by (simp add: mark_range_used_def)
  qed
  then show "used_set (mark_range_used start fin bm) = used_set bm \<union> {f. overlaps start fin f \<and> f < MAX_FRAMES}"
    "length (mark_range_used start fin bm) = BITMAP_WORDS" by simp_all
qed

text \<open>An entry of the memory map whose end does not wrap around.\<close>

definition map_entry_ok :: "u64 \<times> u64 \<times> u64 \<Rightarrow> bool" where
  "map_entry_ok x \<longleftrightarrow> (case x of (base, len, typ) \<Rightarrow> unat base + unat len < 2 ^ 64 \<and> unat base + 4095 < 2 ^ 64)"

definition usable :: "(u64 \<times> u64 \<times> u64) list \<Rightarrow> nat \<Rightarrow> bool" where
  "usable entries f \<longleftrightarrow> (\<exists>(base, len, typ) \<in> set entries. typ = LIMINE_MMAP_USABLE \<and> inside base (base + len) f)"

lemma free_usable_set:
  "length bm = BITMAP_WORDS \<Longrightarrow> list_all map_entry_ok entries \<Longrightarrow>
     used_set (free_usable entries bm) = used_set bm - {f. usable entries f}
       \<and> length (free_usable entries bm) = BITMAP_WORDS"
proof (induction entries arbitrary: bm)
  case (Cons x entries)
  obtain b l ty where x: "x = (b, l, ty)" by (cases x) auto
  let ?bm = "if ty = LIMINE_MMAP_USABLE then mark_range_free b (b + l) bm else bm"
  have e: "free_usable (x # entries) bm = free_usable entries ?bm" by (simp add: free_usable_def x)
  have "used_set ?bm = used_set bm - {f. ty = LIMINE_MMAP_USABLE \<and> inside b (b + l) f}" "length ?bm = BITMAP_WORDS"
    using mark_range_free_set [OF Cons.prems(1), of b] Cons.prems by (auto simp: x map_entry_ok_def)
  then show ?case using Cons.IH [of ?bm] Cons.prems(2) unfolding e by (auto simp: usable_def x)
qed (simp add: free_usable_def usable_def [abs_def])

lemma zeros_card:
  "card ({f. f < 64 * length bm} - used_set bm) = (\<Sum>w\<leftarrow>bm. count_zeros w)"
proof (induction bm rule: rev_induct)
  case (snoc w bm)
  let ?F = "\<lambda>bm. {f. f < 64 * length bm} - used_set bm"
  let ?Z = "(\<lambda>k. 64 * length bm + k) ` {k. k < 64 \<and> \<not> bit w k}"
  have z: "card {k. k < 64 \<and> \<not> bit w k} = count_zeros w"
  proof -
    have "count_zeros w = card (set (filter (\<lambda>k. \<not> bit w k) [0..<64]))"
      unfolding count_zeros_def by (rule distinct_card [symmetric]) simp
    also have "set (filter (\<lambda>k. \<not> bit w k) [0..<64]) = {k. k < 64 \<and> \<not> bit w k}" by auto
    finally show ?thesis by simp
  qed
  have u: "?F (bm @ [w]) = ?F bm \<union> ?Z"
  proof (intro set_eqI)
    fix f show "f \<in> ?F (bm @ [w]) \<longleftrightarrow> f \<in> ?F bm \<union> ?Z"
    proof (cases "f < 64 * length bm")
      case True
      then show ?thesis by (auto simp: used_set_def nth_append div_less_iff_less_mult mult.commute)
    next
      case False
      define k where "k = f - 64 * length bm"
      then have f: "f = 64 * length bm + k" using False by simp
      have "f < 64 * length (bm @ [w]) \<longleftrightarrow> k < 64" by (simp add: f)
      moreover have "f div 64 = length bm" "f mod 64 = k" if "k < 64" using that by (simp_all add: f)
      moreover have "f \<in> ?Z \<longleftrightarrow> k < 64 \<and> \<not> bit w k" by (auto simp: f)
      moreover have "f \<notin> ?F bm" using False by simp
      ultimately show ?thesis by (cases "k < 64") (simp_all add: used_set_def)
    qed
  qed
  have "card (?F bm \<union> ?Z) = card (?F bm) + card ?Z" by (intro card_Un_disjoint) auto
  also have "card ?Z = count_zeros w" using z by (subst card_image) (auto simp: inj_on_def)
  finally have "card (?F (bm @ [w])) = (\<Sum>w\<leftarrow>bm. count_zeros w) + count_zeros w" unfolding u snoc .
  then show ?case by (simp only: map_append sum_list_append list.map sum_list.Cons sum_list.Nil add_0_right)
qed (simp add: used_set_def)

lemma init_ok:
  assumes "list_all map_entry_ok entries" "unat kend + 4095 < 2 ^ 64"
  shows "pmm_ok (init_from_limine entries kbase kend)"
    "free_set (init_from_limine entries kbase kend)
      = {f. f < MAX_FRAMES \<and> usable entries f \<and> \<not> overlaps kbase kend f \<and> f \<noteq> 0}"
proof -
  let ?a = "replicate BITMAP_WORDS (- 1 :: u64)"
  let ?b = "free_usable entries ?a" let ?c = "mark_range_used kbase kend ?b" let ?d = "set_used 0 ?c"
  have a: "used_set ?a = {f. f < MAX_FRAMES}"
    by (auto simp: used_set_def sizes div_less_iff_less_mult mult.commute)
  have b: "used_set ?b = {f. f < MAX_FRAMES} - {f. usable entries f}" "length ?b = BITMAP_WORDS"
    using free_usable_set [OF _ assms(1), of ?a] a by simp_all
  note c = mark_range_used_set [OF b(2) assms(2), of kbase]
  have z: "0 < 64 * length ?c" unfolding c(2) by (simp add: BITMAP_WORDS_def MAX_FRAMES_def)
  have d: "used_set ?d = insert 0 (used_set ?c)" "length ?d = BITMAP_WORDS"
    using set_used_set [OF z] c(2) by simp_all
  let ?s = "init_from_limine entries kbase kend"
  have s: "pm_bitmap ?s = ?d" "free_frames ?s = of_nat (\<Sum>w\<leftarrow>?d. count_zeros w)"
    by (simp_all add: init_from_limine_def Let_def)
  show "free_set ?s = {f. f < MAX_FRAMES \<and> usable entries f \<and> \<not> overlaps kbase kend f \<and> f \<noteq> 0}"
    unfolding free_set_def s(1) d(1) c(1) b(1) by auto
  have "card (free_set ?s) = (\<Sum>w\<leftarrow>?d. count_zeros w)"
    using zeros_card [of ?d] d(2) unfolding free_set_def s(1) by (simp add: sizes(1))
  then show "pmm_ok ?s" using d(2) unfolding pmm_ok_def s by (simp only: simp_thms)
qed

section \<open>Properties\<close>

text \<open>
  C14. The frame allocator implements a set of free frames.  \<^verbatim>\<open>alloc_frame\<close> takes the lowest free frame
  and reports exhaustion exactly when there is none; \<^verbatim>\<open>alloc_frames_contiguous\<close> takes the lowest run of
  \<open>n\<close> free frames and reports failure exactly when no run exists; \<^verbatim>\<open>free_frame\<close> returns a frame that is
  in use and panics, changing nothing, on an unaligned or out-of-range address and on a double free.  The counter
  always is the number of free frames.
\<close>
theorem frame_set_refinement:
  assumes "pmm_ok s"
  shows "(case alloc_frame s of
        (None, s') \<Rightarrow> free_set s = {} \<and> s' = s
      | (Some a, s') \<Rightarrow> free_set s \<noteq> {} \<and> a = of_nat (4096 * Min (free_set s))
          \<and> free_set s' = free_set s - {Min (free_set s)} \<and> pmm_ok s')
    \<and> (0 < n \<longrightarrow> (case alloc_frames_contiguous n s of
        (None, s') \<Rightarrow> s' = s \<and> (\<forall>b. b + n \<le> MAX_FRAMES \<longrightarrow> \<not> {b..<b + n} \<subseteq> free_set s)
      | (Some a, s') \<Rightarrow> \<exists>f. a = of_nat (4096 * f) \<and> {f..<f + n} \<subseteq> free_set s
          \<and> (\<forall>b < f. \<not> {b..<b + n} \<subseteq> free_set s) \<and> free_set s' = free_set s - {f..<f + n} \<and> pmm_ok s'))
    \<and> (if addr mod 4096 = 0 \<and> unat (addr div 4096) < MAX_FRAMES \<and> unat (addr div 4096) \<notin> free_set s
       then \<exists>s'. free_frame addr s = (Ok (), s') \<and> pmm_ok s' \<and> free_set s' = insert (unat (addr div 4096)) (free_set s)
       else free_frame addr s = (Panic, s))
    \<and> free_frame_count s = of_nat (card (free_set s))"
proof (intro conjI impI)
  show "case alloc_frame s of
        (None, s') \<Rightarrow> free_set s = {} \<and> s' = s
      | (Some a, s') \<Rightarrow> free_set s \<noteq> {} \<and> a = of_nat (4096 * Min (free_set s))
          \<and> free_set s' = free_set s - {Min (free_set s)} \<and> pmm_ok s'"
  proof (rule alloc_frame_cases [OF assms])
    fix f s' assume f: "alloc_frame s = (Some (of_nat (4096 * f)), s')" "f \<in> free_set s" "\<And>g. g \<in> free_set s \<Longrightarrow> f \<le> g"
      "free_set s' = free_set s - {f}" "pmm_ok s'"
    then have "Min (free_set s) = f" by (intro Min_eqI) simp_all
    then show ?thesis using f by auto
  qed simp
next
  assume n: "0 < n"
  show "case alloc_frames_contiguous n s of
        (None, s') \<Rightarrow> s' = s \<and> (\<forall>b. b + n \<le> MAX_FRAMES \<longrightarrow> \<not> {b..<b + n} \<subseteq> free_set s)
      | (Some a, s') \<Rightarrow> \<exists>f. a = of_nat (4096 * f) \<and> {f..<f + n} \<subseteq> free_set s
          \<and> (\<forall>b < f. \<not> {b..<b + n} \<subseteq> free_set s) \<and> free_set s' = free_set s - {f..<f + n} \<and> pmm_ok s'"
    by (rule alloc_contiguous_cases [OF assms n]) auto
next
  show "if addr mod 4096 = 0 \<and> unat (addr div 4096) < MAX_FRAMES \<and> unat (addr div 4096) \<notin> free_set s
       then \<exists>s'. free_frame addr s = (Ok (), s') \<and> pmm_ok s' \<and> free_set s' = insert (unat (addr div 4096)) (free_set s)
       else free_frame addr s = (Panic, s)" by (rule free_frame_cases [OF assms])
  show "free_frame_count s = of_nat (card (free_set s))" using assms by (simp add: free_frame_count_def pmm_ok_def)
qed


definition demo_pmm :: pmm where
  "demo_pmm = init_from_limine [(0x100000, 0x100000, 0)] 0x100000 0x110000"

lemma demo_pmm_ok: "pmm_ok demo_pmm"
  unfolding demo_pmm_def by (rule init_ok) (simp_all add: map_entry_ok_def)

lemma demo_pmm_free: "free_set demo_pmm = {272..<512}"
proof -
  have "free_set demo_pmm = {f. f < MAX_FRAMES \<and> usable [(0x100000, 0x100000, 0)] f \<and> \<not> overlaps 0x100000 0x110000 f \<and> f \<noteq> 0}"
    unfolding demo_pmm_def by (rule init_ok) (simp_all add: map_entry_ok_def)
  also have "\<dots> = {272..<512}"
    by (auto simp: usable_def inside_def overlaps_def LIMINE_MMAP_USABLE_def sizes(2))
  finally show ?thesis .
qed

theorem frame_set_refinement_witness:
  "fst (alloc_frame demo_pmm) = Some 0x110000 \<and> free_frame_count demo_pmm = 240 \<and> free_frame 0x110000 demo_pmm = (Panic, demo_pmm)"
proof -
  have "Min {272..<512 :: nat} = 272" by (rule Min_eqI) simp_all
  then show ?thesis using frame_set_refinement [OF demo_pmm_ok, where n = 1 and addr = "0x110000"]
    by (auto simp: demo_pmm_free split: option.splits prod.splits)
qed


end
