(* ===== verification/Kheap.thy ===== *)
theory Kheap
  imports Free_List Pmm
begin

text \<open>
  The kernel heap (\<^verbatim>\<open>kernel/src/heap.rs\<close>): a first-fit allocator over an address-ordered free list with
  coalescing.  The size field of a block does not count its 16-byte header.  Addresses and sizes are natural
  numbers, because the heap is a fixed 2 MiB region; the rounding of a requested size is done on machine words.  The
  diagnostics that only print (the trace and the report of a failed allocation) have no counterpart.
\<close>

section \<open>The allocator\<close>

definition HEADER :: nat where "HEADER = 16"
definition ALIGN :: nat where "ALIGN = 16"
definition HEAP_INIT_PAGES :: nat where "HEAP_INIT_PAGES = 512"

definition align_up :: "u64 \<Rightarrow> u64 \<Rightarrow> u64" where
  "align_up val align = (val + align - 1) AND NOT (align - 1)"

definition round_size :: "u64 \<Rightarrow> nat" where
  "round_size n = unat (align_up (max n 1) (of_nat ALIGN))"

text \<open>The first-fit walk; \<open>prev\<close> is the link that holds the address of \<open>cur\<close>.\<close>

partial_function (option) alloc_walk :: "nat \<Rightarrow> slot_link \<Rightarrow> nat \<Rightarrow> list_mem \<Rightarrow> (nat \<times> list_mem) option" where
  "alloc_walk sz prev cur h =
     (if cur = 0 then Some (0, h)
      else if sz \<le> fb_size (blocks h cur)
      then (let leftover = fb_size (blocks h cur) - sz in
            if HEADER + ALIGN \<le> leftover
            then (let new_blk = cur + HEADER + sz;
                      h1 = h\<lparr>blocks := (blocks h)(new_blk := \<lparr>fb_size = leftover - HEADER, fb_next = fb_next (blocks h cur)\<rparr>)\<rparr>
                  in Some (cur + HEADER, set_link prev new_blk h1))
            else Some (cur + HEADER, set_link prev (fb_next (blocks h cur)) h))
      else alloc_walk sz (NextOf cur) (fb_next (blocks h cur)) h)"

text \<open>\<^verbatim>\<open>alloc\<close>: an alignment above 16 fails an assertion; a null result is out of memory.\<close>

definition heap_alloc :: "u64 \<Rightarrow> u64 \<Rightarrow> list_mem \<Rightarrow> ((unit, nat) res \<times> list_mem) option" where
  "heap_alloc sz align h =
     (if \<not> align \<le> of_nat ALIGN then Some (Panic, h)
      else map_option (\<lambda>(p, h'). (Ok p, h')) (alloc_walk (round_size sz) Head (head h) h))"

definition heap_dealloc :: "nat \<Rightarrow> u64 \<Rightarrow> list_mem \<Rightarrow> list_mem option" where
  "heap_dealloc ptr sz h =
     (let blk = ptr - HEADER;
          h0 = h\<lparr>blocks := (blocks h)(blk := (blocks h blk)\<lparr>fb_size := round_size sz\<rparr>)\<rparr>
      in insert_block HEADER blk h0)"

partial_function (option) stats_walk :: "(nat \<Rightarrow> free_block) \<Rightarrow> nat \<Rightarrow> nat \<times> nat \<times> nat \<Rightarrow> (nat \<times> nat \<times> nat) option" where
  "stats_walk m scan acc =
     (if scan = 0 then Some acc
      else (case acc of (cnt, tot, big) \<Rightarrow>
        stats_walk m (fb_next (m scan))
          (cnt + 1, tot + (fb_size (m scan) + HEADER), max big (fb_size (m scan)))))"

definition free_list_stats :: "list_mem \<Rightarrow> (nat \<times> nat \<times> nat) option" where
  "free_list_stats h = stats_walk (blocks h) (head h) (0, 0, 0)"

definition free_bytes :: "list_mem \<Rightarrow> nat option" where
  "free_bytes h = map_option (fst \<circ> snd) (free_list_stats h)"

text \<open>The end of \<^verbatim>\<open>init\<close>: the whole mapped region becomes one free block.\<close>

definition first_block :: "nat \<Rightarrow> list_mem \<Rightarrow> list_mem" where
  "first_block base h = \<lparr>head = base,
     blocks = (blocks h)(base := \<lparr>fb_size = HEAP_INIT_PAGES * unat FRAME_SIZE - HEADER, fb_next = 0\<rparr>)\<rparr>"

section \<open>Allocation refines first fit\<close>

lemma round_size_facts:
  assumes "layout_ok n"
  shows "unat n \<le> round_size n" "16 dvd round_size n" "16 \<le> round_size n" "round_size n < unat n + 17"
proof -
  have m: "unat (max n 1) = max (unat n) 1" by (simp add: max_def word_le_nat_alt)
  have "unat (max n 1) + 15 < 2 ^ 64" using assms unfolding m layout_ok_def by (simp add: max_def)
  then have r: "round_size n = 16 * ((max (unat n) 1 + 15) div 16)"
    using round_16 [of "max n 1"] m by (simp add: round_size_def ALIGN_def align_up_def)
  let ?k = "max (unat n) 1"
  have "16 * ((?k + 15) div 16) + (?k + 15) mod 16 = ?k + 15" "(?k + 15) mod 16 < 16"
    by (simp_all only: mult_div_mod_eq)
  moreover have "unat n \<le> ?k" "1 \<le> ?k" "?k \<le> unat n + 1" by simp_all
  ultimately have "unat n \<le> round_size n" "0 < round_size n" "round_size n < unat n + 17" unfolding r by linarith+
  moreover show "16 dvd round_size n" unfolding r by simp
  ultimately show "unat n \<le> round_size n" "16 \<le> round_size n" "round_size n < unat n + 17"
    by (simp_all add: dvd_imp_le)
qed

lemma alloc_walk_refines:
  assumes "path HEADER (blocks h) (head h) (ps @ xs) 0" "segs_ok (ps @ xs)" "16 dvd sz" "16 \<le> sz"
    and "cur = (if xs = [] then 0 else fst (hd xs))"
  shows "case first_fit (HEADER + sz) xs of
      None \<Rightarrow> alloc_walk sz (last_link ps) cur h = Some (0, h)
    | Some (s, ys) \<Rightarrow> \<exists>h'. alloc_walk sz (last_link ps) cur h = Some (fst s + HEADER, h')
        \<and> path HEADER (blocks h') (head h') (ps @ ys) 0"
  using assms(1,2,5)
proof (induction xs arbitrary: ps cur)
  case Nil
  then show ?case by (subst alloc_walk.simps) simp
next
  case (Cons x xs)
  obtain n where x: "x = (cur, n)" using Cons.prems(3) by (cases x) simp
  have c0: "cur \<noteq> 0" using Cons.prems(2) by (simp add: x segs_ok_simps seg_ok_def)
  have n: "n = HEADER + fb_size (blocks h cur)" and nx: "path HEADER (blocks h) (fb_next (blocks h cur)) xs 0"
    using Cons.prems(1) by (auto simp: x)
  have gap: "\<forall>y\<in>set xs. cur + n < fst y" "\<forall>p\<in>set ps. fst p + snd p < cur" "\<forall>p\<in>set ps. \<forall>y\<in>set xs. fst p < fst y"
    using Cons.prems(2) by (auto simp: x segs_ok_simps) fastforce
  show ?case
  proof (cases "HEADER + sz \<le> n")
    case fits: True
    show ?thesis
    proof (cases "HEADER + ALIGN \<le> fb_size (blocks h cur) - sz")
      case True
      let ?nb = "cur + HEADER + sz"
      let ?h1 = "h\<lparr>blocks := (blocks h)(?nb := \<lparr>fb_size = fb_size (blocks h cur) - sz - HEADER, fb_next = fb_next (blocks h cur)\<rparr>)\<rparr>"
      let ?h2 = "set_link (last_link ps) ?nb ?h1"
      have nb: "?nb \<notin> fst ` set xs" "?nb \<notin> fst ` set ps" using gap fits by (force simp: HEADER_def)+
      have w: "alloc_walk sz (last_link ps) cur h = Some (cur + HEADER, ?h2)"
        using c0 fits n True by (subst alloc_walk.simps) (simp add: Let_def)
      have f: "first_fit (HEADER + sz) (x # xs) = Some ((cur, HEADER + sz), (cur + (HEADER + sz), n - (HEADER + sz)) # xs)"
        using fits n True by (simp add: x MIN_SPLIT_def HEADER_def ALIGN_def)
      have "path HEADER (blocks ?h1) ?nb ((?nb, n - (HEADER + sz)) # xs) 0"
        using nx nb(1) n True fits by (simp add: path_upd HEADER_def ALIGN_def)
      from set_link_split [OF Cons.prems(1,2) [unfolded x] this, of ?h2] nb gap
      have "path HEADER (blocks ?h2) (head ?h2) (ps @ (?nb, n - (HEADER + sz)) # xs) 0" by force
      then show ?thesis using f w by (simp add: add.assoc)
    next
      case False
      let ?h2 = "set_link (last_link ps) (fb_next (blocks h cur)) h"
      have w: "alloc_walk sz (last_link ps) cur h = Some (cur + HEADER, ?h2)"
        using c0 fits n False by (subst alloc_walk.simps) (simp add: Let_def)
      have f: "first_fit (HEADER + sz) (x # xs) = Some ((cur, n), xs)"
        using fits n False by (simp add: x MIN_SPLIT_def HEADER_def ALIGN_def)
      have "path HEADER (blocks ?h2) (head ?h2) (ps @ xs) 0"
        using set_link_split [OF Cons.prems(1,2) [unfolded x] nx, of ?h2] gap(3) by force
      then show ?thesis using f w by simp
    qed
  next
    case False
    have l: "last_link (ps @ [x]) = NextOf cur" by (simp add: last_link_def x)
    have w: "alloc_walk sz (last_link ps) cur h = alloc_walk sz (last_link (ps @ [x])) (fb_next (blocks h cur)) h"
      using c0 False n l by (subst alloc_walk.simps) simp
    have "case first_fit (HEADER + sz) xs of
        None \<Rightarrow> alloc_walk sz (last_link (ps @ [x])) (fb_next (blocks h cur)) h = Some (0, h)
      | Some (s, ys) \<Rightarrow> \<exists>h'. alloc_walk sz (last_link (ps @ [x])) (fb_next (blocks h cur)) h = Some (fst s + HEADER, h')
        \<and> path HEADER (blocks h') (head h') ((ps @ [x]) @ ys) 0"
      by (rule Cons.IH) (use Cons.prems(1,2) path_dropWhile [OF nx] in simp_all)
    then show ?thesis using w False by (cases "first_fit (HEADER + sz) xs") (auto simp: x)
  qed
qed

lemma heap_alloc_refines:
  assumes "holds HEADER h xs" "layout_ok sz" "heap_alloc sz al h = Some (r, h')"
  shows "(\<not> al \<le> 16 \<and> r = Panic \<and> h' = h)
    \<or> (al \<le> 16 \<and> first_fit (HEADER + round_size sz) xs = None \<and> r = Ok 0 \<and> h' = h)
    \<or> (al \<le> 16 \<and> (\<exists>s ys. first_fit (HEADER + round_size sz) xs = Some (s, ys) \<and> r = Ok (fst s + HEADER) \<and> holds HEADER h' ys))"
proof (cases "al \<le> 16")
  case True
  have p: "path HEADER (blocks h) (head h) ([] @ xs) 0" "segs_ok ([] @ xs)" using assms(1) by (simp_all add: holds_def)
  note rs = round_size_facts [OF assms(2)]
  note w = alloc_walk_refines [OF p rs(2,3) path_dropWhile [OF p(1) [simplified]]]
  have e: "map_option (\<lambda>(p, h'). (Ok p, h')) (alloc_walk (round_size sz) Head (head h) h) = Some (r, h')"
    using assms(3) True by (simp add: heap_alloc_def ALIGN_def)
  show ?thesis
  proof (cases "first_fit (HEADER + round_size sz) xs")
    case None
    then show ?thesis using w e True by (simp add: last_link_def)
  next
    case (Some sy)
    obtain s ys where sy: "sy = (s, ys)" by fastforce
    have "fit_ok (HEADER + round_size sz) xs s ys"
      using first_fit_spec [of xs] p(2) Some rs by (simp add: sy HEADER_def MIN_SPLIT_def)
    then show ?thesis using w e True Some by (auto simp: last_link_def sy holds_def fit_ok_def)
  qed
next
  case False
  then show ?thesis using assms(3) by (simp add: heap_alloc_def ALIGN_def)
qed

lemma heap_alloc_returns:
  assumes "holds HEADER h xs" "layout_ok sz"
  shows "\<exists>r h'. heap_alloc sz al h = Some (r, h')"
proof -
  have p: "path HEADER (blocks h) (head h) ([] @ xs) 0" "segs_ok ([] @ xs)" using assms(1) by (simp_all add: holds_def)
  note rs = round_size_facts [OF assms(2)]
  from alloc_walk_refines [OF p rs(2,3) path_dropWhile [OF p(1) [simplified]]]
  have "alloc_walk (round_size sz) Head (head h) h \<noteq> None"
    by (cases "first_fit (HEADER + round_size sz) xs") (auto simp: last_link_def)
  then show ?thesis by (auto simp: heap_alloc_def)
qed

definition heap_blk :: "nat \<times> u64 \<Rightarrow> seg" where
  "heap_blk x = (fst x - HEADER, HEADER + round_size (snd x))"

lemma heap_dealloc_refines:
  assumes "holds HEADER h xs" "seg_ok (heap_blk (p, sz))" "seg_set (heap_blk (p, sz)) \<inter> region xs = {}"
  shows "\<exists>h'. heap_dealloc p sz h = Some h' \<and> holds HEADER h' (insert_seg (heap_blk (p, sz)) xs)"
proof -
  let ?b = "p - HEADER"
  let ?h0 = "h\<lparr>blocks := (blocks h)(?b := (blocks h ?b)\<lparr>fb_size := round_size sz\<rparr>)\<rparr>"
  have "?b \<notin> fst ` set xs" using fst_notin [OF _ assms(3,2)] assms(1) by (simp add: holds_def heap_blk_def)
  then have h0: "holds HEADER ?h0 xs" using assms(1) by (simp add: holds_def path_upd)
  have "\<exists>h'. insert_block HEADER ?b ?h0 = Some h' \<and> holds HEADER h' (insert_seg (?b, HEADER + round_size sz) xs)
      \<and> (\<forall>a. a \<noteq> ?b \<and> a \<notin> fst ` set xs \<longrightarrow> blocks h' a = blocks ?h0 a)"
    by (rule insert_block_refines [OF h0]) (use assms(2,3) in \<open>simp_all add: heap_blk_def\<close>)
  then have "\<exists>h'. insert_block HEADER ?b ?h0 = Some h' \<and> holds HEADER h' (insert_seg (?b, HEADER + round_size sz) xs)" by blast
  then show ?thesis by (simp only: heap_dealloc_def heap_blk_def Let_def fst_conv snd_conv)
qed

section \<open>Memory safety\<close>

definition HEAP_BYTES :: nat where "HEAP_BYTES = HEAP_INIT_PAGES * unat FRAME_SIZE"

definition payload :: "nat \<times> u64 \<Rightarrow> nat set" where
  "payload x = {fst x..<fst x + unat (snd x)}"

text \<open>The kernel's use of its heap: allocate, free an allocated block, or write inside one.  A write may
  change any header that shares a byte with the payload.\<close>

inductive heap_step :: "list_mem \<times> (nat \<times> u64) list \<Rightarrow> list_mem \<times> (nat \<times> u64) list \<Rightarrow> bool" where
  hs_alloc: "layout_ok sz \<Longrightarrow> heap_alloc sz al h = Some (Ok p, h') \<Longrightarrow> p \<noteq> 0
     \<Longrightarrow> heap_step (h, live) (h', (p, sz) # live)"
| hs_oom: "layout_ok sz \<Longrightarrow> heap_alloc sz al h = Some (Ok 0, h') \<Longrightarrow> heap_step (h, live) (h', live)"
| hs_free: "heap_dealloc p sz h = Some h' \<Longrightarrow> heap_step (h, as @ (p, sz) # bs) (h', as @ bs)"
| hs_write: "x \<in> set live \<Longrightarrow> (\<And>a. {a..<a + HEADER} \<inter> payload x = {} \<Longrightarrow> m a = blocks h a)
     \<Longrightarrow> heap_step (h, live) (h\<lparr>blocks := m\<rparr>, live)"

definition live_ok :: "nat \<Rightarrow> nat set \<Rightarrow> (nat \<times> u64) list \<Rightarrow> bool" where
  "live_ok base fr live \<longleftrightarrow>
     (\<forall>x\<in>set live. layout_ok (snd x) \<and> HEADER \<le> fst x \<and> seg_ok (heap_blk x)
        \<and> seg_set (heap_blk x) \<subseteq> {base..<base + HEAP_BYTES} \<and> seg_set (heap_blk x) \<inter> fr = {})
     \<and> sorted_wrt (\<lambda>x y. seg_set (heap_blk x) \<inter> seg_set (heap_blk y) = {}) live"

definition heap_inv :: "nat \<Rightarrow> list_mem \<times> (nat \<times> u64) list \<Rightarrow> bool" where
  "heap_inv base x \<longleftrightarrow> (\<exists>xs. holds HEADER (fst x) xs \<and> region xs \<subseteq> {base..<base + HEAP_BYTES} \<and> live_ok base (region xs) (snd x))"

lemma payload_sub: "layout_ok (snd x) \<Longrightarrow> HEADER \<le> fst x \<Longrightarrow> payload x \<subseteq> seg_set (heap_blk x)"
  using round_size_facts(1) [of "snd x"] by (auto simp: payload_def heap_blk_def seg_set_def)

lemma heap_inv_alloc:
  assumes "heap_inv base (h, live)" "layout_ok sz" "heap_alloc sz al h = Some (Ok p, h')"
  shows "if p = 0 then h' = h else heap_inv base (h', (p, sz) # live)"
proof -
  obtain xs where xs: "holds HEADER h xs" "region xs \<subseteq> {base..<base + HEAP_BYTES}" "live_ok base (region xs) live"
    using assms(1) by (auto simp: heap_inv_def)
  note rs = round_size_facts [OF assms(2)]
  consider "h' = h" "p = 0" | s ys where "first_fit (HEADER + round_size sz) xs = Some (s, ys)" "p = fst s + HEADER" "holds HEADER h' ys"
    using heap_alloc_refines [OF xs(1) assms(2,3)] by auto
  then show ?thesis
  proof cases
    case (2 s ys)
    have f: "fit_ok (HEADER + round_size sz) xs s ys"
      using first_fit_spec [OF _ 2(1)] xs(1) rs by (simp add: holds_def HEADER_def MIN_SPLIT_def)
    have b: "heap_blk (p, sz) = (fst s, HEADER + round_size sz)" by (simp add: heap_blk_def 2(2))
    have sub: "seg_set (heap_blk (p, sz)) \<subseteq> seg_set s" using f by (auto simp: b seg_set_def fit_ok_def)
    have ok: "seg_ok (heap_blk (p, sz))"
      using f rs by (simp add: b seg_ok_def fit_ok_def HEADER_def MIN_SPLIT_def)
    have rg: "seg_set s \<subseteq> region xs" "region ys = region xs - seg_set s" using f by (simp_all add: fit_ok_def)
    have new: "seg_set (heap_blk (p, sz)) \<subseteq> region xs" "seg_set (heap_blk (p, sz)) \<inter> region ys = {}" using sub rg by auto
    have old: "seg_set (heap_blk (p, sz)) \<inter> seg_set (heap_blk x) = {}" "seg_set (heap_blk x) \<inter> region ys = {}"
      if "x \<in> set live" for x using that xs(3) new(1) rg(2) unfolding live_ok_def by blast+
    have "live_ok base (region ys) ((p, sz) # live)" unfolding live_ok_def
    proof (intro conjI ballI)
      fix x assume "x \<in> set ((p, sz) # live)"
      then consider "x = (p, sz)" | "x \<in> set live" by auto
      then show "layout_ok (snd x)" "HEADER \<le> fst x" "seg_ok (heap_blk x)"
        "seg_set (heap_blk x) \<subseteq> {base..<base + HEAP_BYTES}" "seg_set (heap_blk x) \<inter> region ys = {}"
        by (cases; use xs(2,3) ok new assms(2) old(2) 2(2) in \<open>auto simp: live_ok_def\<close>)+
    qed (use xs(3) old(1) in \<open>simp add: live_ok_def\<close>)
    moreover have "p \<noteq> 0" using 2(2) by (simp add: HEADER_def)
    moreover have "region ys \<subseteq> {base..<base + HEAP_BYTES}" using rg xs(2) by blast
    ultimately show ?thesis using 2(3) unfolding heap_inv_def by auto
  qed simp
qed

lemma live_okD:
  assumes "live_ok base fr (as @ x # bs)"
  shows "seg_ok (heap_blk x)" "seg_set (heap_blk x) \<inter> fr = {}" "seg_set (heap_blk x) \<subseteq> {base..<base + HEAP_BYTES}"
    "live_ok base (seg_set (heap_blk x) \<union> fr) (as @ bs)"
proof -
  show "seg_ok (heap_blk x)" "seg_set (heap_blk x) \<inter> fr = {}" "seg_set (heap_blk x) \<subseteq> {base..<base + HEAP_BYTES}"
    using assms by (simp_all add: live_ok_def)
  have "seg_set (heap_blk y) \<inter> seg_set (heap_blk x) = {}" if "y \<in> set (as @ bs)" for y
    using that assms by (auto simp: live_ok_def sorted_wrt_append)
  then show "live_ok base (seg_set (heap_blk x) \<union> fr) (as @ bs)"
    using assms unfolding live_ok_def by (auto simp: sorted_wrt_append)
qed

lemma heap_inv_free:
  assumes "heap_inv base (h, as @ x # bs)" "heap_dealloc (fst x) (snd x) h = Some h'"
  shows "heap_inv base (h', as @ bs)"
proof -
  obtain xs where xs: "holds HEADER h xs" "region xs \<subseteq> {base..<base + HEAP_BYTES}" "live_ok base (region xs) (as @ x # bs)"
    using assms(1) by (auto simp: heap_inv_def)
  note l = live_okD [OF xs(3)]
  have "holds HEADER h' (insert_seg (heap_blk x) xs)"
    using heap_dealloc_refines [OF xs(1), of "fst x" "snd x"] l(1,2) assms(2) by simp
  moreover have "region (insert_seg (heap_blk x) xs) = seg_set (heap_blk x) \<union> region xs"
    by (rule insert_seg_spec(2) [OF _ l(1,2)]) (use xs(1) in \<open>simp add: holds_def\<close>)
  ultimately show ?thesis using l(3,4) xs(2) unfolding heap_inv_def
    by (intro exI [of _ "insert_seg (heap_blk x) xs"]) simp
qed

lemma heap_inv_write:
  assumes "heap_inv base (h, live)" "x \<in> set live" "\<And>a. {a..<a + HEADER} \<inter> payload x = {} \<Longrightarrow> m a = blocks h a"
  shows "heap_inv base (h\<lparr>blocks := m\<rparr>, live)"
proof -
  obtain xs where xs: "holds HEADER h xs" "region xs \<subseteq> {base..<base + HEAP_BYTES}" "live_ok base (region xs) live"
    using assms(1) by (auto simp: heap_inv_def)
  have pl: "payload x \<inter> region xs = {}" using xs(3) assms(2) payload_sub [of x] unfolding live_ok_def by blast
  have "m (fst y) = blocks h (fst y)" if y: "y \<in> set xs" for y
  proof (rule assms(3))
    have "seg_ok y" using xs(1) y by (simp add: holds_def segs_ok_def list_all_iff)
    then have "{fst y..<fst y + HEADER} \<subseteq> seg_set y" by (auto simp: seg_ok_def seg_set_def HEADER_def MIN_SPLIT_def)
    then show "{fst y..<fst y + HEADER} \<inter> payload x = {}" using pl y by (auto simp: region_def)
  qed
  then have "path HEADER m (head h) xs 0" using path_cong [of xs m "blocks h"] xs(1) by (simp add: holds_def)
  then have "holds HEADER (h\<lparr>blocks := m\<rparr>) xs" using xs(1) by (simp add: holds_def)
  then show ?thesis using xs(2,3) by (auto simp: heap_inv_def)
qed

lemma heap_step_inv: "heap_step x y \<Longrightarrow> heap_inv base x \<Longrightarrow> heap_inv base y"
proof (induction rule: heap_step.induct)
  case (hs_alloc sz al h p h' live)
  then show ?case using heap_inv_alloc [OF hs_alloc.prems hs_alloc.hyps(1,2)] by simp
next
  case (hs_oom sz al h h' live)
  then show ?case using heap_inv_alloc [OF hs_oom.prems hs_oom.hyps(1,2)] by simp
next
  case (hs_free p sz h h' as bs)
  then show ?case using heap_inv_free [of base h as "(p, sz)" bs h'] by simp
next
  case (hs_write x live m h)
  then show ?case using heap_inv_write by blast
qed

lemma first_block_holds:
  assumes "16 dvd base" "0 < base"
  shows "holds HEADER (first_block base h) [(base, HEAP_BYTES)]"
  using assms
  by (simp add: holds_def first_block_def segs_ok_simps seg_ok_def HEAP_BYTES_def HEAP_INIT_PAGES_def FRAME_SIZE_def
      HEADER_def MIN_SPLIT_def)

lemma heap_inv_first:
  assumes "16 dvd base" "0 < base"
  shows "heap_inv base (first_block base h, [])"
  unfolding heap_inv_def using first_block_holds [OF assms]
  by (intro exI [of _ "[(base, HEAP_BYTES)]"]) (simp add: live_ok_def seg_set_def)

lemma heap_steps_inv: "heap_step\<^sup>*\<^sup>* x y \<Longrightarrow> heap_inv base x \<Longrightarrow> heap_inv base y"
  by (induction rule: rtranclp_induct) (auto intro: heap_step_inv)

text \<open>
  C9. Memory safety of the kernel heap.  After any sequence of allocations, frees of allocated blocks and writes
  inside allocated blocks, the live blocks lie inside the heap region, are 16-byte aligned and pairwise disjoint,
  every further allocation and every free of a live block returns (the walks over the free list end), and a new block
  is disjoint from all live ones.
\<close>
theorem kernel_heap_safe:
  assumes "heap_step\<^sup>*\<^sup>* (first_block base h0, []) (h, live)" "16 dvd base" "0 < base"
  shows "(\<forall>x\<in>set live. payload x \<subseteq> {base..<base + HEAP_BYTES} \<and> 16 dvd fst x)
    \<and> sorted_wrt (\<lambda>x y. payload x \<inter> payload y = {}) live
    \<and> (\<forall>x\<in>set live. \<exists>h'. heap_dealloc (fst x) (snd x) h = Some h')
    \<and> (\<forall>sz al. layout_ok sz \<longrightarrow> (\<exists>r h'. heap_alloc sz al h = Some (r, h')
         \<and> (\<forall>p. r = Ok p \<longrightarrow> p \<noteq> 0 \<longrightarrow> (\<forall>x\<in>set live. payload (p, sz) \<inter> payload x = {}))))"
proof -
  have inv: "heap_inv base (h, live)" by (rule heap_steps_inv [OF assms(1) heap_inv_first [OF assms(2,3)]])
  then obtain xs where xs: "holds HEADER h xs" "live_ok base (region xs) live" by (auto simp: heap_inv_def)
  have sub: "payload x \<subseteq> seg_set (heap_blk x)" if "x \<in> set live" for x
    using that xs(2) by (intro payload_sub) (auto simp: live_ok_def)
  have al: "16 dvd fst x" if "x \<in> set live" for x
  proof -
    have "16 dvd fst x - 16" "16 \<le> fst x" using that xs(2) by (auto simp: live_ok_def seg_ok_def heap_blk_def HEADER_def)
    then show ?thesis by (intro dvd_diffD [of 16 "fst x" 16]) simp_all
  qed
  have sw: "sorted_wrt (\<lambda>x y. payload x \<inter> payload y = {}) live"
  proof (rule sorted_wrt_mono_rel)
    show "sorted_wrt (\<lambda>x y. seg_set (heap_blk x) \<inter> seg_set (heap_blk y) = {}) live" using xs(2) by (simp add: live_ok_def)
    show "payload x \<inter> payload y = {}" if "x \<in> set live" "y \<in> set live" "seg_set (heap_blk x) \<inter> seg_set (heap_blk y) = {}" for x y
      using sub that by blast
  qed
  have fr: "\<exists>h'. heap_dealloc (fst x) (snd x) h = Some h'" if x: "x \<in> set live" for x
    using heap_dealloc_refines [OF xs(1), of "fst x" "snd x"] xs(2) x by (auto simp: live_ok_def)
  have new: "payload (p, sz) \<inter> payload x = {}"
    if a: "layout_ok sz" "heap_alloc sz al h = Some (Ok p, h')" "p \<noteq> 0" "x \<in> set live" for sz al p h' x
  proof -
    have "heap_inv base (h', (p, sz) # live)" using heap_inv_alloc [OF inv a(1,2)] a(3) by simp
    then obtain ys where "live_ok base (region ys) ((p, sz) # live)" by (auto simp: heap_inv_def)
    then show ?thesis using a(4) sub [OF a(4)] payload_sub [of "(p, sz)"] unfolding live_ok_def by fastforce
  qed
  have rg: "payload x \<subseteq> {base..<base + HEAP_BYTES}" if "x \<in> set live" for x
    using that xs(2) sub [OF that] by (force simp: live_ok_def)
  have "\<exists>r h'. heap_alloc sz al h = Some (r, h')
      \<and> (\<forall>p. r = Ok p \<longrightarrow> p \<noteq> 0 \<longrightarrow> (\<forall>x\<in>set live. payload (p, sz) \<inter> payload x = {}))" if "layout_ok sz" for sz al
    using heap_alloc_returns [OF xs(1) that, of al] new [OF that] by blast
  then show ?thesis using rg al sw fr by simp
qed

section \<open>Accounting\<close>

lemma stats_walk_path:
  "path HEADER m p xs 0 \<Longrightarrow> list_all seg_ok xs \<Longrightarrow>
     \<exists>l'. stats_walk m p (c, t, l) = Some (c + length xs, t + (\<Sum>x\<leftarrow>xs. snd x), l')"
proof (induction xs arbitrary: p c t l)
  case Nil
  then show ?case by (subst stats_walk.simps) simp
next
  case (Cons x xs)
  have x: "p = fst x" "fst x \<noteq> 0" "snd x = HEADER + fb_size (m (fst x))" "path HEADER m (fb_next (m (fst x))) xs 0"
    using Cons.prems by (simp_all add: seg_ok_def)
  have "stats_walk m p (c, t, l) = stats_walk m (fb_next (m (fst x))) (c + 1, t + snd x, max l (fb_size (m (fst x))))"
    using x(1-3) by (subst stats_walk.simps) (simp add: add.commute)
  moreover have "list_all seg_ok xs" using Cons.prems(2) by simp
  ultimately show ?case using Cons.IH [OF x(4), of "c + 1" "t + snd x"] by (simp add: add.assoc)
qed

lemma free_bytes_sum: "holds HEADER h xs \<Longrightarrow> free_bytes h = Some (\<Sum>x\<leftarrow>xs. snd x)"
  using stats_walk_path [of "blocks h" "head h" xs 0 0 0]
  by (auto simp: holds_def segs_ok_def free_bytes_def free_list_stats_def)

lemma heap_alloc_run:
  assumes "holds HEADER h xs" "layout_ok sz" "first_fit (HEADER + round_size sz) xs = Some (s, ys)"
  shows "\<exists>h'. heap_alloc sz 16 h = Some (Ok (fst s + HEADER), h') \<and> holds HEADER h' ys"
  using heap_alloc_returns [OF assms(1,2), of 16] heap_alloc_refines [OF assms(1,2), of 16] assms(3) by fastforce

lemma heap_dealloc_run:
  assumes "holds HEADER h xs" "heap_blk (p, sz) = s" "seg_ok s" "seg_set s \<inter> region xs = {}" "insert_seg s xs = ys"
  shows "\<exists>h'. heap_dealloc p sz h = Some h' \<and> holds HEADER h' ys"
  using heap_dealloc_refines [OF assms(1), of p sz] assms by simp

lemma round_size_small: "round_size 16 = 16" "round_size 32 = 32"
  by (simp_all add: round_size_def align_up_def ALIGN_def)

text \<open>
  C26. The heap loses memory.  When the only fitting block is 16 bytes larger than needed, \<^verbatim>\<open>alloc\<close> hands out
  the whole block, but \<^verbatim>\<open>dealloc\<close> recomputes the size from the layout and returns 16 bytes less.  After two
  blocks were allocated, the first freed, a smaller one allocated in its place and everything freed again, the free
  list is 16 bytes short for good and its two neighbours can no longer be merged.
\<close>
theorem kernel_heap_leaks:
  assumes "16 dvd base" "0 < base"
  shows "\<exists>h1 h2 h3 h4 h5 h6 p q r.
      heap_alloc 32 16 (first_block base h0) = Some (Ok p, h1) \<and> heap_alloc 16 16 h1 = Some (Ok q, h2)
    \<and> heap_dealloc p 32 h2 = Some h3 \<and> heap_alloc 16 16 h3 = Some (Ok r, h4)
    \<and> heap_dealloc r 16 h4 = Some h5 \<and> heap_dealloc q 16 h5 = Some h6
    \<and> free_bytes (first_block base h0) = Some HEAP_BYTES \<and> free_bytes h6 = Some (HEAP_BYTES - 16)"
proof -
  let ?N = "2097152 :: nat"
  have N: "HEAP_BYTES = ?N" by (simp add: HEAP_BYTES_def HEAP_INIT_PAGES_def FRAME_SIZE_def)
  note ev = round_size_small HEADER_def MIN_SPLIT_def
  have lay: "layout_ok 16" "layout_ok 32" by (simp_all add: layout_ok_def)
  have h0: "holds HEADER (first_block base h0) [(base, ?N)]" using first_block_holds [OF assms, of h0] by (simp add: N)
  obtain h1 where h1: "heap_alloc 32 16 (first_block base h0) = Some (Ok (base + 16), h1)" "holds HEADER h1 [(base + 48, ?N - 48)]"
    using heap_alloc_run [OF h0 lay(2), of "(base, 48)" "[(base + 48, ?N - 48)]"] by (auto simp: ev)
  obtain h2 where h2: "heap_alloc 16 16 h1 = Some (Ok (base + 64), h2)" "holds HEADER h2 [(base + 80, ?N - 80)]"
    using heap_alloc_run [OF h1(2) lay(1), of "(base + 48, 32)" "[(base + 80, ?N - 80)]"] by (auto simp: ev)
  have ok: "seg_ok (base, 48)" "seg_ok (base, 32)" "seg_ok (base + 48, 32)"
    using assms by (simp_all add: seg_ok_def MIN_SPLIT_def)
  obtain h3 where h3: "heap_dealloc (base + 16) 32 h2 = Some h3" "holds HEADER h3 [(base, 48), (base + 80, ?N - 80)]"
    using heap_dealloc_run [OF h2(2) _ ok(1), of "base + 16" 32 "[(base, 48), (base + 80, ?N - 80)]"]
    by (auto simp: ev heap_blk_def seg_set_def insert_seg_def join_next_def join_prev_def)
  obtain h4 where h4: "heap_alloc 16 16 h3 = Some (Ok (base + 16), h4)" "holds HEADER h4 [(base + 80, ?N - 80)]"
    using heap_alloc_run [OF h3(2) lay(1), of "(base, 48)" "[(base + 80, ?N - 80)]"] by (auto simp: ev)
  obtain h5 where h5: "heap_dealloc (base + 16) 16 h4 = Some h5" "holds HEADER h5 [(base, 32), (base + 80, ?N - 80)]"
    using heap_dealloc_run [OF h4(2) _ ok(2), of "base + 16" 16 "[(base, 32), (base + 80, ?N - 80)]"]
    by (auto simp: ev heap_blk_def seg_set_def insert_seg_def join_next_def join_prev_def)
  have dj: "seg_set (base + 48, 32) \<inter> region [(base, 32), (base + 80, ?N - 80)] = {}" by (auto simp: seg_set_def)
  obtain h6 where h6: "heap_dealloc (base + 64) 16 h5 = Some h6" "holds HEADER h6 [(base, 32), (base + 48, ?N - 48)]"
    using heap_dealloc_run [OF h5(2) _ ok(3) dj, of "base + 64" 16 "[(base, 32), (base + 48, ?N - 48)]"]
    by (auto simp: ev heap_blk_def insert_seg_def join_next_def join_prev_def)
  have "free_bytes (first_block base h0) = Some HEAP_BYTES" "free_bytes h6 = Some (HEAP_BYTES - 16)"
    using free_bytes_sum [OF h0] free_bytes_sum [OF h6(2)] by (simp_all add: N)
  then show ?thesis using h1(1) h2(1) h3(1) h4(1) h5(1) h6(1) by blast
qed

section \<open>A concrete run\<close>

definition demo_heap :: list_mem where
  "demo_heap = first_block 4096 \<lparr>head = 0, blocks = (\<lambda>_. \<lparr>fb_size = 0, fb_next = 0\<rparr>)\<rparr>"

theorem kernel_heap_safe_witness:
  "\<exists>h1 p h2 q. heap_alloc 32 16 demo_heap = Some (Ok p, h1) \<and> heap_alloc 16 16 h1 = Some (Ok q, h2)
     \<and> payload (q, 16) \<inter> payload (p, 32) = {} \<and> 16 dvd p \<and> 16 dvd q"
proof -
  let ?b = "4096 :: nat"
  obtain h1 h2 p q where a: "heap_alloc 32 16 demo_heap = Some (Ok p, h1)" "heap_alloc 16 16 h1 = Some (Ok q, h2)"
    "p \<noteq> 0" "q \<noteq> 0"
  proof -
    note h0 = first_block_holds [of ?b "\<lparr>head = 0, blocks = (\<lambda>_. \<lparr>fb_size = 0, fb_next = 0\<rparr>)\<rparr>", folded demo_heap_def]
    have N: "HEAP_BYTES = 2097152" by (simp add: HEAP_BYTES_def HEAP_INIT_PAGES_def FRAME_SIZE_def)
    have "\<exists>h1. heap_alloc 32 16 demo_heap = Some (Ok 4112, h1) \<and> holds HEADER h1 [(4144, 2097104)]"
      using heap_alloc_run [of demo_heap _ 32 "(4096, 48)" "[(4144, 2097104)]", OF h0]
      by (simp add: round_size_small HEADER_def MIN_SPLIT_def layout_ok_def N)
    then obtain h1 where h1: "heap_alloc 32 16 demo_heap = Some (Ok 4112, h1)" "holds HEADER h1 [(4144, 2097104)]" by blast
    have "\<exists>h2. heap_alloc 16 16 h1 = Some (Ok 4160, h2)"
      using heap_alloc_run [OF h1(2), of 16 "(4144, 32)" "[(4176, 2097072)]"]
      by (auto simp: round_size_small HEADER_def MIN_SPLIT_def layout_ok_def)
    then show ?thesis using h1(1) that by fastforce
  qed
  have l: "layout_ok 16" "layout_ok 32" by (simp_all add: layout_ok_def)
  have s: "heap_step (demo_heap, []) (h1, [(p, 32)])" by (rule hs_alloc [OF l(2) a(1,3)])
  have s2: "heap_step\<^sup>*\<^sup>* (first_block ?b \<lparr>head = 0, blocks = (\<lambda>_. \<lparr>fb_size = 0, fb_next = 0\<rparr>)\<rparr>, []) (h2, [(q, 16), (p, 32)])"
    unfolding demo_heap_def [symmetric]
    by (rule converse_rtranclp_into_rtranclp [where r = heap_step, OF s])
      (rule r_into_rtranclp [where r = heap_step], rule hs_alloc [OF l(1) a(2,4)])
  from kernel_heap_safe [OF s2] show ?thesis using a(1,2) by auto
qed

theorem kernel_heap_leaks_witness:
  "\<exists>h1 h2 h3 h4 h5 h6 p q r.
      heap_alloc 32 16 demo_heap = Some (Ok p, h1) \<and> heap_alloc 16 16 h1 = Some (Ok q, h2)
    \<and> heap_dealloc p 32 h2 = Some h3 \<and> heap_alloc 16 16 h3 = Some (Ok r, h4)
    \<and> heap_dealloc r 16 h4 = Some h5 \<and> heap_dealloc q 16 h5 = Some h6
    \<and> free_bytes demo_heap = Some HEAP_BYTES \<and> free_bytes h6 = Some (HEAP_BYTES - 16)"
  unfolding demo_heap_def by (rule kernel_heap_leaks) simp_all

end
