(* ===== verification/Vmm.thy ===== *)
theory Vmm
  imports Pmm
begin

text \<open>
  The virtual memory manager (\<^verbatim>\<open>kernel/src/vmm.rs\<close>): four-level page tables whose frames come from the
  physical memory manager.  The tables live in a store indexed by physical address, so two address spaces that
  point to one table share it; \<^verbatim>\<open>table_ptr\<close> adds a constant offset to reach a frame and is the identity
  here.  \<^verbatim>\<open>invlpg\<close>, the shootdown interrupt and the load of \<^verbatim>\<open>CR3\<close> act on the processor only and
  are left out.  The abstract view of an address space is the function \<open>walk\<close> from index paths to tables.
\<close>

section \<open>Addresses, flags and entries\<close>

definition p4_idx :: "u64 \<Rightarrow> nat" where "p4_idx va = unat (drop_bit 39 va AND 0x1FF)"
definition p3_idx :: "u64 \<Rightarrow> nat" where "p3_idx va = unat (drop_bit 30 va AND 0x1FF)"
definition p2_idx :: "u64 \<Rightarrow> nat" where "p2_idx va = unat (drop_bit 21 va AND 0x1FF)"
definition p1_idx :: "u64 \<Rightarrow> nat" where "p1_idx va = unat (drop_bit 12 va AND 0x1FF)"

definition PF_PRESENT :: u64 where "PF_PRESENT = push_bit 0 1"
definition PF_WRITABLE :: u64 where "PF_WRITABLE = push_bit 1 1"
definition PF_USER :: u64 where "PF_USER = push_bit 2 1"
definition PF_NO_CACHE :: u64 where "PF_NO_CACHE = push_bit 4 1"
definition PF_MMIO_NOFREE :: u64 where "PF_MMIO_NOFREE = push_bit 9 1"
definition PF_NX :: u64 where "PF_NX = push_bit 63 1"
definition KERNEL_RW :: u64 where "KERNEL_RW = PF_PRESENT OR PF_WRITABLE OR PF_NX"
definition KERNEL_RO :: u64 where "KERNEL_RO = PF_PRESENT OR PF_NX"
definition KERNEL_RWX :: u64 where "KERNEL_RWX = PF_PRESENT OR PF_WRITABLE"
definition USER_RX :: u64 where "USER_RX = PF_PRESENT OR PF_USER"
definition USER_RW :: u64 where "USER_RW = PF_PRESENT OR PF_WRITABLE OR PF_USER OR PF_NX"

definition PHYS_ADDR_MASK :: u64 where "PHYS_ADDR_MASK = 0x000FFFFFFFFFF000"

definition is_present :: "u64 \<Rightarrow> bool" where "is_present e \<longleftrightarrow> e AND 1 \<noteq> 0"
definition is_huge :: "u64 \<Rightarrow> bool" where "is_huge e \<longleftrightarrow> e AND push_bit 7 1 \<noteq> 0"
definition pte_set :: "u64 \<Rightarrow> u64 \<Rightarrow> u64" where "pte_set phys flags = (phys AND PHYS_ADDR_MASK) OR flags"
definition pte_address :: "u64 \<Rightarrow> u64" where "pte_address e = e AND PHYS_ADDR_MASK"
definition pte_table :: "u64 \<Rightarrow> u64" where "pte_table phys = phys OR 3"

section \<open>Table walks\<close>

text \<open>The state: the frame allocator, the entry at each index of each table, and the kernel's root table.\<close>

type_synonym tables = "u64 \<Rightarrow> nat \<Rightarrow> u64"

record vmm =
  vm_pmm :: pmm
  vm_tables :: tables
  pml4_phys :: u64

definition IDENTITY_MAP_LIMIT :: u64 where "IDENTITY_MAP_LIMIT = push_bit 30 1"

definition put_entry :: "u64 \<Rightarrow> nat \<Rightarrow> u64 \<Rightarrow> tables \<Rightarrow> tables" where
  "put_entry t i e m = m(t := (m t)(i := e))"

definition set_entry :: "u64 \<Rightarrow> nat \<Rightarrow> u64 \<Rightarrow> (vmm, unit, unit) sm" where
  "set_entry t i e = modS (\<lambda>s. s\<lparr>vm_tables := put_entry t i e (vm_tables s)\<rparr>)"

definition alloc_table :: "(vmm, unit, u64) sm" where
  "alloc_table s = (case alloc_frame (vm_pmm s) of
      (None, p) \<Rightarrow> (Panic, s\<lparr>vm_pmm := p\<rparr>)
    | (Some f, p) \<Rightarrow> (Ok f, s\<lparr>vm_pmm := p, vm_tables := (vm_tables s)(f := (\<lambda>_. 0))\<rparr>))"

text \<open>\<^verbatim>\<open>descend!\<close> of \<^verbatim>\<open>walk_or_create\<close>: fill an empty entry, add the user bit, refuse a huge page.\<close>

definition descend :: "bool \<Rightarrow> u64 \<Rightarrow> nat \<Rightarrow> (vmm, unit, u64) sm" where
  "descend user parent i =
     bindS (getS (\<lambda>s. vm_tables s parent i)) (\<lambda>e.
     bindS (whenS (\<not> is_present e) (bindS alloc_table (\<lambda>f. set_entry parent i (pte_table f)))) (\<lambda>_.
     bindS (getS (\<lambda>s. vm_tables s parent i)) (\<lambda>e.
     bindS (whenS user (set_entry parent i (e OR push_bit 2 1))) (\<lambda>_.
     bindS (getS (\<lambda>s. vm_tables s parent i)) (\<lambda>e.
     if is_huge e then liftS Panic else retS (pte_address e))))))"

definition walk_or_create :: "u64 \<Rightarrow> u64 \<Rightarrow> bool \<Rightarrow> (vmm, unit, u64 \<times> nat) sm" where
  "walk_or_create pml4 virt user =
     bindS (descend user pml4 (p4_idx virt)) (\<lambda>p3.
     bindS (descend user p3 (p3_idx virt)) (\<lambda>p2.
     bindS (descend user p2 (p2_idx virt)) (\<lambda>p1. retS (p1, p1_idx virt))))"

text \<open>The walk without creation follows every present entry, huge or not.\<close>

definition follow :: "tables \<Rightarrow> u64 \<Rightarrow> nat \<Rightarrow> u64 option" where
  "follow m parent i = (if is_present (m parent i) then Some (pte_address (m parent i)) else None)"

definition walk_existing :: "tables \<Rightarrow> u64 \<Rightarrow> u64 \<Rightarrow> (u64 \<times> nat) option" where
  "walk_existing m pml4 virt =
     Option.bind (follow m pml4 (p4_idx virt)) (\<lambda>p3.
     Option.bind (follow m p3 (p3_idx virt)) (\<lambda>p2.
     Option.bind (follow m p2 (p2_idx virt)) (\<lambda>p1. Some (p1, p1_idx virt))))"

section \<open>Operations\<close>

definition map_page_in :: "u64 \<Rightarrow> u64 \<Rightarrow> u64 \<Rightarrow> u64 \<Rightarrow> (vmm, unit, unit) sm" where
  "map_page_in pml4 virt phys flags =
     bindS (walk_or_create pml4 virt (flags AND push_bit 2 1 \<noteq> 0)) (\<lambda>(t, i). set_entry t i (pte_set phys flags))"

definition map_page :: "u64 \<Rightarrow> u64 \<Rightarrow> u64 \<Rightarrow> (vmm, unit, unit) sm" where
  "map_page virt phys flags = bindS (getS pml4_phys) (\<lambda>pml4. map_page_in pml4 virt phys flags)"

definition query_page_in :: "u64 \<Rightarrow> u64 \<Rightarrow> vmm \<Rightarrow> u64 option" where
  "query_page_in pml4 virt s = (case walk_existing (vm_tables s) pml4 virt of
      None \<Rightarrow> None
    | Some (t, i) \<Rightarrow> if is_present (vm_tables s t i) then Some (pte_address (vm_tables s t i)) else None)"

definition query_page :: "u64 \<Rightarrow> vmm \<Rightarrow> u64 option" where
  "query_page virt s = query_page_in (pml4_phys s) virt s"

definition update_page_flags_in :: "u64 \<Rightarrow> u64 \<Rightarrow> u64 \<Rightarrow> vmm \<Rightarrow> vmm" where
  "update_page_flags_in pml4 virt flags s = (case walk_existing (vm_tables s) pml4 virt of
      None \<Rightarrow> s
    | Some (t, i) \<Rightarrow>
        if is_present (vm_tables s t i)
        then s\<lparr>vm_tables := put_entry t i (pte_set (pte_address (vm_tables s t i)) flags) (vm_tables s)\<rparr> else s)"

definition update_page_flags :: "u64 \<Rightarrow> u64 \<Rightarrow> vmm \<Rightarrow> vmm" where
  "update_page_flags virt flags s = update_page_flags_in (pml4_phys s) virt flags s"

definition unmap_page :: "u64 \<Rightarrow> vmm \<Rightarrow> vmm" where
  "unmap_page virt s = (case walk_existing (vm_tables s) (pml4_phys s) virt of
      None \<Rightarrow> s
    | Some (t, i) \<Rightarrow> s\<lparr>vm_tables := put_entry t i 0 (vm_tables s)\<rparr>)"

definition unmap_page_in :: "u64 \<Rightarrow> u64 \<Rightarrow> vmm \<Rightarrow> u64 option \<times> vmm" where
  "unmap_page_in pml4 virt s = (case walk_existing (vm_tables s) pml4 virt of
      None \<Rightarrow> (None, s)
    | Some (t, i) \<Rightarrow>
        if is_present (vm_tables s t i)
        then (Some (pte_address (vm_tables s t i)), s\<lparr>vm_tables := put_entry t i 0 (vm_tables s)\<rparr>)
        else (None, s))"

definition release :: "u64 \<Rightarrow> (vmm, unit, unit) sm" where
  "release f s = (case free_frame f (vm_pmm s) of (r, p) \<Rightarrow> (r, s\<lparr>vm_pmm := p\<rparr>))"

text \<open>The four nested loops of \<^verbatim>\<open>free_user_page_table\<close>, innermost first.\<close>

definition free_p1 :: "u64 \<Rightarrow> (vmm, unit, unit) sm" where
  "free_p1 p1 = bindS (forS [0..<512] (\<lambda>l. bindS (getS (\<lambda>s. vm_tables s p1 l)) (\<lambda>e.
     whenS (is_present e \<and> e AND PF_MMIO_NOFREE = 0) (release (pte_address e))))) (\<lambda>_. release p1)"

definition free_p2 :: "u64 \<Rightarrow> (vmm, unit, unit) sm" where
  "free_p2 p2 = bindS (forS [0..<512] (\<lambda>k. bindS (getS (\<lambda>s. vm_tables s p2 k)) (\<lambda>e.
     whenS (is_present e)
       (if is_huge e then whenS (e AND PF_MMIO_NOFREE = 0) (release (pte_address e))
        else free_p1 (pte_address e))))) (\<lambda>_. release p2)"

definition free_p3 :: "u64 \<Rightarrow> u64 \<Rightarrow> (vmm, unit, unit) sm" where
  "free_p3 shared_p2 p3 = bindS (forS [0..<512] (\<lambda>j. bindS (getS (\<lambda>s. vm_tables s p3 j)) (\<lambda>e.
     whenS (is_present e \<and> pte_address e \<noteq> shared_p2) (free_p2 (pte_address e))))) (\<lambda>_. release p3)"

definition free_user_page_table :: "u64 \<Rightarrow> (vmm, unit, unit) sm" where
  "free_user_page_table pml4 =
     bindS (getS (\<lambda>s. pte_address (vm_tables s (pte_address (vm_tables s (pml4_phys s) 0)) 0))) (\<lambda>shared_p2.
     bindS (forS [0..<256] (\<lambda>i. bindS (getS (\<lambda>s. vm_tables s pml4 i)) (\<lambda>e.
       whenS (is_present e) (free_p3 shared_p2 (pte_address e))))) (\<lambda>_. release pml4))"

definition create_user_page_table :: "(vmm, unit, u64) sm" where
  "create_user_page_table =
     bindS (getS (\<lambda>s. pte_address (vm_tables s (pte_address (vm_tables s (pml4_phys s) 0)) 0))) (\<lambda>p2.
     bindS alloc_table (\<lambda>p3.
     bindS (set_entry p3 0 (pte_table p2)) (\<lambda>_.
     bindS alloc_table (\<lambda>p4.
     bindS (set_entry p4 0 (p3 OR 7)) (\<lambda>_.
     bindS (forS [256..<512] (\<lambda>i. bindS (getS (\<lambda>s. vm_tables s (pml4_phys s) i)) (set_entry p4 i))) (\<lambda>_.
     retS p4))))))"

text \<open>\<^verbatim>\<open>init\<close>, steps 2 to 4: the identity map with huge pages, its alias at the direct-map offset, and the
  kernel image.\<close>

definition identity_map :: "u64 \<Rightarrow> (vmm, unit, u64) sm" where
  "identity_map pml4 =
     bindS alloc_table (\<lambda>p3.
     bindS alloc_table (\<lambda>p2.
     bindS (set_entry pml4 0 (pte_table p3)) (\<lambda>_.
     bindS (set_entry p3 0 (pte_table p2)) (\<lambda>_.
     bindS (forS [0..<unat (IDENTITY_MAP_LIMIT div (2 * 1024 * 1024))]
       (\<lambda>i. set_entry p2 i (of_nat i * 2 * 1024 * 1024 OR 0x83))) (\<lambda>_. retS p2)))))"

definition hhdm_alias :: "u64 \<Rightarrow> u64 \<Rightarrow> u64 \<Rightarrow> (vmm, unit, unit) sm" where
  "hhdm_alias hhdm_off pml4 p2 =
     (let i = unat (drop_bit 39 hhdm_off AND 0x1FF) in
      whenS (i \<noteq> 0) (bindS alloc_table (\<lambda>p3.
        bindS (set_entry p3 0 (pte_table p2)) (\<lambda>_. set_entry pml4 i (pte_table p3)))))"

definition map_kernel :: "u64 \<Rightarrow> u64 \<Rightarrow> u64 \<Rightarrow> (vmm, unit, unit) sm" where
  "map_kernel phys_base virt_base phys_end =
     (let fin = (phys_end + FRAME_SIZE - 1) AND NOT (FRAME_SIZE - 1) in
      forS [0..<(unat fin - unat phys_base + 4095) div 4096]
        (\<lambda>i. map_page (virt_base + of_nat i * FRAME_SIZE) (phys_base + of_nat i * FRAME_SIZE) KERNEL_RWX))"

definition vmm_init :: "u64 \<Rightarrow> u64 \<Rightarrow> u64 \<Rightarrow> u64 \<Rightarrow> (vmm, unit, unit) sm" where
  "vmm_init kernel_phys_base kernel_virt_base kernel_phys_end hhdm_off =
     bindS alloc_table (\<lambda>pml4.
     bindS (modS (\<lambda>s. s\<lparr>pml4_phys := pml4\<rparr>)) (\<lambda>_.
     bindS (identity_map pml4) (\<lambda>p2.
     bindS (hhdm_alias hhdm_off pml4 p2) (\<lambda>_.
     map_kernel kernel_phys_base kernel_virt_base kernel_phys_end))))"

section \<open>Entries as bits\<close>

lemma mask_bits: "bit PHYS_ADDR_MASK n \<longleftrightarrow> 12 \<le> n \<and> n < 52"
proof -
  have m: "PHYS_ADDR_MASK = push_bit 12 (mask 40)" by (simp add: PHYS_ADDR_MASK_def mask_eq_exp_minus_1)
  show ?thesis unfolding m by (auto simp: bit_push_bit_iff bit_mask_iff possible_bit_word)
qed

lemma and_one_bit: "k < 64 \<Longrightarrow> (e :: u64) AND push_bit k 1 \<noteq> 0 \<longleftrightarrow> bit e k"
proof -
  assume k: "k < 64"
  have "e AND push_bit k 1 \<noteq> 0 \<longleftrightarrow> (\<exists>j. bit (e AND push_bit k 1) j)"
    using bit_eqI [of "e AND push_bit k 1" 0] by auto
  also have "\<dots> \<longleftrightarrow> bit e k" using k by (simp add: bit_and_iff mask_bit del: push_bit_of_1)
  finally show ?thesis .
qed

lemma present_bit: "is_present e \<longleftrightarrow> bit e 0"
  using and_one_bit [of 0 e] by (simp add: is_present_def)

lemma huge_bit: "is_huge e \<longleftrightarrow> bit e 7"
  using and_one_bit [of 7 e] by (simp add: is_huge_def)

lemma low_bits: "bit (3 :: u64) n \<longleftrightarrow> n = 0 \<or> n = 1" "bit (7 :: u64) n \<longleftrightarrow> n = 0 \<or> n = 1 \<or> n = 2"
  using bit_mask_iff [of 2 n, where ?'a = u64] bit_mask_iff [of 3 n, where ?'a = u64]
  by (auto simp: mask_eq_exp_minus_1 possible_bit_word)

lemma user_bit [simp]:
  "is_present (e OR push_bit 2 1) = is_present e" "is_huge (e OR push_bit 2 1) = is_huge e"
  "pte_address (e OR push_bit 2 1) = pte_address e"
  by (auto simp: present_bit huge_bit bit_or_iff mask_bit pte_address_def bit_and_iff mask_bits simp del: push_bit_of_1
      intro!: bit_eqI)

text \<open>The address of a frame survives the packing into an entry.\<close>

definition frame_addr :: "u64 \<Rightarrow> bool" where
  "frame_addr t \<longleftrightarrow> t AND PHYS_ADDR_MASK = t"

lemma frame_addr_bit: "frame_addr t \<Longrightarrow> bit t n \<Longrightarrow> 12 \<le> n \<and> n < 52"
  unfolding frame_addr_def by (metis bit_and_iff mask_bits)

lemma frame_addr_of: "f < MAX_FRAMES \<Longrightarrow> frame_addr (of_nat (4096 * f))"
proof -
  assume f: "f < MAX_FRAMES"
  have k: "m < 20" if "bit f m" for m
  proof (rule ccontr)
    assume "\<not> m < 20"
    then have "(2::nat) ^ 20 \<le> 2 ^ m" by (intro power_increasing) simp_all
    then have "f div 2 ^ m = 0" using f by (simp add: sizes(2))
    then show False using that by (simp add: bit_iff_odd)
  qed
  have "bit (of_nat (4096 * f) :: u64) n \<Longrightarrow> 12 \<le> n \<and> n < 52" for n
  proof -
    assume b: "bit (of_nat (4096 * f) :: u64) n"
    have "(4096 :: nat) * f = push_bit 12 f" by (simp add: push_bit_eq_mult)
    then have "bit (push_bit 12 f) n" using b by (metis bit_of_nat_iff)
    then have "12 \<le> n" "bit f (n - 12)" by (simp_all add: bit_push_bit_iff)
    then show ?thesis using k [of "n - 12"] by simp
  qed
  then show ?thesis unfolding frame_addr_def by (intro bit_eqI) (auto simp: bit_and_iff mask_bits)
qed

lemma table_entry:
  assumes "frame_addr t"
  shows "is_present (pte_table t)" "\<not> is_huge (pte_table t)" "pte_address (pte_table t) = t"
    "is_present (t OR 7)" "\<not> is_huge (t OR 7)" "pte_address (t OR 7) = t"
proof -
  note b = frame_addr_bit [OF assms]
  have "(t OR 3) AND PHYS_ADDR_MASK = t"
  proof (rule bit_eqI)
    fix n show "bit ((t OR 3) AND PHYS_ADDR_MASK) n = bit t n"
      using b [of n] low_bits(1) [of n] by (auto simp: bit_or_iff bit_and_iff mask_bits)
  qed
  moreover have "(t OR 7) AND PHYS_ADDR_MASK = t"
  proof (rule bit_eqI)
    fix n show "bit ((t OR 7) AND PHYS_ADDR_MASK) n = bit t n"
      using b [of n] low_bits(2) [of n] by (auto simp: bit_or_iff bit_and_iff mask_bits)
  qed
  ultimately show "pte_address (pte_table t) = t" "pte_address (t OR 7) = t" by (simp_all add: pte_table_def pte_address_def)
  show "is_present (pte_table t)" "\<not> is_huge (pte_table t)" "is_present (t OR 7)" "\<not> is_huge (t OR 7)"
    using b [of 7] by (auto simp: present_bit huge_bit pte_table_def bit_or_iff low_bits)
qed

lemma idx_bound: "p4_idx va < 512" "p3_idx va < 512" "p2_idx va < 512" "p1_idx va < 512"
proof -
  have "unat (x AND 0x1FF) < 512" for x :: u64
  proof -
    have "x AND 0x1FF \<le> 0x1FF" by (rule word_and_le1)
    then show ?thesis by (simp add: word_le_nat_alt)
  qed
  then show "p4_idx va < 512" "p3_idx va < 512" "p2_idx va < 512" "p1_idx va < 512"
    by (simp_all add: p4_idx_def p3_idx_def p2_idx_def p1_idx_def)
qed

section \<open>Address spaces\<close>

text \<open>The table that a path of indices reaches through present entries that are not huge pages.\<close>

definition child :: "tables \<Rightarrow> u64 \<Rightarrow> nat \<Rightarrow> u64 option" where
  "child m t i = (if is_present (m t i) \<and> \<not> is_huge (m t i) then Some (pte_address (m t i)) else None)"

fun walk :: "tables \<Rightarrow> u64 \<Rightarrow> nat list \<Rightarrow> u64 option" where
  "walk m t [] = Some t"
| "walk m t (i # is) = Option.bind (child m t i) (\<lambda>t'. walk m t' is)"

lemma walk_snoc: "walk m t (q @ [i]) = Option.bind (walk m t q) (\<lambda>t'. child m t' i)"
  by (induction q arbitrary: t) (auto split: bind_splits)

text \<open>What the processor does with an address: a missing page, a huge page, or the entry of a 4 KiB page.\<close>

datatype xlation = Missing | HugePage u64 | Page u64

fun xlate :: "tables \<Rightarrow> u64 \<Rightarrow> nat list \<Rightarrow> xlation" where
  "xlate m t [] = Missing"
| "xlate m t [i] = (if is_present (m t i) then Page (m t i) else Missing)"
| "xlate m t (i # j # is) = (if \<not> is_present (m t i) then Missing
     else if is_huge (m t i) then HugePage (m t i) else xlate m (pte_address (m t i)) (j # is))"

definition indices :: "u64 \<Rightarrow> nat list" where
  "indices va = [p4_idx va, p3_idx va, p2_idx va, p1_idx va]"

definition translate :: "vmm \<Rightarrow> u64 \<Rightarrow> u64 \<Rightarrow> xlation" where
  "translate s pml4 va = xlate (vm_tables s) pml4 (indices va)"

text \<open>The frames of the tables are in use, and no table is reached in two ways, with two exceptions: the upper half
  of every address space may point to the kernel's tables, and the identity map, whose entries are all huge pages, may
  appear at several places of the second level.\<close>

definition owned_frame :: "pmm \<Rightarrow> u64 \<Rightarrow> bool" where
  "owned_frame p t \<longleftrightarrow> (\<exists>f < MAX_FRAMES. f \<notin> free_set p \<and> t = of_nat (4096 * f))"

definition sealed :: "tables \<Rightarrow> u64 \<Rightarrow> bool" where
  "sealed m t \<longleftrightarrow> (\<forall>i < 512. is_present (m t i)) \<and> (\<forall>i. is_present (m t i) \<longrightarrow> is_huge (m t i))"

lemma sealed_cong: "m' t = m t \<Longrightarrow> sealed m' t = sealed m t"
  by (simp add: sealed_def)

lemma sealed_child: "sealed m t \<Longrightarrow> child m t i = None"
  by (simp add: sealed_def child_def)

definition same_place :: "u64 \<Rightarrow> nat list \<Rightarrow> u64 \<Rightarrow> nat list \<Rightarrow> bool" where
  "same_place r q r' q' \<longleftrightarrow> q = q' \<and> (r = r' \<or> q \<noteq> [] \<and> 256 \<le> hd q)"

definition spaces_ok :: "u64 set \<Rightarrow> vmm \<Rightarrow> bool" where
  "spaces_ok R s \<longleftrightarrow> pmm_ok (vm_pmm s)
     \<and> (\<forall>r\<in>R. \<forall>q t. length q \<le> 3 \<longrightarrow> walk (vm_tables s) r q = Some t \<longrightarrow> owned_frame (vm_pmm s) t)
     \<and> (\<forall>r\<in>R. \<forall>r'\<in>R. \<forall>q q' t. length q \<le> 3 \<longrightarrow> length q' \<le> 3
          \<longrightarrow> walk (vm_tables s) r q = Some t \<longrightarrow> walk (vm_tables s) r' q' = Some t
          \<longrightarrow> same_place r q r' q' \<or> length q = 2 \<and> length q' = 2 \<and> sealed (vm_tables s) t)"

lemma spaces_okD:
  assumes "spaces_ok R s"
  shows "pmm_ok (vm_pmm s)"
    and "r \<in> R \<Longrightarrow> length q \<le> 3 \<Longrightarrow> walk (vm_tables s) r q = Some t \<Longrightarrow> owned_frame (vm_pmm s) t"
    and "r \<in> R \<Longrightarrow> r' \<in> R \<Longrightarrow> length q \<le> 3 \<Longrightarrow> length q' \<le> 3 \<Longrightarrow> walk (vm_tables s) r q = Some t
      \<Longrightarrow> walk (vm_tables s) r' q' = Some t
      \<Longrightarrow> same_place r q r' q' \<or> length q = 2 \<and> length q' = 2 \<and> sealed (vm_tables s) t"
  using assms by (auto simp: spaces_ok_def)

section \<open>Changing one entry\<close>

text \<open>An empty entry is filled with a fresh table.\<close>

definition fill :: "tables \<Rightarrow> u64 \<Rightarrow> nat \<Rightarrow> u64 \<Rightarrow> tables" where
  "fill m t i f = put_entry t i (pte_table f) (m(f := (\<lambda>_. 0)))"

lemma fill_entry:
  "t0 \<noteq> f \<Longrightarrow> fill m t0 i0 f t i = (if t = f then 0 else if t = t0 \<and> i = i0 then pte_table f else m t i)"
  by (simp add: fill_def put_entry_def)

lemma zero_entry [simp]: "\<not> is_present 0" by (simp add: is_present_def)

lemma fill_child:
  assumes "t0 \<noteq> f" "frame_addr f"
  shows "child (fill m t0 i0 f) t i = (if t = f then None else if t = t0 \<and> i = i0 then Some f else child m t i)"
  using table_entry [OF assms(2)] by (auto simp: child_def fill_entry [OF assms(1)])

lemma fill_walk:
  assumes "t0 \<noteq> f" "frame_addr f" "\<not> is_present (m t0 i0)" "\<And>q. length q \<le> 3 \<Longrightarrow> walk m r q \<noteq> Some f"
  shows "length q \<le> 3 \<Longrightarrow> walk (fill m t0 i0 f) r q
    = (if q \<noteq> [] \<and> walk m r (butlast q) = Some t0 \<and> last q = i0 then Some f else walk m r q)"
proof (induction q rule: rev_induct)
  case (snoc i q)
  have IH: "walk (fill m t0 i0 f) r q
    = (if q \<noteq> [] \<and> walk m r (butlast q) = Some t0 \<and> last q = i0 then Some f else walk m r q)"
    using snoc by simp
  have nf: "walk m r q \<noteq> Some f" using assms(4) snoc.prems by simp
  have e: "child m t0 i0 = None" using assms(3) by (simp add: child_def)
  show ?case
  proof (cases "q \<noteq> [] \<and> walk m r (butlast q) = Some t0 \<and> last q = i0")
    case True
    then have q: "q = butlast q @ [i0]" "walk m r (butlast q) = Some t0" by (metis append_butlast_last_id, blast)
    have "walk m r q = None" using q(2) e by (subst q(1)) (simp add: walk_snoc)
    then show ?thesis using IH True by (simp add: walk_snoc fill_child [OF assms(1,2)])
  next
    case False
    then have "walk (fill m t0 i0 f) r q = walk m r q" using IH by auto
    then show ?thesis using nf e by (cases "walk m r q") (auto simp: walk_snoc fill_child [OF assms(1,2)])
  qed
qed simp

lemma owned_frame_addr: "owned_frame p t \<Longrightarrow> frame_addr t"
  using frame_addr_of by (auto simp: owned_frame_def)

lemma frame_inj: "f < MAX_FRAMES \<Longrightarrow> g < MAX_FRAMES \<Longrightarrow> (of_nat (4096 * f) :: u64) = of_nat (4096 * g) \<Longrightarrow> f = g"
proof -
  assume "f < MAX_FRAMES" "g < MAX_FRAMES" and e: "(of_nat (4096 * f) :: u64) = of_nat (4096 * g)"
  then have b: "4096 * f < 2 ^ 64" "4096 * g < 2 ^ 64" by (simp_all add: sizes(2))
  have "unat (of_nat (4096 * f) :: u64) = unat (of_nat (4096 * g) :: u64)" by (simp only: e)
  then show "f = g" using b by (simp only: unat_of_nat take_bit_nat_eq_self_iff len_of_numeral_defs) simp
qed

text \<open>The tables of all address spaces.\<close>

definition tabs :: "u64 set \<Rightarrow> vmm \<Rightarrow> u64 set" where
  "tabs R s = {t. \<exists>r\<in>R. \<exists>q. length q \<le> 3 \<and> walk (vm_tables s) r q = Some t}"

lemma tabs_owned: "spaces_ok R s \<Longrightarrow> t \<in> tabs R s \<Longrightarrow> owned_frame (vm_pmm s) t"
  by (auto simp: tabs_def spaces_ok_def)

lemma tabs_same:
  "(\<And>r q. r \<in> R \<Longrightarrow> length q \<le> 3 \<Longrightarrow> walk (vm_tables s') r q = walk (vm_tables s) r q) \<Longrightarrow> tabs R s' = tabs R s"
  unfolding tabs_def by (intro Collect_cong bex_cong refl ex_cong1 conj_cong) simp

text \<open>Every table that was reached still is, and the identity map is as it was.\<close>

definition keeps :: "u64 set \<Rightarrow> vmm \<Rightarrow> vmm \<Rightarrow> bool" where
  "keeps R s s' \<longleftrightarrow> (\<forall>r\<in>R. \<forall>q t. length q \<le> 3 \<longrightarrow> walk (vm_tables s) r q = Some t
     \<longrightarrow> walk (vm_tables s') r q = Some t \<and> (length q \<le> 2 \<longrightarrow> sealed (vm_tables s) t \<longrightarrow> sealed (vm_tables s') t))"

lemma spaces_fill:
  assumes ok: "spaces_ok R s" and r0: "r0 \<in> R" "length q0 \<le> 2" "walk (vm_tables s) r0 q0 = Some t0" "i0 < 512"
    and e: "\<not> is_present (vm_tables s t0 i0)" and f: "f < MAX_FRAMES" "f \<in> free_set (vm_pmm s)"
    and p: "pmm_ok p" "free_set p = free_set (vm_pmm s) - {f}" and a: "a = of_nat (4096 * f)"
  defines "s' \<equiv> s\<lparr>vm_pmm := p, vm_tables := fill (vm_tables s) t0 i0 a\<rparr>"
  shows "spaces_ok R s'" "walk (vm_tables s') r0 (q0 @ [i0]) = Some a" "keeps R s s'" "tabs R s' \<subseteq> insert a (tabs R s)"
proof -
  let ?m = "vm_tables s"
  note D = spaces_okD [OF ok]
  have un: "\<not> owned_frame (vm_pmm s) a" using f frame_inj [of f] unfolding owned_frame_def a by blast
  have nf: "walk ?m r q \<noteq> Some a" if "r \<in> R" "length q \<le> 3" for r q using D(2) [OF that] un by blast
  have t0: "t0 \<noteq> a" using nf [OF r0(1), of q0] r0(2,3) by auto
  have fa: "frame_addr a" unfolding a by (rule frame_addr_of [OF f(1)])
  have W: "walk (vm_tables s') r q
      = (if q \<noteq> [] \<and> walk ?m r (butlast q) = Some t0 \<and> last q = i0 then Some a else walk ?m r q)"
    if "r \<in> R" "length q \<le> 3" for r q
    using fill_walk [OF t0 fa e nf [OF that(1)]] that(2) by (simp add: s'_def)
  show "walk (vm_tables s') r0 (q0 @ [i0]) = Some a" using W [OF r0(1), of "q0 @ [i0]"] r0 by simp
  have K: "walk (vm_tables s') r q = Some t" if r: "r \<in> R" "length q \<le> 3" "walk ?m r q = Some t" for r q t
  proof -
    have "\<not> (walk ?m r (butlast q) = Some t0 \<and> last q = i0)" if "q \<noteq> []"
    proof
      assume "walk ?m r (butlast q) = Some t0 \<and> last q = i0"
      then have "walk ?m r (butlast q @ [last q]) = None" using e by (simp add: walk_snoc child_def)
      then show False using r(3) unfolding append_butlast_last_id [OF that] by simp
    qed
    then show ?thesis using W [OF r(1,2)] r(3) by auto
  qed
  have ow: "owned_frame p t" if "owned_frame (vm_pmm s) t" for t using that p(2) by (auto simp: owned_frame_def)
  have oa: "owned_frame p a" using f(1) p(2) by (auto simp: owned_frame_def a)
  have own: "owned_frame p t" if "r \<in> R" "length q \<le> 3" "walk (vm_tables s') r q = Some t" for r q t
    using that W [OF that(1,2)] ow D(2) [OF that(1,2)] oa by (auto split: if_splits)
  have ns: "\<not> sealed ?m t0" unfolding sealed_def using e r0(4) by blast
  have se: "sealed (vm_tables s') t" if "sealed ?m t" "t \<noteq> a" for t
  proof -
    have n: "t \<noteq> t0" using that(1) ns by blast
    have "vm_tables s' t = ?m t" by (rule ext) (simp add: s'_def fill_entry [OF t0] n that(2))
    from sealed_cong [of "vm_tables s'" t "vm_tables s", OF this] that(1) show ?thesis by simp
  qed
  show "keeps R s s'" unfolding keeps_def using K nf se by blast
  show "tabs R s' \<subseteq> insert a (tabs R s)"
  proof
    fix t assume "t \<in> tabs R s'"
    then obtain r q where "r \<in> R" "length q \<le> 3" "walk (vm_tables s') r q = Some t" by (auto simp: tabs_def)
    then have "t = a \<or> walk ?m r q = Some t" using W [of r q] by (auto split: if_splits)
    then show "t \<in> insert a (tabs R s)" using \<open>r \<in> R\<close> \<open>length q \<le> 3\<close> by (auto simp: tabs_def)
  qed
  have un: "same_place r q r' q' \<or> length q = 2 \<and> length q' = 2 \<and> sealed (vm_tables s') t"
    if u: "r \<in> R" "length q \<le> 3" "walk (vm_tables s') r q = Some t" and b: "r' \<in> R" "length q' \<le> 3" "walk (vm_tables s') r' q' = Some t"
    for r q r' q' t
  proof (cases "t = a")
    case True
    have q: "q \<noteq> []" "walk ?m r (butlast q) = Some t0" "last q = i0"
      using u W [OF u(1,2)] nf [OF u(1,2)] True by (auto split: if_splits)
    have q': "q' \<noteq> []" "walk ?m r' (butlast q') = Some t0" "last q' = i0"
      using b W [OF b(1,2)] nf [OF b(1,2)] True by (auto split: if_splits)
    have "same_place r (butlast q) r' (butlast q')" using D(3) [OF u(1) b(1) _ _ q(2) q'(2)] u(2) b(2) ns by simp
    then have eq: "butlast q = butlast q'" "r = r' \<or> butlast q \<noteq> [] \<and> 256 \<le> hd (butlast q)"
      unfolding same_place_def by blast+
    have x: "butlast q @ [i0] = q" using append_butlast_last_id [OF q(1)] unfolding q(3) .
    have x': "butlast q' @ [i0] = q'" using append_butlast_last_id [OF q'(1)] unfolding q'(3) .
    have "q = q'" using x x' unfolding eq(1) by (rule trans [OF sym])
    moreover have "hd q = hd (butlast q)" if "butlast q \<noteq> []" using hd_append2 [OF that, of "[i0]"] unfolding x .
    ultimately show ?thesis using eq(2) q(1) by (auto simp: same_place_def)
  next
    case False
    have q: "walk ?m r q = Some t" "walk ?m r' q' = Some t"
      using u b W [OF u(1,2)] W [OF b(1,2)] False by (auto split: if_splits)
    show ?thesis using D(3) [OF u(1) b(1) u(2) b(2) q] se False by blast
  qed
  show "spaces_ok R s'" unfolding spaces_ok_def using p(1) own un by (auto simp: s'_def)
qed

lemma xlate_zero: "m t = (\<lambda>_. 0) \<Longrightarrow> xlate m t is = Missing"
  by (induction m t "is" rule: xlate.induct) simp_all

text \<open>Two stores translate alike if the entries of the upper levels differ only in their flags or by empty tables.\<close>

definition alike :: "tables \<Rightarrow> tables \<Rightarrow> u64 \<Rightarrow> nat \<Rightarrow> bool" where
  "alike m m' t i \<longleftrightarrow>
     \<not> is_present (m t i) \<and> is_present (m' t i) \<and> \<not> is_huge (m' t i) \<and> m' (pte_address (m' t i)) = (\<lambda>_. 0)
   \<or> is_present (m t i) \<and> is_present (m' t i) \<and> \<not> is_huge (m t i) \<and> \<not> is_huge (m' t i)
       \<and> pte_address (m' t i) = pte_address (m t i)"

lemma xlate_alike:
  assumes "\<And>q t i. length q \<le> 3 \<Longrightarrow> walk m r q = Some t \<Longrightarrow> m' t i = m t i \<or> length q < 3 \<and> alike m m' t i"
  shows "walk m r q = Some t \<Longrightarrow> length q + length is = 4 \<Longrightarrow> xlate m' t is = xlate m t is"
proof (induction "is" arbitrary: q t)
  case (Cons i "is")
  have e: "m' t i = m t i \<or> length q < 3 \<and> alike m m' t i" using assms [of q t i] Cons.prems by simp
  show ?case
  proof (cases "is")
    case Nil
    then show ?thesis using e Cons.prems(2) by auto
  next
    case is': (Cons j js)
    show ?thesis
    proof (cases "is_present (m t i) \<and> \<not> is_huge (m t i)")
      case True
      then have w: "walk m r (q @ [i]) = Some (pte_address (m t i))" using Cons.prems(1) by (simp add: walk_snoc child_def)
      have "xlate m' (pte_address (m t i)) is = xlate m (pte_address (m t i)) is"
        by (rule Cons.IH [OF w]) (use Cons.prems(2) in simp)
      then show ?thesis using e True by (auto simp: alike_def is')
    next
      case False
      then show ?thesis using e by (auto simp: alike_def xlate_zero is')
    qed
  qed
qed simp

lemma translate_alike:
  assumes "\<And>q t i. length q \<le> 3 \<Longrightarrow> walk (vm_tables s) r q = Some t
      \<Longrightarrow> vm_tables s' t i = vm_tables s t i \<or> length q < 3 \<and> alike (vm_tables s) (vm_tables s') t i"
  shows "translate s' r va = translate s r va"
  unfolding translate_def by (rule xlate_alike [where q = "[]" and r = r, OF assms]) (simp_all add: indices_def)

text \<open>A place of the last level is rewritten.\<close>

lemma put_other: "t \<noteq> t1 \<Longrightarrow> put_entry t1 i1 e m t = m t"
  by (simp add: put_entry_def)

lemma walk_put:
  assumes "\<And>p. length p < 3 \<Longrightarrow> walk m r p \<noteq> Some t1"
  shows "length q \<le> 3 \<Longrightarrow> walk (put_entry t1 i1 e m) r q = walk m r q"
proof (induction q rule: rev_induct)
  case (snoc i q)
  then have IH: "walk (put_entry t1 i1 e m) r q = walk m r q" "walk m r q \<noteq> Some t1" using assms [of q] by simp_all
  have "child (put_entry t1 i1 e m) t i = child m t i" if "t \<noteq> t1" for t using put_other [OF that] by (simp add: child_def)
  then show ?case using IH by (cases "walk m r q") (auto simp: walk_snoc)
qed simp

lemma xlate_leaf: "walk m t [a, b, c] = Some t1 \<Longrightarrow> xlate m t [a, b, c, d] = (if is_present (m t1 d) then Page (m t1 d) else Missing)"
  by (auto simp: child_def split: if_splits)

lemma xlate_put:
  assumes n: "\<And>p. length p < 3 \<Longrightarrow> walk m r p \<noteq> Some t1"
  shows "xlate (put_entry t1 i1 e m) r [a, b, c, d] =
    (if walk m r [a, b, c] = Some t1 \<and> d = i1 then if is_present e then Page e else Missing else xlate m r [a, b, c, d])"
proof (cases "walk m r [a, b, c]")
  case (Some t)
  then have "walk (put_entry t1 i1 e m) r [a, b, c] = Some t" using walk_put [OF n, of "[a, b, c]"] by simp
  then show ?thesis using xlate_leaf [OF Some, of d] xlate_leaf [of "put_entry t1 i1 e m" r a b c t d] Some
    by (simp add: put_entry_def)
next
  case None
  note p = n [of "[]"] n [of "[a]"] n [of "[a, b]"]
  show ?thesis using None p put_other [where ?t1.0 = t1 and m = m and ?i1.0 = i1 and e = e]
    by (auto simp: child_def split: if_splits)
qed

section \<open>Creating the path to a page\<close>

lemma spaces_same:
  assumes "spaces_ok R s" "vm_pmm s' = vm_pmm s"
    and "\<And>r q. r \<in> R \<Longrightarrow> length q \<le> 3 \<Longrightarrow> walk (vm_tables s') r q = walk (vm_tables s) r q"
    and "\<And>r q t. r \<in> R \<Longrightarrow> length q = 2 \<Longrightarrow> walk (vm_tables s) r q = Some t \<Longrightarrow> sealed (vm_tables s) t \<Longrightarrow> sealed (vm_tables s') t"
  shows "spaces_ok R s'"
proof -
  note D = spaces_okD [OF assms(1)]
  have "same_place r q r' q' \<or> length q = 2 \<and> length q' = 2 \<and> sealed (vm_tables s') t"
    if "r \<in> R" "r' \<in> R" "length q \<le> 3" "length q' \<le> 3" "walk (vm_tables s') r q = Some t" "walk (vm_tables s') r' q' = Some t"
    for r r' q q' t
    using D(3) [OF that(1,2,3,4)] that(5,6) assms(3) [OF that(1,3)] assms(3) [OF that(2,4)] assms(4) [OF that(1), of q t]
    by auto
  then show ?thesis unfolding spaces_ok_def using D(1,2) assms(2,3) by simp
qed

definition user_mark :: "bool \<Rightarrow> u64 \<Rightarrow> nat \<Rightarrow> vmm \<Rightarrow> vmm" where
  "user_mark user t i s =
     (if user then s\<lparr>vm_tables := put_entry t i (vm_tables s t i OR push_bit 2 1) (vm_tables s)\<rparr> else s)"

lemma user_mark_entry:
  "is_present (vm_tables (user_mark user t0 i0 s) t i) = is_present (vm_tables s t i)"
  "is_huge (vm_tables (user_mark user t0 i0 s) t i) = is_huge (vm_tables s t i)"
  "pte_address (vm_tables (user_mark user t0 i0 s) t i) = pte_address (vm_tables s t i)"
  by (simp_all add: user_mark_def put_entry_def del: push_bit_of_1)

lemma user_mark_walk [simp]: "walk (vm_tables (user_mark user t0 i0 s)) r q = walk (vm_tables s) r q"
  by (induction q arbitrary: r) (simp_all add: child_def user_mark_entry)

lemma user_mark_same [simp]:
  "vm_pmm (user_mark user t i s) = vm_pmm s" "pml4_phys (user_mark user t i s) = pml4_phys s"
  by (simp_all add: user_mark_def)

lemma spaces_user_mark: "spaces_ok R s \<Longrightarrow> spaces_ok R (user_mark user t i s)"
  by (erule spaces_same) (simp_all add: sealed_def user_mark_entry)

lemma keeps_user_mark: "keeps R s (user_mark user t i s)"
  by (simp add: keeps_def sealed_def user_mark_entry)

lemma tabs_user_mark [simp]: "tabs R (user_mark user t i s) = tabs R s"
  by (simp add: tabs_def)

lemma keeps_trans: "keeps R s s1 \<Longrightarrow> keeps R s1 s2 \<Longrightarrow> keeps R s s2"
  unfolding keeps_def by blast

lemma keepsD: "keeps R s s' \<Longrightarrow> r \<in> R \<Longrightarrow> length q \<le> 3 \<Longrightarrow> walk (vm_tables s) r q = Some t \<Longrightarrow> walk (vm_tables s') r q = Some t"
  by (simp add: keeps_def)

lemma translate_user_mark:
  assumes ok: "spaces_ok R s" and r0: "r0 \<in> R" "length q0 \<le> 2" "walk (vm_tables s) r0 q0 = Some t0" "i0 < 512"
    and e: "is_present (vm_tables s t0 i0)" "\<not> is_huge (vm_tables s t0 i0)" and r: "r \<in> R"
  shows "translate (user_mark user t0 i0 s) r va = translate s r va"
proof (rule translate_alike)
  fix q t i assume q: "length q \<le> 3" "walk (vm_tables s) r q = Some t"
  have "length q < 3" if "t = t0"
    using spaces_okD(3) [OF ok r r0(1) q(1) _ q(2), of q0] r0(2,3) that by (auto simp: same_place_def)
  moreover have "vm_tables (user_mark user t0 i0 s) t i = vm_tables s t i" if "\<not> (t = t0 \<and> i = i0)"
    using that by (auto simp: user_mark_def put_entry_def)
  ultimately show "vm_tables (user_mark user t0 i0 s) t i = vm_tables s t i
      \<or> length q < 3 \<and> alike (vm_tables s) (vm_tables (user_mark user t0 i0 s)) t i"
    using e by (cases "t = t0 \<and> i = i0") (simp_all add: alike_def user_mark_entry)
qed

lemma translate_fill:
  assumes ok: "spaces_ok R s" and r0: "r0 \<in> R" "length q0 \<le> 2" "walk (vm_tables s) r0 q0 = Some t0" "i0 < 512"
    and e: "\<not> is_present (vm_tables s t0 i0)" and f: "f < MAX_FRAMES" "f \<in> free_set (vm_pmm s)"
    and a: "a = of_nat (4096 * f)" and r: "r \<in> R"
  shows "translate (s\<lparr>vm_pmm := p, vm_tables := fill (vm_tables s) t0 i0 a\<rparr>) r va = translate s r va"
proof (rule translate_alike)
  have un: "\<not> owned_frame (vm_pmm s) a" using f frame_inj [of f] unfolding owned_frame_def a by blast
  have t0: "t0 \<noteq> a" using spaces_okD(2) [OF ok r0(1) _ r0(3)] r0(2) un by auto
  have fa: "frame_addr a" unfolding a by (rule frame_addr_of [OF f(1)])
  fix q t i assume q: "length q \<le> 3" "walk (vm_tables s) r q = Some t"
  have "t \<noteq> a" using spaces_okD(2) [OF ok r q] un by blast
  moreover have "length q < 3" if "t = t0"
    using spaces_okD(3) [OF ok r r0(1) q(1) _ q(2), of q0] r0(2,3) that by (auto simp: same_place_def)
  ultimately show "vm_tables (s\<lparr>vm_pmm := p, vm_tables := fill (vm_tables s) t0 i0 a\<rparr>) t i = vm_tables s t i
      \<or> length q < 3 \<and> alike (vm_tables s) (vm_tables (s\<lparr>vm_pmm := p, vm_tables := fill (vm_tables s) t0 i0 a\<rparr>)) t i"
    using e table_entry [OF fa] by (auto simp: fill_entry [OF t0] alike_def)
qed

lemma descend_eq:
  "descend user t i s = (let finish = (\<lambda>s. let s' = user_mark user t i s; e = vm_tables s t i in
       if is_huge e then (Panic, s') else (Ok (pte_address e), s'))
     in if is_present (vm_tables s t i) then finish s
        else case alloc_frame (vm_pmm s) of
           (None, p) \<Rightarrow> (Panic, s\<lparr>vm_pmm := p\<rparr>)
         | (Some f, p) \<Rightarrow> finish (s\<lparr>vm_pmm := p, vm_tables := fill (vm_tables s) t i f\<rparr>))"
  by (auto simp: descend_def sm_defs set_entry_def alloc_table_def user_mark_def put_entry_def fill_def Let_def
      simp del: push_bit_of_1 split: prod.splits option.splits)

text \<open>From \<open>s\<close> to \<open>s'\<close> at most \<open>n\<close> tables were added and no translation changed.\<close>

definition extends :: "u64 set \<Rightarrow> nat \<Rightarrow> vmm \<Rightarrow> vmm \<Rightarrow> bool" where
  "extends R n s s' \<longleftrightarrow> spaces_ok R s' \<and> keeps R s s' \<and> (\<forall>r\<in>R. \<forall>va. translate s' r va = translate s r va)
     \<and> pml4_phys s' = pml4_phys s \<and> free_set (vm_pmm s') \<subseteq> free_set (vm_pmm s)
     \<and> card (free_set (vm_pmm s)) \<le> card (free_set (vm_pmm s')) + n
     \<and> tabs R s' \<subseteq> tabs R s \<union> {t. \<not> owned_frame (vm_pmm s) t}"

lemma owned_mono: "free_set p' \<subseteq> free_set p \<Longrightarrow> owned_frame p t \<Longrightarrow> owned_frame p' t"
  by (auto simp: owned_frame_def)

lemma extends_trans: "extends R n s s1 \<Longrightarrow> extends R k s1 s2 \<Longrightarrow> extends R (n + k) s s2"
proof -
  assume a: "extends R n s s1" "extends R k s1 s2"
  have "tabs R s2 \<subseteq> tabs R s \<union> {t. \<not> owned_frame (vm_pmm s) t}"
  proof
    fix t assume "t \<in> tabs R s2"
    then have "t \<in> tabs R s1 \<or> \<not> owned_frame (vm_pmm s1) t" using a(2) by (auto simp: extends_def)
    then show "t \<in> tabs R s \<union> {t. \<not> owned_frame (vm_pmm s) t}"
      using a(1) owned_mono [of "vm_pmm s1" "vm_pmm s" t] by (auto simp: extends_def)
  qed
  then show ?thesis using a keeps_trans [of R s s1 s2] by (auto simp: extends_def)
qed

lemma descend_spec:
  assumes ok: "spaces_ok R s" and r0: "r0 \<in> R" "length q0 \<le> 2" "walk (vm_tables s) r0 q0 = Some t0" "i0 < 512"
  obtains t1 s' where "descend user t0 i0 s = (Ok t1, s')" "extends R 1 s s'" "walk (vm_tables s') r0 (q0 @ [i0]) = Some t1"
  | s' where "descend user t0 i0 s = (Panic, s')" "is_present (vm_tables s t0 i0)" "is_huge (vm_tables s t0 i0)"
  | s' where "descend user t0 i0 s = (Panic, s')" "free_set (vm_pmm s) = {}"
proof (cases "is_present (vm_tables s t0 i0)")
  case True
  show ?thesis
  proof (cases "is_huge (vm_tables s t0 i0)")
    case h: True
    then show ?thesis using True by (intro that(2)) (simp_all add: descend_eq Let_def)
  next
    case False
    let ?s = "user_mark user t0 i0 s"
    have "extends R 1 s ?s" using spaces_user_mark [OF ok] translate_user_mark [OF ok r0 True False] keeps_user_mark
      by (simp add: extends_def)
    moreover have "walk (vm_tables ?s) r0 (q0 @ [i0]) = Some (pte_address (vm_tables s t0 i0))"
      using r0(3) True False by (simp add: walk_snoc child_def user_mark_entry)
    moreover have "descend user t0 i0 s = (Ok (pte_address (vm_tables s t0 i0)), ?s)"
      using True False by (simp add: descend_eq Let_def)
    ultimately show ?thesis by (intro that(1))
  qed
next
  case False
  from spaces_okD(1) [OF ok] show ?thesis
  proof (cases rule: alloc_frame_cases)
    case 1
    then show ?thesis using False by (intro that(3)) (simp_all add: descend_eq Let_def)
  next
    case (2 f p)
    define a :: u64 where "a = of_nat (4096 * f)"
    let ?s1 = "s\<lparr>vm_pmm := p, vm_tables := fill (vm_tables s) t0 i0 a\<rparr>" let ?s = "user_mark user t0 i0 ?s1"
    have f: "f < MAX_FRAMES" using 2(2) by (simp add: free_set_def)
    note S = spaces_fill [OF ok r0 False f 2(2) 2(5) 2(4) a_def]
    have fa: "frame_addr a" unfolding a_def by (rule frame_addr_of [OF f])
    have e: "vm_tables ?s1 t0 i0 = pte_table a" by (simp add: fill_def put_entry_def)
    have w3: "walk (vm_tables ?s1) r0 q0 = Some t0" by (rule keepsD [OF S(3) r0(1) _ r0(3)]) (use r0(2) in simp)
    have fr: "card (free_set (vm_pmm s)) = card (free_set p) + 1"
      using 2(2,4) card_Suc_Diff1 [of "free_set (vm_pmm s)" f] by simp
    have "translate ?s r va = translate s r va" if "r \<in> R" for r va
      using translate_user_mark [OF S(1) r0(1,2) w3 r0(4) _ _ that] translate_fill [OF ok r0 False f 2(2) a_def that]
        table_entry [OF fa] e by metis
    moreover have "tabs R ?s \<subseteq> tabs R s \<union> {t. \<not> owned_frame (vm_pmm s) t}"
    proof -
      have "\<not> owned_frame (vm_pmm s) a" using f 2(2) frame_inj [of f] unfolding owned_frame_def a_def by blast
      then show ?thesis using S(4) by auto
    qed
    moreover have "card (free_set (vm_pmm s)) \<le> card (free_set (vm_pmm ?s)) + 1" "pml4_phys ?s = pml4_phys s"
      "free_set (vm_pmm ?s) \<subseteq> free_set (vm_pmm s)" using fr 2(4) by auto
    ultimately have "extends R 1 s ?s"
      unfolding extends_def
      using spaces_user_mark [OF S(1), of user t0 i0] keeps_trans [OF S(3) keeps_user_mark, of user t0 i0] by (intro conjI; blast)
    moreover have "descend user t0 i0 s = (Ok a, ?s)"
      using 2(1) False e table_entry [OF fa] by (simp add: descend_eq Let_def a_def [symmetric] del: of_nat_mult)
    moreover have "walk (vm_tables ?s) r0 (q0 @ [i0]) = Some a" using S(2) by simp
    ultimately show ?thesis by (intro that(1))
  qed
qed

lemma xlate_walk: "walk m r q = Some t \<Longrightarrow> is \<noteq> [] \<Longrightarrow> xlate m r (q @ is) = xlate m t is"
proof (induction q arbitrary: r)
  case (Cons i q)
  obtain j js where j: "q @ is = j # js" using Cons.prems(2) by (cases "q @ is") auto
  then show ?case using Cons by (auto simp: child_def j split: bind_splits if_splits)
qed simp

lemma huge_on_path:
  assumes "walk (vm_tables s) r q = Some t" "indices va = q @ i # j # js"
    and "is_present (vm_tables s t i)" "is_huge (vm_tables s t i)"
  shows "\<exists>e. translate s r va = HugePage e"
  using xlate_walk [OF assms(1), of "i # j # js"] assms(2-) by (simp add: translate_def)

lemma extends_ok: "extends R n s s' \<Longrightarrow> spaces_ok R s'"
  by (simp add: extends_def)

lemma extends_translate: "extends R n s s' \<Longrightarrow> r \<in> R \<Longrightarrow> translate s' r va = translate s r va"
  by (simp add: extends_def)

lemma extends_empty: "extends R n s s' \<Longrightarrow> free_set (vm_pmm s') = {} \<Longrightarrow> card (free_set (vm_pmm s)) \<le> n"
  by (simp add: extends_def)

lemma walk_or_create_spec:
  assumes ok: "spaces_ok R s" and r: "r \<in> R"
  obtains t s' where "walk_or_create r va user s = (Ok (t, p1_idx va), s')" "extends R 3 s s'"
      "walk (vm_tables s') r [p4_idx va, p3_idx va, p2_idx va] = Some t"
  | s' e where "walk_or_create r va user s = (Panic, s')" "translate s r va = HugePage e"
  | s' where "walk_or_create r va user s = (Panic, s')" "card (free_set (vm_pmm s)) < 3"
proof -
  note defs = walk_or_create_def bindS_def retS_def
  have ix: "indices va = [] @ p4_idx va # p3_idx va # [p2_idx va, p1_idx va]"
    "indices va = [p4_idx va] @ p3_idx va # p2_idx va # [p1_idx va]"
    "indices va = [p4_idx va, p3_idx va] @ p2_idx va # p1_idx va # []" by (simp_all add: indices_def)
  have w0: "walk (vm_tables s) r [] = Some r" "length ([] :: nat list) \<le> 2" by simp_all
  from descend_spec [OF ok r w0(2,1) idx_bound(1) [of va], of user] show ?thesis
  proof cases
    case 2
    then show ?thesis using huge_on_path [OF w0(1) ix(1)] that(2) by (fastforce simp: defs)
  next
    case 3
    then show ?thesis by (intro that(3)) (simp_all add: defs)
  next
    case a: (1 p3 s1)
    have w1: "walk (vm_tables s1) r [p4_idx va] = Some p3" "length [p4_idx va] \<le> 2" using a(3) by simp_all
    note t1 = extends_translate [OF a(2) r]
    from descend_spec [OF extends_ok [OF a(2)] r w1(2,1) idx_bound(2) [of va], of user] show ?thesis
    proof cases
      case 2
      then show ?thesis using huge_on_path [OF w1(1) ix(2)] that(2) a(1) by (fastforce simp: defs t1)
    next
      case 3
      then show ?thesis using a(1) extends_empty [OF a(2) 3(2)] by (intro that(3)) (simp_all add: defs)
    next
      case b: (1 p2 s2)
      have w2: "walk (vm_tables s2) r [p4_idx va, p3_idx va] = Some p2" "length [p4_idx va, p3_idx va] \<le> 2"
        using b(3) by simp_all
      note x2 = extends_trans [OF a(2) b(2)]
      note t2 = extends_translate [OF x2 r]
      from descend_spec [OF extends_ok [OF b(2)] r w2(2,1) idx_bound(3) [of va], of user] show ?thesis
      proof cases
        case 2
        then show ?thesis using huge_on_path [OF w2(1) ix(3)] that(2) a(1) b(1) by (fastforce simp: defs t2)
      next
        case 3
        then show ?thesis using a(1) b(1) extends_empty [OF x2 3(2)] by (intro that(3)) (simp_all add: defs)
      next
        case c: (1 p1 s3)
        have "extends R 3 s s3" using extends_trans [OF x2 c(2)] by (simp add: numeral_3_eq_3)
        then show ?thesis using a(1) b(1) c(1,3) by (intro that(1)) (simp_all add: defs)
      qed
    qed
  qed
qed

section \<open>Mapping and unmapping\<close>

text \<open>The last-level table that the walk for an address ends in.\<close>

definition leaf_table :: "vmm \<Rightarrow> u64 \<Rightarrow> u64 \<Rightarrow> u64 option" where
  "leaf_table s r va = walk (vm_tables s) r [p4_idx va, p3_idx va, p2_idx va]"

lemma spaces_leaf:
  fixes e :: u64
  assumes ok: "spaces_ok R s" and r0: "r0 \<in> R" "leaf_table s r0 va = Some t"
  defines "s' \<equiv> s\<lparr>vm_tables := put_entry t (p1_idx va) e (vm_tables s)\<rparr>"
  shows "spaces_ok R s'" "keeps R s s'"
    and "r \<in> R \<Longrightarrow> leaf_table s' r va' = leaf_table s r va'"
    and "r \<in> R \<Longrightarrow> translate s' r va' = (if indices va' = indices va \<and> leaf_table s r va = leaf_table s r0 va
       then if is_present e then Page e else Missing else translate s r va')"
    and "p4_idx va < 256 \<Longrightarrow> r \<in> R \<Longrightarrow> r \<noteq> r0 \<Longrightarrow> leaf_table s r va \<noteq> leaf_table s r0 va"
    and "tabs R s' = tabs R s"
proof -
  let ?q = "[p4_idx va, p3_idx va, p2_idx va]"
  note D = spaces_okD [OF ok]
  have w: "walk (vm_tables s) r0 ?q = Some t" using r0(2) by (simp add: leaf_table_def)
  have up: "walk (vm_tables s) r p \<noteq> Some t" if "r \<in> R" "length p < 3" for r p
    using D(3) [OF that(1) r0(1), of p ?q t] that(2) w by (auto simp: same_place_def)
  have same: "q = ?q \<and> (r = r0 \<or> 256 \<le> p4_idx va)" if "r \<in> R" "length q = 3" "walk (vm_tables s) r q = Some t" for r q
    using D(3) [OF that(1) r0(1) _ _ that(3) w] that(2) by (auto simp: same_place_def)
  have W: "walk (vm_tables s') r q = walk (vm_tables s) r q" if "r \<in> R" "length q \<le> 3" for r q
    using walk_put [OF up [OF that(1)] that(2)] by (simp add: s'_def)
  have se: "sealed (vm_tables s') u" if "r \<in> R" "length q \<le> 2" "walk (vm_tables s) r q = Some u" "sealed (vm_tables s) u" for r q u
  proof -
    have "u \<noteq> t" using up [of r q] that by auto
    then have "vm_tables s' u = vm_tables s u" by (simp add: s'_def put_other)
    from sealed_cong [of "vm_tables s'" u "vm_tables s", OF this] that(4) show ?thesis by simp
  qed
  show "spaces_ok R s'"
  proof (rule spaces_same [OF ok _ W])
    fix r q u assume "r \<in> R" "length q = 2" "walk (vm_tables s) r q = Some u" "sealed (vm_tables s) u"
    then show "sealed (vm_tables s') u" using se [of r q u] by simp
  qed (simp_all add: s'_def)
  show "keeps R s s'" unfolding keeps_def using W se by simp
  show "tabs R s' = tabs R s" by (rule tabs_same [OF W])
  show "leaf_table s' r va' = leaf_table s r va'" if "r \<in> R"
    unfolding leaf_table_def by (rule W [OF that]) simp
  show "leaf_table s r va \<noteq> leaf_table s r0 va" if "p4_idx va < 256" "r \<in> R" "r \<noteq> r0"
    using same [OF that(2), of ?q] that w by (auto simp: leaf_table_def)
  show "translate s' r va' = (if indices va' = indices va \<and> leaf_table s r va = leaf_table s r0 va
       then if is_present e then Page e else Missing else translate s r va')" if r: "r \<in> R"
  proof -
    have "walk (vm_tables s) r [p4_idx va', p3_idx va', p2_idx va'] = Some t \<and> p1_idx va' = p1_idx va
        \<longleftrightarrow> indices va' = indices va \<and> leaf_table s r va = leaf_table s r0 va"
      using same [OF r, of "[p4_idx va', p3_idx va', p2_idx va']"] w by (auto simp: indices_def leaf_table_def)
    then show ?thesis unfolding translate_def
      using xlate_put [OF up [OF r]] by (simp add: s'_def indices_def)
  qed
qed

lemma query_translate:
  "query_page_in r va s = (case translate s r va of
     Missing \<Rightarrow> None | Page e \<Rightarrow> Some (pte_address e) | HugePage _ \<Rightarrow> query_page_in r va s)"
  by (auto simp: query_page_in_def walk_existing_def follow_def translate_def indices_def split: xlation.splits if_splits)

lemma walk_existing_leaf:
  assumes "\<nexists>e. translate s r va = HugePage e"
  shows "walk_existing (vm_tables s) r va = map_option (\<lambda>t. (t, p1_idx va)) (leaf_table s r va)"
  using assms by (auto simp: walk_existing_def follow_def translate_def indices_def leaf_table_def child_def split: if_splits)

lemma set_entry_present: "bit flags 0 \<Longrightarrow> is_present (pte_set pa flags)"
  by (simp add: present_bit pte_set_def bit_or_iff)

lemma map_page_in_cases:
  assumes ok: "spaces_ok R s" and r: "pml4 \<in> R"
  obtains s1 t where "extends R 3 s s1" "leaf_table s1 pml4 va = Some t"
      "map_page_in pml4 va pa flags s
         = (Ok (), s1\<lparr>vm_tables := put_entry t (p1_idx va) (pte_set pa flags) (vm_tables s1)\<rparr>)"
  | s' e where "map_page_in pml4 va pa flags s = (Panic, s')" "translate s pml4 va = HugePage e"
  | s' where "map_page_in pml4 va pa flags s = (Panic, s')" "card (free_set (vm_pmm s)) < 3"
proof -
  note d = map_page_in_def bindS_def set_entry_def modS_def
  from walk_or_create_spec [OF ok r, of va "flags AND push_bit 2 1 \<noteq> 0"] show ?thesis
  proof cases
    case (1 t s1)
    then show ?thesis by (intro that(1)) (simp_all add: d leaf_table_def del: push_bit_of_1)
  next
    case (2 s' e)
    then show ?thesis by (intro that(2)) (simp_all add: d del: push_bit_of_1)
  next
    case (3 s')
    then show ?thesis by (intro that(3)) (simp_all add: d del: push_bit_of_1)
  qed
qed

lemma map_page_in_effect:
  assumes ok: "spaces_ok R s" and r: "pml4 \<in> R" and m: "map_page_in pml4 va pa flags s = (Ok (), s')" and f: "bit flags 0"
  shows "spaces_ok R s'" "keeps R s s'" "pml4_phys s' = pml4_phys s" "free_set (vm_pmm s') \<subseteq> free_set (vm_pmm s)"
    "card (free_set (vm_pmm s)) \<le> card (free_set (vm_pmm s')) + 3"
    "r \<in> R \<Longrightarrow> translate s' r va' = (if indices va' = indices va \<and> leaf_table s' r va = leaf_table s' pml4 va
       then Page (pte_set pa flags) else translate s r va')"
    "p4_idx va < 256 \<Longrightarrow> r \<in> R \<Longrightarrow> r \<noteq> pml4 \<Longrightarrow> leaf_table s' r va \<noteq> leaf_table s' pml4 va"
    "tabs R s' \<subseteq> tabs R s \<union> {t. \<not> owned_frame (vm_pmm s) t}"
proof -
  obtain s1 t where x: "extends R 3 s s1" "leaf_table s1 pml4 va = Some t"
    and s': "s' = s1\<lparr>vm_tables := put_entry t (p1_idx va) (pte_set pa flags) (vm_tables s1)\<rparr>"
    using map_page_in_cases [OF ok r, of va pa flags] m by (metis prod.inject res.distinct(3))
  note L = spaces_leaf(1,3,4) [OF extends_ok [OF x(1)] r x(2), where e = "pte_set pa flags", folded s']
    spaces_leaf(5) [OF extends_ok [OF x(1)] r x(2)]
  show "spaces_ok R s'" by (rule L(1))
  show "keeps R s s'"
    using keeps_trans spaces_leaf(2) [OF extends_ok [OF x(1)] r x(2), where e = "pte_set pa flags", folded s'] x(1)
    by (auto simp: extends_def)
  show "tabs R s' \<subseteq> tabs R s \<union> {t. \<not> owned_frame (vm_pmm s) t}"
    using spaces_leaf(6) [OF extends_ok [OF x(1)] r x(2), where e = "pte_set pa flags", folded s'] x(1) by (simp add: extends_def)
  show "pml4_phys s' = pml4_phys s" "free_set (vm_pmm s') \<subseteq> free_set (vm_pmm s)"
    "card (free_set (vm_pmm s)) \<le> card (free_set (vm_pmm s')) + 3" using x(1) by (simp_all add: s' extends_def)
  show "translate s' r va' = (if indices va' = indices va \<and> leaf_table s' r va = leaf_table s' pml4 va
       then Page (pte_set pa flags) else translate s r va')" if "r \<in> R"
    unfolding L(3) [OF that] L(2) [OF that] L(2) [OF r] extends_translate [OF x(1) that] using set_entry_present [OF f] by simp
  show "leaf_table s' r va \<noteq> leaf_table s' pml4 va" if "p4_idx va < 256" "r \<in> R" "r \<noteq> pml4"
    unfolding L(2) [OF that(2)] L(2) [OF r] by (rule L(4) [OF that])
qed

text \<open>
  C6. Mapping a page in one address space makes that page, and no other page of that address space, translate to the
  given frame; every address space that does not use the same last-level table keeps all its translations, which for a
  page of the lower half is every other address space.  The operation panics only on a huge page or when fewer than the
  three frames it may need are free, and it keeps the tables of all address spaces disjoint.
\<close>
theorem map_page_isolated:
  assumes "spaces_ok R s" "pml4 \<in> R" "bit flags 0"
  shows "case map_page_in pml4 va pa flags s of
      (Ok _, s') \<Rightarrow> spaces_ok R s'
        \<and> (\<forall>r\<in>R. \<forall>va'. translate s' r va' =
              (if indices va' = indices va \<and> leaf_table s' r va = leaf_table s' pml4 va
               then Page (pte_set pa flags) else translate s r va'))
        \<and> (p4_idx va < 256 \<longrightarrow> (\<forall>r\<in>R - {pml4}. \<forall>va'. translate s' r va' = translate s r va'))
    | (Err _, _) \<Rightarrow> False
    | (Panic, _) \<Rightarrow> (\<exists>e. translate s pml4 va = HugePage e) \<or> card (free_set (vm_pmm s)) < 3"
proof -
  from map_page_in_cases [OF assms(1,2), of va pa flags] show ?thesis
  proof cases
    case (1 s1 t)
    note E = map_page_in_effect [OF assms(1,2) 1(3) assms(3)]
    show ?thesis unfolding 1(3) using E(1,6,7) by auto
  qed auto
qed

lemma unmap_page_in_effect:
  assumes ok: "spaces_ok R s" and r: "pml4 \<in> R" and h: "\<nexists>e. translate s pml4 va = HugePage e"
    and u: "unmap_page_in pml4 va s = (got, s')"
  shows "got = query_page_in pml4 va s" "translate s' pml4 va = Missing" "spaces_ok R s'" "vm_pmm s' = vm_pmm s"
    "pml4_phys s' = pml4_phys s" "got = None \<Longrightarrow> s' = s"
    "r \<in> R \<Longrightarrow> indices va' \<noteq> indices va \<or> r \<noteq> pml4 \<and> p4_idx va < 256 \<Longrightarrow> translate s' r va' = translate s r va'"
    "keeps R s s'" "tabs R s' = tabs R s"
proof -
  note w = walk_existing_leaf [OF h]
  show "got = query_page_in pml4 va s" "vm_pmm s' = vm_pmm s" "pml4_phys s' = pml4_phys s" "got = None \<Longrightarrow> s' = s"
    using u by (auto simp: unmap_page_in_def query_page_in_def split: option.splits prod.splits if_splits)
  consider (no) "s' = s" "query_page_in pml4 va s = None"
    | (yes) t where "leaf_table s pml4 va = Some t" "s' = s\<lparr>vm_tables := put_entry t (p1_idx va) 0 (vm_tables s)\<rparr>"
    using u w by (auto simp: unmap_page_in_def query_page_in_def split: option.splits prod.splits if_splits)
  then have "translate s' pml4 va = Missing \<and> spaces_ok R s' \<and> keeps R s s' \<and> tabs R s' = tabs R s \<and> (\<forall>r\<in>R. \<forall>va'. indices va' \<noteq> indices va
      \<or> r \<noteq> pml4 \<and> p4_idx va < 256 \<longrightarrow> translate s' r va' = translate s r va')"
  proof cases
    case no
    then show ?thesis using query_translate [of pml4 va s] h ok by (cases "translate s pml4 va") (auto simp: keeps_def)
  next
    case (yes t)
    note L = spaces_leaf(1,2,4,6) [OF ok r yes(1), where e = 0, folded yes(2)] spaces_leaf(5) [OF ok r yes(1)]
    show ?thesis using L(1,2,4) L(3) [OF r] L(3,5) by auto
  qed
  then show "translate s' pml4 va = Missing" "spaces_ok R s'"
    "r \<in> R \<Longrightarrow> indices va' \<noteq> indices va \<or> r \<noteq> pml4 \<and> p4_idx va < 256 \<Longrightarrow> translate s' r va' = translate s r va'"
    "keeps R s s'" "tabs R s' = tabs R s" by blast+
qed

text \<open>
  C24. Outside the huge pages, unmapping a page returns the frame that a query for it returned before, the page is
  missing afterwards, and no other translation of the address space changes; an address space with its own tables is
  not affected.  A page that is not mapped is left alone.
\<close>
theorem unmap_page_spec:
  assumes "spaces_ok R s" "pml4 \<in> R" "\<nexists>e. translate s pml4 va = HugePage e"
    and "unmap_page_in pml4 va s = (got, s')"
  shows "got = query_page_in pml4 va s \<and> query_page_in pml4 va s' = None \<and> spaces_ok R s' \<and> (got = None \<longrightarrow> s' = s)
    \<and> (\<forall>r\<in>R. \<forall>va'. indices va' \<noteq> indices va \<or> r \<noteq> pml4 \<and> p4_idx va < 256 \<longrightarrow> translate s' r va' = translate s r va')"
  using unmap_page_in_effect [OF assms] query_translate [of pml4 va s'] by auto

section \<open>Creating address spaces\<close>

text \<open>A table that was just taken from the frame allocator is not reached from anywhere.\<close>

lemma alloc_table_cases:
  assumes "pmm_ok (vm_pmm s)"
  obtains "alloc_table s = (Panic, s)" "free_set (vm_pmm s) = {}"
  | t p where "alloc_table s = (Ok t, s\<lparr>vm_pmm := p, vm_tables := (vm_tables s)(t := (\<lambda>_. 0))\<rparr>)" "pmm_ok p"
      "owned_frame p t" "\<not> owned_frame (vm_pmm s) t" "\<And>u. owned_frame p u \<longleftrightarrow> owned_frame (vm_pmm s) u \<or> u = t"
      "card (free_set (vm_pmm s)) = card (free_set p) + 1"
  using assms
proof (cases rule: alloc_frame_cases)
  case 1
  then show ?thesis by (intro that(1)) (simp_all add: alloc_table_def)
next
  case (2 f p)
  define t :: u64 where "t = of_nat (4096 * f)"
  have f: "f < MAX_FRAMES" using 2(2) by (simp add: free_set_def)
  have iff: "owned_frame p u \<longleftrightarrow> owned_frame (vm_pmm s) u \<or> u = t" for u
    using f 2(2,4) frame_inj [of f] unfolding owned_frame_def t_def by (auto simp del: of_nat_mult)
  have un: "\<not> owned_frame (vm_pmm s) t" using f 2(2) frame_inj [of f] unfolding owned_frame_def t_def by blast
  have "alloc_table s = (Ok t, s\<lparr>vm_pmm := p, vm_tables := (vm_tables s)(t := (\<lambda>_. 0))\<rparr>)"
    using 2(1) by (simp add: alloc_table_def t_def del: of_nat_mult)
  moreover have "card (free_set (vm_pmm s)) = card (free_set p) + 1"
    using 2(2,4) card_Suc_Diff1 [of "free_set (vm_pmm s)" f] by simp
  ultimately show ?thesis using iff un 2(5) by (intro that(2)) auto
qed

lemma walk_other:
  assumes "\<And>q t. length q \<le> n \<Longrightarrow> walk m r q = Some t \<Longrightarrow> m' t = m t" "length q \<le> n + 1"
  shows "walk m' r q = walk m r q"
  using assms(2)
proof (induction q rule: rev_induct)
  case (snoc i q)
  then show ?case using assms(1) [of q] by (cases "walk m r q") (auto simp: walk_snoc child_def)
qed simp

lemma xlate_other:
  assumes "\<And>q t. length q \<le> 3 \<Longrightarrow> walk (vm_tables s) r q = Some t \<Longrightarrow> vm_tables s' t = vm_tables s t"
  shows "translate s' r va = translate s r va"
  by (rule translate_alike) (use assms in simp)

lemma copy_loop:
  "pml4_phys s \<noteq> p4 \<Longrightarrow> forS is (\<lambda>i. bindS (getS (\<lambda>s. vm_tables s (pml4_phys s) i)) (set_entry p4 i)) s
    = (Ok (), s\<lparr>vm_tables := (vm_tables s)(p4 := (\<lambda>i. if i \<in> set is then vm_tables s (pml4_phys s) i else vm_tables s p4 i))\<rparr>)"
proof (induction "is" arbitrary: s)
  case (Cons i "is")
  let ?c = "\<lambda>i. bindS (getS (\<lambda>s. vm_tables s (pml4_phys s) i)) (set_entry p4 i)"
  let ?s1 = "s\<lparr>vm_tables := (vm_tables s)(p4 := (vm_tables s p4)(i := vm_tables s (pml4_phys s) i))\<rparr>"
  have st: "?c i s = (Ok (), ?s1)" by (simp add: sm_defs set_entry_def put_entry_def)
  have IH: "forS is ?c ?s1 = (Ok (), ?s1\<lparr>vm_tables := (vm_tables ?s1)(p4 :=
      (\<lambda>j. if j \<in> set is then vm_tables ?s1 (pml4_phys ?s1) j else vm_tables ?s1 p4 j))\<rparr>)"
    by (rule Cons.IH) (use Cons.prems in simp)
  have E: "(vm_tables ?s1)(p4 := (\<lambda>j. if j \<in> set is then vm_tables ?s1 (pml4_phys ?s1) j else vm_tables ?s1 p4 j))
      = (vm_tables s)(p4 := (\<lambda>j. if j \<in> set (i # is) then vm_tables s (pml4_phys s) j else vm_tables s p4 j))"
    using Cons.prems by (auto simp: fun_eq_iff)
  have "forS (i # is) ?c s = forS is ?c ?s1" unfolding forS.simps bindS_def [of "?c i"] st by simp
  moreover have "?s1\<lparr>vm_tables := m\<rparr> = s\<lparr>vm_tables := m\<rparr>" for m by simp
  ultimately show ?case unfolding IH E by (simp only: prod.inject)
qed (simp add: sm_defs)

definition kernel_half :: "u64 \<Rightarrow> bool" where
  "kernel_half va \<longleftrightarrow> 256 \<le> p4_idx va"

text \<open>The tables of a new address space, over those of the kernel.\<close>

definition new_space :: "tables \<Rightarrow> u64 \<Rightarrow> u64 \<Rightarrow> u64 \<Rightarrow> u64 \<Rightarrow> tables" where
  "new_space m k p2 p3 p4 = m(p3 := (\<lambda>i. if i = 0 then pte_table p2 else 0),
     p4 := (\<lambda>i. if i = 0 then p3 OR 7 else if 256 \<le> i \<and> i < 512 then m k i else 0))"

lemma create_cases:
  assumes ok: "spaces_ok R s" and k: "pml4_phys s \<in> R"
    and p2: "p2 = pte_address (vm_tables s (pte_address (vm_tables s (pml4_phys s) 0)) 0)"
  obtains s' where "create_user_page_table s = (Panic, s')" "card (free_set (vm_pmm s)) < 2"
  | p3 p4 p where "create_user_page_table s
        = (Ok p4, s\<lparr>vm_pmm := p, vm_tables := new_space (vm_tables s) (pml4_phys s) p2 p3 p4\<rparr>)"
      "pmm_ok p" "p3 \<noteq> p4" "\<not> owned_frame (vm_pmm s) p3" "\<not> owned_frame (vm_pmm s) p4"
      "\<And>u. owned_frame p u \<longleftrightarrow> owned_frame (vm_pmm s) u \<or> u = p3 \<or> u = p4"
      "card (free_set (vm_pmm s)) = card (free_set p) + 2"
proof -
  note D = spaces_okD [OF ok]
  have ko: "owned_frame (vm_pmm s) (pml4_phys s)" by (rule D(2) [OF k, of "[]"]) simp_all
  have e0: "getS (\<lambda>s. pte_address (vm_tables s (pte_address (vm_tables s (pml4_phys s) 0)) 0)) s = (Ok p2, s)"
    by (simp add: getS_def p2)
  from D(1) show ?thesis
  proof (cases rule: alloc_table_cases)
    case 1
    then show ?thesis
      by (intro that(1)) (simp_all add: create_user_page_table_def bindS_def getS_def)
  next
    case a: (2 p3 q)
    let ?m1 = "put_entry p3 0 (pte_table p2) ((vm_tables s)(p3 := (\<lambda>_. 0)))"
    let ?s1 = "s\<lparr>vm_pmm := q, vm_tables := ?m1\<rparr>"
    have e1: "set_entry p3 0 (pte_table p2) (s\<lparr>vm_pmm := q, vm_tables := (vm_tables s)(p3 := (\<lambda>_. 0))\<rparr>) = (Ok (), ?s1)"
      by (simp add: set_entry_def modS_def)
    note e = e0 a(1) e1
    have "pmm_ok (vm_pmm ?s1)" using a(2) by simp
    then show ?thesis
    proof (cases rule: alloc_table_cases)
      case 1
      have "create_user_page_table s = (Panic, ?s1)"
        by (simp only: create_user_page_table_def bindS_def e 1(1) prod.case res.case)
      then show ?thesis using a(6) 1(2) by (intro that(1)) simp_all
    next
      case b: (2 p4 p)
      let ?s2 = "?s1\<lparr>vm_pmm := p, vm_tables := (vm_tables ?s1)(p4 := (\<lambda>_. 0))\<rparr>"
      let ?s3 = "?s2\<lparr>vm_tables := put_entry p4 0 (p3 OR 7) (vm_tables ?s2)\<rparr>"
      have n: "p3 \<noteq> p4" "pml4_phys s \<noteq> p4" "pml4_phys s \<noteq> p3" using a b ko by auto
      have e2: "set_entry p4 0 (p3 OR 7) ?s2 = (Ok (), ?s3)" by (simp add: set_entry_def modS_def)
      have e3: "pml4_phys ?s3 \<noteq> p4" using n(2) by simp
      have "create_user_page_table s = (Ok p4, ?s3\<lparr>vm_tables := (vm_tables ?s3)(p4 :=
          (\<lambda>i. if i \<in> set [256..<512] then vm_tables ?s3 (pml4_phys ?s3) i else vm_tables ?s3 p4 i))\<rparr>)"
        by (simp only: create_user_page_table_def bindS_def e b(1) e2 copy_loop [OF e3] retS_def prod.case res.case)
      also have "(vm_tables ?s3)(p4 := (\<lambda>i. if i \<in> set [256..<512] then vm_tables ?s3 (pml4_phys ?s3) i else vm_tables ?s3 p4 i))
          = new_space (vm_tables s) (pml4_phys s) p2 p3 p4"
        unfolding new_space_def set_upt atLeastLessThan_iff using n by (auto simp: put_entry_def fun_eq_iff)
      finally have "create_user_page_table s
          = (Ok p4, s\<lparr>vm_pmm := p, vm_tables := new_space (vm_tables s) (pml4_phys s) p2 p3 p4\<rparr>)" by simp
      moreover have "\<not> owned_frame (vm_pmm s) p4" "owned_frame p u \<longleftrightarrow> owned_frame (vm_pmm s) u \<or> u = p3 \<or> u = p4" for u
        using a(5) b(4,5) by auto
      moreover have "card (free_set (vm_pmm s)) = card (free_set p) + 2" using a(6) b(6) by simp
      ultimately show ?thesis using a(4) b(2) n(1) by (intro that(2))
    qed
  qed
qed

text \<open>The identity map: its directory is reached from the kernel at \<open>[0, 0]\<close> and holds huge pages only.\<close>

definition identity_ok :: "vmm \<Rightarrow> bool" where
  "identity_ok s \<longleftrightarrow> (\<exists>p2. walk (vm_tables s) (pml4_phys s) [0, 0] = Some p2 \<and> sealed (vm_tables s) p2)"

lemma identity_okD:
  assumes "identity_ok s"
  shows "walk (vm_tables s) (pml4_phys s) [0, 0] = Some (pte_address (vm_tables s (pte_address (vm_tables s (pml4_phys s) 0)) 0))"
    "sealed (vm_tables s) (pte_address (vm_tables s (pte_address (vm_tables s (pml4_phys s) 0)) 0))"
  using assms by (auto simp: identity_ok_def child_def split: if_splits)

lemma new_space_walk:
  assumes ok: "spaces_ok R s" and k: "k = pml4_phys s" "k \<in> R" and p2: "walk (vm_tables s) k [0, 0] = Some p2" "sealed (vm_tables s) p2"
    and n: "p3 \<noteq> p4" "\<not> owned_frame (vm_pmm s) p3" "\<not> owned_frame (vm_pmm s) p4" "frame_addr p3"
  defines "m' \<equiv> new_space (vm_tables s) k p2 p3 p4"
  shows "r \<in> R \<Longrightarrow> length q \<le> 3 \<Longrightarrow> walk (vm_tables s) r q = Some t \<Longrightarrow> m' t = vm_tables s t"
    and "r \<in> R \<Longrightarrow> length q \<le> 3 \<Longrightarrow> walk m' r q = walk (vm_tables s) r q"
    and "length q \<le> 3 \<Longrightarrow> walk m' p4 q = (case q of [] \<Rightarrow> Some p4 | i # q' \<Rightarrow>
       if i = 0 then case q' of [] \<Rightarrow> Some p3 | j # q'' \<Rightarrow> if j = 0 \<and> q'' = [] then Some p2 else None
       else if 256 \<le> i \<and> i < 512 then walk (vm_tables s) k q else None)"
proof -
  note D = spaces_okD [OF ok]
  show old: "m' t = vm_tables s t" if "r \<in> R" "length q \<le> 3" "walk (vm_tables s) r q = Some t" for r q t
  proof -
    have "t \<noteq> p3" "t \<noteq> p4" using D(2) [OF that] n by auto
    then show ?thesis by (simp add: m'_def new_space_def)
  qed
  show W: "walk m' r q = walk (vm_tables s) r q" if "r \<in> R" "length q \<le> 3" for r q
  proof (rule walk_other [of 2])
    fix q t assume "length q \<le> 2" "walk (vm_tables s) r q = Some t"
    then show "m' t = vm_tables s t" using old [OF that(1), of q t] by simp
  qed (use that in simp)
  have o2: "frame_addr p2" by (rule owned_frame_addr [OF D(2) [OF k(2) _ p2(1)]]) simp
  have m2: "m' p2 = vm_tables s p2" by (rule old [OF k(2) _ p2(1)]) simp
  have c2: "child m' p2 i = None" for i using p2(2) by (simp add: child_def m2 sealed_def)
  have c3: "child m' p3 i = (if i = 0 then Some p2 else None)" for i
    using table_entry [OF o2] n(1) by (simp add: child_def m'_def new_space_def)
  have c4: "child m' p4 i = (if i = 0 then Some p3 else if 256 \<le> i \<and> i < 512 then child m' k i else None)" for i
  proof -
    have "m' k = vm_tables s k" by (rule old [OF k(2), of "[]"]) simp_all
    then have "child m' k i = child (vm_tables s) k i" by (simp add: child_def)
    then show ?thesis using table_entry [OF n(4)] n(1) by (simp add: child_def m'_def new_space_def)
  qed
  show "walk m' p4 q = (case q of [] \<Rightarrow> Some p4 | i # q' \<Rightarrow>
       if i = 0 then case q' of [] \<Rightarrow> Some p3 | j # q'' \<Rightarrow> if j = 0 \<and> q'' = [] then Some p2 else None
       else if 256 \<le> i \<and> i < 512 then walk (vm_tables s) k q else None)" if q: "length q \<le> 3"
  proof (cases q)
    case (Cons i q')
    have "walk m' k q = walk (vm_tables s) k q" by (rule W [OF k(2) q])
    moreover have "walk m' p3 q' = (case q' of [] \<Rightarrow> Some p3 | j # q'' \<Rightarrow> if j = 0 \<and> q'' = [] then Some p2 else None)"
      by (auto simp: c3 c2 split: list.splits) (metis c2 bind.bind_lzero list.exhaust walk.simps(2))+
    ultimately show ?thesis by (simp add: Cons c4)
  qed simp
qed

lemma new_space_ok:
  assumes ok: "spaces_ok R s" and k: "k = pml4_phys s" "k \<in> R" and p2: "walk (vm_tables s) k [0, 0] = Some p2" "sealed (vm_tables s) p2"
    and n: "p3 \<noteq> p4" "\<not> owned_frame (vm_pmm s) p3" "\<not> owned_frame (vm_pmm s) p4"
    and p: "pmm_ok p" "\<And>u. owned_frame p u \<longleftrightarrow> owned_frame (vm_pmm s) u \<or> u = p3 \<or> u = p4"
  defines "s' \<equiv> s\<lparr>vm_pmm := p, vm_tables := new_space (vm_tables s) k p2 p3 p4\<rparr>"
  shows "spaces_ok (insert p4 R) s'"
proof -
  note D = spaces_okD [OF ok]
  have fa: "frame_addr p3" by (rule owned_frame_addr [of p]) (simp add: p(2))
  note N = new_space_walk [OF ok k p2 n fa]
  let ?m = "vm_tables s" and ?m' = "vm_tables s'"
  have m': "?m' = new_space ?m k p2 p3 p4" by (simp add: s'_def)
  have old: "walk ?m' r q = walk ?m r q" if "r \<in> R" "length q \<le> 3" for r q unfolding m' by (rule N(2) [OF that])
  have rn: "walk ?m r q \<noteq> Some p3 \<and> walk ?m r q \<noteq> Some p4" if "r \<in> R" "length q \<le> 3" for r q
    using D(2) [OF that] n by auto
  have p4R: "p4 \<notin> R" using rn [of p4 "[]"] by auto
  have se: "sealed ?m' t" if "r \<in> R" "length q \<le> 3" "walk ?m r q = Some t" "sealed ?m t" for r q t
    using sealed_cong [of ?m' t ?m] N(1) [OF that(1,2,3)] that(4) m' by simp
  have new: "q = [] \<and> t = p4 \<or> q = [0] \<and> t = p3 \<or> walk ?m k q = Some t \<and> (q = [0, 0] \<and> t = p2 \<or> q \<noteq> [] \<and> 256 \<le> hd q)"
    if "length q \<le> 3" "walk ?m' p4 q = Some t" for q t
    using that N(3) [OF that(1)] p2(1) unfolding m' by (auto split: list.splits if_splits)
  have own: "owned_frame p t" if "r \<in> insert p4 R" "length q \<le> 3" "walk ?m' r q = Some t" for r q t
  proof (cases "r = p4")
    case True
    then show ?thesis using new that(2,3) D(2) [OF k(2) that(2)] p(2) by auto
  next
    case False
    then show ?thesis using that old D(2) p(2) by (metis insertE)
  qed
  have x: "same_place p4 q r' q' \<or> length q = 2 \<and> length q' = 2 \<and> sealed ?m' t"
    if a: "length q \<le> 3" "walk ?m' p4 q = Some t" and b: "r' \<in> R" "length q' \<le> 3" "walk ?m' r' q' = Some t" for q r' q' t
  proof -
    have b': "walk ?m r' q' = Some t" using b(3) old [OF b(1,2)] by simp
    then have kq: "walk ?m k q = Some t" "q = [0, 0] \<and> t = p2 \<or> q \<noteq> [] \<and> 256 \<le> hd q"
      using new [OF a] rn [OF b(1,2)] by auto
    from D(3) [OF k(2) b(1) a(1) b(2) kq(1) b'] se [OF k(2) a(1) kq(1)] kq(2) p2(2)
    show ?thesis by (auto simp: same_place_def)
  qed
  have y: "same_place p4 q p4 q' \<or> length q = 2 \<and> length q' = 2 \<and> sealed ?m' t"
    if a: "length q \<le> 3" "walk ?m' p4 q = Some t" and b: "length q' \<le> 3" "walk ?m' p4 q' = Some t" for q q' t
    using new [OF a] new [OF b] rn [OF k(2) a(1)] rn [OF k(2) b(1)] D(3) [OF k(2) k(2) a(1) b(1)] se [OF k(2) a(1)] n(1)
    by (auto simp: same_place_def)
  show ?thesis unfolding spaces_ok_def
  proof (intro conjI ballI allI impI, goal_cases)
    case 1 then show ?case using p(1) by (simp add: s'_def)
  next
    case (2 r q t) then show ?case using own by (simp add: s'_def)
  next
    case (3 r r' q q' t)
    show ?case
    proof (cases "r = p4"; cases "r' = p4")
      assume "r = p4" "r' = p4" then show ?thesis using y 3 by blast
    next
      assume "r = p4" "r' \<noteq> p4" then show ?thesis using x 3 by blast
    next
      assume "r \<noteq> p4" "r' = p4"
      then show ?thesis using x [of q' t r q] 3 by (auto simp: same_place_def)
    next
      assume "r \<noteq> p4" "r' \<noteq> p4"
      then have "r \<in> R" "r' \<in> R" using 3 by auto
      then show ?thesis using D(3) [of r r' q q' t] old 3 se by metis
    qed
  qed
qed

lemma new_space_translate:
  fixes p :: pmm
  assumes ok: "spaces_ok R s" and k: "k = pml4_phys s" "k \<in> R" and p2: "walk (vm_tables s) k [0, 0] = Some p2" "sealed (vm_tables s) p2"
    and n: "p3 \<noteq> p4" "\<not> owned_frame (vm_pmm s) p3" "\<not> owned_frame (vm_pmm s) p4" "frame_addr p3"
  defines "s' \<equiv> s\<lparr>vm_pmm := p, vm_tables := new_space (vm_tables s) k p2 p3 p4\<rparr>"
  shows "r \<in> R \<Longrightarrow> translate s' r va = translate s r va"
    and "translate s' p4 va =
      (if kernel_half va \<or> p4_idx va = 0 \<and> p3_idx va = 0 then translate s k va else Missing)"
proof -
  note N = new_space_walk [OF ok k p2 n]
  let ?m' = "vm_tables s'"
  have m': "?m' = new_space (vm_tables s) k p2 p3 p4" by (simp add: s'_def)
  show old: "translate s' r va = translate s r va" if "r \<in> R" for r
  proof (rule xlate_other)
    fix q t assume "length q \<le> 3" "walk (vm_tables s) r q = Some t"
    then show "?m' t = vm_tables s t" unfolding m' by (rule N(1) [OF that])
  qed
  have mk: "?m' k = vm_tables s k" unfolding m' by (rule N(1) [OF k(2), of "[]"]) simp_all
  have m2: "?m' p2 = vm_tables s p2" unfolding m' by (rule N(1) [OF k(2) _ p2(1)]) simp
  show "translate s' p4 va = (if kernel_half va \<or> p4_idx va = 0 \<and> p3_idx va = 0 then translate s k va else Missing)"
  proof (cases "kernel_half va")
    case True
    then have "?m' p4 (p4_idx va) = ?m' k (p4_idx va)"
      using idx_bound(1) [of va] mk by (simp add: m' new_space_def kernel_half_def)
    then have "translate s' p4 va = translate s' k va" by (simp add: translate_def indices_def)
    then show ?thesis using old [OF k(2)] True by simp
  next
    case False
    show ?thesis
    proof (cases "p4_idx va = 0 \<and> p3_idx va = 0")
      case z: True
      have w: "walk ?m' p4 [0, 0] = Some p2" using N(3) [of "[0, 0]"] unfolding m' by simp
      have "xlate ?m' p4 ([0, 0] @ [p2_idx va, p1_idx va]) = xlate (vm_tables s) k ([0, 0] @ [p2_idx va, p1_idx va])"
        unfolding xlate_walk [OF w list.distinct(2)] xlate_walk [OF p2(1) list.distinct(2)]
        using p2(2) idx_bound(3) [of va] by (simp add: m2 sealed_def)
      then show ?thesis using z by (simp add: translate_def indices_def)
    next
      case z: False
      have e: "?m' p4 (p4_idx va) = (if p4_idx va = 0 then p3 OR 7 else 0)" "?m' p3 (p3_idx va) = (if p3_idx va = 0 then pte_table p2 else 0)"
        using False n(1) by (simp_all add: m' new_space_def kernel_half_def)
      show ?thesis
      proof (cases "p4_idx va = 0")
        case True
        then have "p3_idx va \<noteq> 0" using z by simp
        then show ?thesis using e True False table_entry(4-6) [OF n(4)] by (simp add: translate_def indices_def)
      next
        case c: False
        then show ?thesis using e(1) False by (simp add: translate_def indices_def)
      qed
    qed
  qed
qed

lemma create_spec:
  assumes "spaces_ok R s" "pml4_phys s \<in> R" "identity_ok s"
  shows "case create_user_page_table s of
      (Ok p4, s') \<Rightarrow> p4 \<notin> R \<and> spaces_ok (insert p4 R) s' \<and> identity_ok s'
        \<and> card (free_set (vm_pmm s)) = card (free_set (vm_pmm s')) + 2
        \<and> (\<forall>r\<in>R. \<forall>va. translate s' r va = translate s r va)
        \<and> (\<forall>va. translate s' p4 va =
             (if kernel_half va \<or> p4_idx va = 0 \<and> p3_idx va = 0 then translate s (pml4_phys s) va else Missing))
    | (Err _, _) \<Rightarrow> False
    | (Panic, _) \<Rightarrow> card (free_set (vm_pmm s)) < 2"
proof -
  note I = identity_okD [OF assms(3)]
  from create_cases [OF assms(1,2) refl] show ?thesis
  proof cases
    case 1
    then show ?thesis by simp
  next
    case (2 p3 p4 p)
    let ?s = "s\<lparr>vm_pmm := p, vm_tables := new_space (vm_tables s) (pml4_phys s)
      (pte_address (vm_tables s (pte_address (vm_tables s (pml4_phys s) 0)) 0)) p3 p4\<rparr>"
    have fa: "frame_addr p3" by (rule owned_frame_addr [of p]) (simp add: 2(6))
    have nr: "p4 \<notin> R" using spaces_okD(2) [OF assms(1), of p4 "[]"] 2(5) by auto
    have io: "identity_ok ?s"
    proof -
      note N = new_space_walk [OF assms(1) refl assms(2) I 2(3,4,5) fa]
      let ?p2 = "pte_address (vm_tables s (pte_address (vm_tables s (pml4_phys s) 0)) 0)"
      have l: "length [0, 0 :: nat] \<le> 3" by simp
      have ms: "vm_tables ?s = new_space (vm_tables s) (pml4_phys s) ?p2 p3 p4" "pml4_phys ?s = pml4_phys s" by simp_all
      have w: "walk (vm_tables ?s) (pml4_phys ?s) [0, 0] = Some ?p2"
        unfolding ms by (rule trans [OF N(2) [OF assms(2) l] I(1)])
      have "vm_tables ?s ?p2 = vm_tables s ?p2" unfolding ms by (rule N(1) [OF assms(2) l I(1)])
      from sealed_cong [of "vm_tables ?s" ?p2 "vm_tables s", OF this] I(2) have "sealed (vm_tables ?s) ?p2" by simp
      then show ?thesis unfolding identity_ok_def using w by blast
    qed
    note T = new_space_translate [OF assms(1) refl assms(2) I 2(3,4,5) fa, where p = p]
    have cf: "card (free_set (vm_pmm s)) = card (free_set (vm_pmm ?s)) + 2" using 2(7) by simp
    show ?thesis unfolding 2(1) prod.case res.case
      using nr io cf new_space_ok [OF assms(1) refl assms(2) I 2(3,4,5,2,6)] T by blast
  qed
qed

lemma create_effect:
  assumes "spaces_ok R s" "pml4_phys s \<in> R" "identity_ok s" "create_user_page_table s = (Ok p4, s')"
  shows "p4 \<notin> R" "spaces_ok (insert p4 R) s'" "identity_ok s'" "\<forall>r\<in>R. \<forall>va. translate s' r va = translate s r va"
  using create_spec [OF assms(1,2,3)] unfolding assms(4) by simp_all

text \<open>
  C15. A new address space has tables of its own: it shares the upper half and the identity map with the kernel and
  translates nothing else, no translation of an existing address space changes, and the tables of all address spaces,
  the new one included, stay disjoint.  It takes two frames, and panics only when fewer than two are free.
\<close>
theorem space_created:
  assumes "spaces_ok R s" "pml4_phys s \<in> R" "identity_ok s"
  shows "case create_user_page_table s of
      (Ok p4, s') \<Rightarrow> p4 \<notin> R \<and> spaces_ok (insert p4 R) s' \<and> identity_ok s'
        \<and> card (free_set (vm_pmm s)) = card (free_set (vm_pmm s')) + 2
        \<and> (\<forall>r\<in>R. \<forall>va. translate s' r va = translate s r va)
        \<and> (\<forall>va. translate s' p4 va =
             (if kernel_half va \<or> p4_idx va = 0 \<and> p3_idx va = 0 then translate s (pml4_phys s) va else Missing))
    | (Err _, _) \<Rightarrow> False
    | (Panic, _) \<Rightarrow> card (free_set (vm_pmm s)) < 2"
  by (rule create_spec [OF assms])

section \<open>The address space of the kernel\<close>

lemma set_loop:
  "forS is (\<lambda>i. set_entry t i (g i)) s
    = (Ok (), s\<lparr>vm_tables := (vm_tables s)(t := (\<lambda>i. if i \<in> set is then g i else vm_tables s t i))\<rparr>)"
proof (induction "is" arbitrary: s)
  case (Cons i "is")
  let ?s1 = "s\<lparr>vm_tables := put_entry t i (g i) (vm_tables s)\<rparr>"
  have st: "set_entry t i (g i) s = (Ok (), ?s1)" by (simp add: set_entry_def modS_def)
  have E: "(vm_tables ?s1)(t := (\<lambda>j. if j \<in> set is then g j else vm_tables ?s1 t j))
      = (vm_tables s)(t := (\<lambda>j. if j \<in> set (i # is) then g j else vm_tables s t j))"
    by (auto simp: fun_eq_iff put_entry_def)
  have "forS (i # is) (\<lambda>i. set_entry t i (g i)) s = forS is (\<lambda>i. set_entry t i (g i)) ?s1"
    unfolding forS.simps bindS_def st by simp
  moreover have "?s1\<lparr>vm_tables := m\<rparr> = s\<lparr>vm_tables := m\<rparr>" for m by simp
  ultimately show ?case unfolding Cons.IH E by (simp only: prod.inject)
qed (simp add: sm_defs)

definition huge_entry :: "nat \<Rightarrow> u64" where
  "huge_entry i = of_nat i * 2 * 1024 * 1024 OR 0x83"

lemma huge_entry: "is_present (huge_entry i)" "is_huge (huge_entry i)"
  by (simp_all add: present_bit huge_bit huge_entry_def bit_or_iff)

text \<open>A table that was just created gets its entries; without children the tree is the same.\<close>

lemma spaces_barren:
  assumes ok: "spaces_ok R s" and r0: "r0 \<in> R" "length q0 \<le> 2" "walk (vm_tables s) r0 q0 = Some t0" "vm_tables s t0 = (\<lambda>_. 0)"
    and e: "\<And>i. is_present (es i) \<Longrightarrow> is_huge (es i)"
  defines "s' \<equiv> s\<lparr>vm_tables := (vm_tables s)(t0 := es)\<rparr>"
  shows "spaces_ok R s'" "walk (vm_tables s') r q = walk (vm_tables s) r q"
proof -
  have c: "child (vm_tables s') t i = child (vm_tables s) t i" for t i
    using r0(4) e by (auto simp: s'_def child_def)
  show W: "walk (vm_tables s') r q = walk (vm_tables s) r q" for r q by (induction q arbitrary: r) (simp_all add: c)
  have "\<not> is_present (vm_tables s t0 0)" by (simp add: r0(4))
  then have ns: "\<not> sealed (vm_tables s) t0" unfolding sealed_def by (metis zero_less_numeral)
  show "spaces_ok R s'"
  proof (rule spaces_same [OF ok])
    fix r q t assume "sealed (vm_tables s) t"
    then have "t \<noteq> t0" using ns by blast
    then have "vm_tables s' t = vm_tables s t" by (simp add: s'_def)
    from sealed_cong [of "vm_tables s'" t "vm_tables s", OF this] \<open>sealed (vm_tables s) t\<close> show "sealed (vm_tables s') t" by simp
  qed (simp add: s'_def, rule W)
qed

lemma spaces_root:
  assumes "pmm_ok p" "owned_frame p t"
  shows "spaces_ok {t} \<lparr>vm_pmm = p, vm_tables = m(t := (\<lambda>_. 0)), pml4_phys = t\<rparr>"
proof -
  have "walk (m(t := (\<lambda>_. 0))) t q = (if q = [] then Some t else None)" for q by (cases q) (simp_all add: child_def)
  then show ?thesis using assms by (auto simp: spaces_ok_def same_place_def split: if_splits)
qed

lemma spaces_link:
  assumes ok: "spaces_ok R s" and r0: "r0 \<in> R" "length q0 = 1" "walk (vm_tables s) r0 q0 = Some t0" "vm_tables s t0 = (\<lambda>_. 0)"
    and r1: "r1 \<in> R" "length q1 = 2" "walk (vm_tables s) r1 q1 = Some p2" "sealed (vm_tables s) p2"
  defines "s' \<equiv> s\<lparr>vm_tables := put_entry t0 0 (pte_table p2) (vm_tables s)\<rparr>"
  shows "spaces_ok R s'" "keeps R s s'"
proof -
  let ?m = "vm_tables s" and ?m' = "vm_tables s'"
  note D = spaces_okD [OF ok]
  have fa: "frame_addr p2" by (rule owned_frame_addr [OF D(2) [OF r1(1) _ r1(3)]]) (simp add: r1(2))
  have np: "\<not> is_present (?m t0 0)" by (simp add: r0(4))
  then have ns: "\<not> sealed ?m t0" unfolding sealed_def by (metis zero_less_numeral)
  then have t0: "t0 \<noteq> p2" using r1(4) by blast
  have c: "child ?m' t i = (if t = t0 \<and> i = 0 then Some p2 else child ?m t i)" for t i
    using table_entry [OF fa] by (simp add: s'_def child_def put_entry_def)
  have e: "child ?m t0 i = None" for i by (simp add: child_def r0(4))
  have W: "walk ?m' r q = (if q \<noteq> [] \<and> walk ?m r (butlast q) = Some t0 \<and> last q = 0 then Some p2 else walk ?m r q)" for r q
  proof (induction q rule: rev_induct)
    case (snoc i q)
    show ?case
    proof (cases "q \<noteq> [] \<and> walk ?m r (butlast q) = Some t0 \<and> last q = 0")
      case True
      then have q: "q = butlast q @ [0]" "walk ?m r (butlast q) = Some t0" by (metis append_butlast_last_id, blast)
      have "walk ?m r q = None" using q(2) e by (subst q(1)) (simp add: walk_snoc)
      then show ?thesis using snoc True t0 sealed_child [OF r1(4)] by (simp add: walk_snoc c)
    next
      case False
      then have "walk ?m' r q = walk ?m r q" using snoc by auto
      then show ?thesis using e by (cases "walk ?m r q") (auto simp: walk_snoc c)
    qed
  qed simp
  have K: "walk ?m' r q = Some t" if "walk ?m r q = Some t" for r q t
  proof -
    have "\<not> (walk ?m r (butlast q) = Some t0 \<and> last q = 0)" if "q \<noteq> []"
    proof
      assume "walk ?m r (butlast q) = Some t0 \<and> last q = 0"
      then have "walk ?m r (butlast q @ [last q]) = None" using e by (simp add: walk_snoc)
      then show False using \<open>walk ?m r q = Some t\<close> unfolding append_butlast_last_id [OF that] by simp
    qed
    then show ?thesis using W [of r q] that by auto
  qed
  have se: "sealed ?m' t" if "sealed ?m t" for t
  proof -
    have "t \<noteq> t0" using that ns by blast
    then have "?m' t = ?m t" by (simp add: s'_def put_other)
    from sealed_cong [of ?m' t ?m, OF this] that show ?thesis by simp
  qed
  show "keeps R s s'" unfolding keeps_def using K se by blast
  have len: "length q = 2" if "r \<in> R" "length q \<le> 3" "walk ?m' r q = Some p2" for r q
  proof (cases "q \<noteq> [] \<and> walk ?m r (butlast q) = Some t0 \<and> last q = 0")
    case True
    then have "same_place r (butlast q) r0 q0"
      using D(3) [OF that(1) r0(1), of "butlast q" q0 t0] that(2) r0(2,3) by auto
    then have "butlast q = q0" by (simp add: same_place_def)
    then show ?thesis using True r0(2) by (cases q rule: rev_cases) simp_all
  next
    case False
    then have "walk ?m r q = Some p2" using W [of r q] that(3) by auto
    then show ?thesis using D(3) [OF that(1) r1(1) that(2) _ _ r1(3)] r1(2) by (auto simp: same_place_def)
  qed
  have uniq: "same_place r q r' q' \<or> length q = 2 \<and> length q' = 2 \<and> sealed ?m' t"
    if a: "r \<in> R" "length q \<le> 3" "walk ?m' r q = Some t" and b: "r' \<in> R" "length q' \<le> 3" "walk ?m' r' q' = Some t" for r q r' q' t
  proof (cases "t = p2")
    case True
    then show ?thesis using len a b se [OF r1(4)] by blast
  next
    case False
    then have "walk ?m r q = Some t" "walk ?m r' q' = Some t" using a(3) b(3) unfolding W by (auto split: if_splits)
    then show ?thesis using D(3) [OF a(1) b(1) a(2) b(2)] se by blast
  qed
  have "owned_frame (vm_pmm s) t" if "r \<in> R" "length q \<le> 3" "walk ?m' r q = Some t" for r q t
    using that(3) D(2) [OF that(1,2)] D(2) [OF r1(1) _ r1(3)] r1(2) unfolding W by (auto split: if_splits)
  then show "spaces_ok R s'" unfolding spaces_ok_def using D(1) uniq by (auto simp: s'_def)
qed

lemma alloc_link:
  assumes ok: "spaces_ok R s" and r0: "r0 \<in> R" "length q0 \<le> 2" "walk (vm_tables s) r0 q0 = Some t0" "i0 < 512"
    and e: "\<not> is_present (vm_tables s t0 i0)" and a: "alloc_frame (vm_pmm s) = (Some f, p)"
  defines "s' \<equiv> s\<lparr>vm_pmm := p, vm_tables := fill (vm_tables s) t0 i0 f\<rparr>"
  shows "spaces_ok R s'" "walk (vm_tables s') r0 (q0 @ [i0]) = Some f" "keeps R s s'"
    "\<not> owned_frame (vm_pmm s) f" "card (free_set (vm_pmm s)) = card (free_set p) + 1"
proof -
  obtain g where g: "f = of_nat (4096 * g)" "g \<in> free_set (vm_pmm s)" "free_set p = free_set (vm_pmm s) - {g}" "pmm_ok p"
  proof (cases rule: alloc_frame_cases [OF spaces_okD(1) [OF ok]])
    case 1
    then show ?thesis using a by simp
  next
    case (2 g p')
    then have "f = of_nat (4096 * g)" "p' = p" using a by (simp_all del: of_nat_mult)
    then show ?thesis using 2 that by blast
  qed
  have gm: "g < MAX_FRAMES" using g(2) by (simp add: free_set_def)
  note S = spaces_fill [OF ok r0 e gm g(2) g(4) g(3) g(1), folded s'_def]
  show "spaces_ok R s'" "walk (vm_tables s') r0 (q0 @ [i0]) = Some f" "keeps R s s'" by (rule S)+
  show "\<not> owned_frame (vm_pmm s) f" using gm g(2) frame_inj [of g] unfolding owned_frame_def g(1) by blast
  show "card (free_set (vm_pmm s)) = card (free_set p) + 1"
    using g(2,3) card_Suc_Diff1 [of "free_set (vm_pmm s)" g] by simp
qed

lemma identity_map_run:
  assumes a: "alloc_frame (vm_pmm s) = (Some p3, q)" and b: "alloc_frame q = (Some p2, p)"
    and n: "p3 \<noteq> k" "p2 \<noteq> p3" "p2 \<noteq> k" and es: "es = (\<lambda>i. if i < 512 then huge_entry i else 0)"
  shows "identity_map k s = (Ok p2, s\<lparr>vm_pmm := q, vm_tables := fill (vm_tables s) k 0 p3\<rparr>
    \<lparr>vm_pmm := p, vm_tables := fill (vm_tables (s\<lparr>vm_pmm := q, vm_tables := fill (vm_tables s) k 0 p3\<rparr>)) p3 0 p2\<rparr>
    \<lparr>vm_tables := (vm_tables (s\<lparr>vm_pmm := q, vm_tables := fill (vm_tables s) k 0 p3\<rparr>
       \<lparr>vm_pmm := p, vm_tables := fill (vm_tables (s\<lparr>vm_pmm := q, vm_tables := fill (vm_tables s) k 0 p3\<rparr>)) p3 0 p2\<rparr>))(p2 := es)\<rparr>)"
proof -
  let ?sA = "s\<lparr>vm_pmm := q, vm_tables := (vm_tables s)(p3 := (\<lambda>_. 0))\<rparr>"
  let ?sB = "?sA\<lparr>vm_pmm := p, vm_tables := (vm_tables ?sA)(p2 := (\<lambda>_. 0))\<rparr>"
  let ?sC = "?sB\<lparr>vm_tables := put_entry k 0 (pte_table p3) (vm_tables ?sB)\<rparr>"
  let ?sD = "?sC\<lparr>vm_tables := put_entry p3 0 (pte_table p2) (vm_tables ?sC)\<rparr>"
  have e1: "alloc_table s = (Ok p3, ?sA)" using a by (simp add: alloc_table_def)
  have e2: "alloc_table ?sA = (Ok p2, ?sB)" using b by (simp add: alloc_table_def)
  have e3: "set_entry k 0 (pte_table p3) ?sB = (Ok (), ?sC)" "set_entry p3 0 (pte_table p2) ?sC = (Ok (), ?sD)"
    by (simp_all add: set_entry_def modS_def)
  have lim: "unat (IDENTITY_MAP_LIMIT div (2 * 1024 * 1024)) = 512" by (simp add: IDENTITY_MAP_LIMIT_def)
  have "identity_map k s = (Ok p2, ?sD\<lparr>vm_tables := (vm_tables ?sD)(p2 := (\<lambda>i. if i \<in> set [0..<512] then huge_entry i else vm_tables ?sD p2 i))\<rparr>)"
    by (simp only: identity_map_def bindS_def e1 e2 e3 lim huge_entry_def [symmetric] set_loop retS_def prod.case res.case)
  also have "(vm_tables ?sD)(p2 := (\<lambda>i. if i \<in> set [0..<512] then huge_entry i else vm_tables ?sD p2 i))
      = (fill (fill (vm_tables s) k 0 p3) p3 0 p2)(p2 := es)"
    unfolding set_upt atLeastLessThan_iff using n by (auto simp: put_entry_def fill_def fun_eq_iff es)
  finally show ?thesis by (simp add: fun_upd_def)
qed

lemma identity_map_spec:
  assumes ok: "spaces_ok {k} s" and z: "vm_tables s k = (\<lambda>_. 0)" and k: "pml4_phys s = k" and n: "2 \<le> card (free_set (vm_pmm s))"
  obtains p2 s' where "identity_map k s = (Ok p2, s')" "spaces_ok {k} s'" "pml4_phys s' = k"
    "card (free_set (vm_pmm s)) = card (free_set (vm_pmm s')) + 2"
    "walk (vm_tables s') k [0, 0] = Some p2" "sealed (vm_tables s') p2" "\<forall>i. i \<noteq> 0 \<longrightarrow> vm_tables s' k i = 0"
    "vm_tables s' p2 = (\<lambda>i. if i < 512 then huge_entry i else 0)"
proof -
  have ko: "owned_frame (vm_pmm s) k" by (rule spaces_okD(2) [OF ok, of k "[]"]) simp_all
  obtain p3 q where a: "alloc_frame (vm_pmm s) = (Some p3, q)"
    by (cases rule: alloc_frame_cases [OF spaces_okD(1) [OF ok]]) (use n in auto)
  have w0: "walk (vm_tables s) k [] = Some k" "\<not> is_present (vm_tables s k 0)" by (simp_all add: z)
  let ?s1 = "s\<lparr>vm_pmm := q, vm_tables := fill (vm_tables s) k 0 p3\<rparr>"
  note A = alloc_link [OF ok singletonI _ w0(1) _ w0(2) a, simplified]
  have A1: "spaces_ok {k} ?s1" using A(1) by simp
  have A2: "walk (vm_tables ?s1) k [0] = Some p3" using A(2) by simp
  have p3: "p3 \<noteq> k" using A(4) ko by auto
  have z3: "vm_tables ?s1 p3 = (\<lambda>_. 0)" using p3 by (auto simp: fill_def put_entry_def)
  obtain p2 p where b: "alloc_frame (vm_pmm ?s1) = (Some p2, p)"
    by (cases rule: alloc_frame_cases [OF spaces_okD(1) [OF A1]]) (use n A(5) in auto)
  let ?s2 = "?s1\<lparr>vm_pmm := p, vm_tables := fill (vm_tables ?s1) p3 0 p2\<rparr>"
  have e3: "\<not> is_present (vm_tables ?s1 p3 0)" unfolding z3 by simp
  note B = alloc_link [OF A1 singletonI _ A2 _ e3 b]
  have B1: "spaces_ok {k} ?s2" by (rule B(1)) simp_all
  have B2: "walk (vm_tables ?s2) k [0, 0] = Some p2" using B(2) by simp
  have o3: "owned_frame (vm_pmm ?s1) p3" by (rule spaces_okD(2) [OF A1 singletonI _ A2]) simp
  have o1: "owned_frame (vm_pmm ?s1) k" by (rule spaces_okD(2) [OF A1 singletonI, of "[]"]) simp_all
  have p2: "p2 \<noteq> p3" "p2 \<noteq> k" using B(4) o3 o1 by auto
  define es where "es = (\<lambda>i. if i < 512 then huge_entry i else 0)"
  have z2: "vm_tables ?s2 p2 = (\<lambda>_. 0)" using p2 by (auto simp: fill_def put_entry_def)
  let ?s3 = "?s2\<lparr>vm_tables := (vm_tables ?s2)(p2 := es)\<rparr>"
  note C = spaces_barren [OF B1 singletonI _ B2 z2, of es]
  have eh: "is_huge (es i)" if "is_present (es i)" for i using that huge_entry by (auto simp: es_def split: if_splits)
  show ?thesis
  proof (rule that [of p2 ?s3])
    show "spaces_ok {k} ?s3" by (rule C(1)) (use eh in simp_all)
    have "walk (vm_tables ?s3) k [0, 0] = walk (vm_tables ?s2) k [0, 0]" by (rule C(2)) (use eh in simp_all)
    then show "walk (vm_tables ?s3) k [0, 0] = Some p2" unfolding B2 .
    show "sealed (vm_tables ?s3) p2" using huge_entry by (simp add: sealed_def es_def)
    show "pml4_phys ?s3 = k" using k by simp
    show "card (free_set (vm_pmm s)) = card (free_set (vm_pmm ?s3)) + 2" using A(5) B(5) by simp
    show "\<forall>i. i \<noteq> 0 \<longrightarrow> vm_tables ?s3 k i = 0" using p2 p3 z by (simp add: fill_def put_entry_def)
    show "vm_tables ?s3 p2 = (\<lambda>i. if i < 512 then huge_entry i else 0)" by (simp add: es_def)
    show "identity_map k s = (Ok p2, ?s3)" by (rule identity_map_run [OF a _ p3 p2 es_def]) (use b in simp)
  qed
qed

lemma keeps_sealed:
  "keeps R s s' \<Longrightarrow> r \<in> R \<Longrightarrow> length q = 2 \<Longrightarrow> walk (vm_tables s) r q = Some t \<Longrightarrow> sealed (vm_tables s) t
    \<Longrightarrow> walk (vm_tables s') r q = Some t \<and> sealed (vm_tables s') t"
proof -
  assume a: "keeps R s s'" "r \<in> R" "length q = 2" "walk (vm_tables s) r q = Some t" "sealed (vm_tables s) t"
  have "length q \<le> 3" "length q \<le> 2" using a(3) by simp_all
  then show ?thesis using a unfolding keeps_def by blast
qed

lemma keeps_identity:
  assumes "keeps R s s'" "pml4_phys s' = pml4_phys s" "pml4_phys s \<in> R" "identity_ok s"
  shows "identity_ok s'"
proof -
  obtain p2 where p2: "walk (vm_tables s) (pml4_phys s) [0, 0] = Some p2" "sealed (vm_tables s) p2"
    using assms(4) unfolding identity_ok_def by blast
  have "length [0, 0 :: nat] = 2" by simp
  from keeps_sealed [OF assms(1,3) this p2] show ?thesis unfolding identity_ok_def assms(2) by blast
qed

lemma hhdm_alias_spec:
  assumes ok: "spaces_ok {k} s" and k: "pml4_phys s = k" and w: "walk (vm_tables s) k [0, 0] = Some p2" "sealed (vm_tables s) p2"
    and z: "\<forall>i. i \<noteq> 0 \<longrightarrow> vm_tables s k i = 0" and n: "1 \<le> card (free_set (vm_pmm s))"
  shows "\<exists>s'. hhdm_alias off k p2 s = (Ok (), s') \<and> spaces_ok {k} s' \<and> identity_ok s' \<and> pml4_phys s' = k
    \<and> card (free_set (vm_pmm s)) \<le> card (free_set (vm_pmm s')) + 1 \<and> (p4_idx off = 0 \<longrightarrow> s' = s)"
proof (cases "unat (drop_bit 39 off AND 0x1FF :: u64) = 0")
  case True
  then show ?thesis using ok k w by (auto simp: hhdm_alias_def Let_def sm_defs identity_ok_def)
next
  case False
  define i where "i = unat (drop_bit 39 off AND 0x1FF :: u64)"
  have i: "i \<noteq> 0" "i < 512" using False idx_bound(1) [of off] by (simp_all add: i_def p4_idx_def)
  obtain p3 p where a: "alloc_frame (vm_pmm s) = (Some p3, p)"
    by (cases rule: alloc_frame_cases [OF spaces_okD(1) [OF ok]]) (use n in auto)
  have w0: "walk (vm_tables s) k [] = Some k" "\<not> is_present (vm_tables s k i)" using z i(1) by simp_all
  let ?s1 = "s\<lparr>vm_pmm := p, vm_tables := fill (vm_tables s) k i p3\<rparr>"
  note A = alloc_link [OF ok singletonI _ w0(1) i(2) w0(2) a]
  have A1: "spaces_ok {k} ?s1" "walk (vm_tables ?s1) k [i] = Some p3" "keeps {k} s ?s1" using A(1,2,3) by simp_all
  have ko: "owned_frame (vm_pmm s) k" by (rule spaces_okD(2) [OF ok, of k "[]"]) simp_all
  have p3: "p3 \<noteq> k" using A(4) ko by auto
  have z3: "vm_tables ?s1 p3 = (\<lambda>_. 0)" using p3 by (auto simp: fill_def put_entry_def)
  have l: "length [0, 0 :: nat] = 2" "length [i] = 1" by simp_all
  have B: "walk (vm_tables ?s1) k [0, 0] = Some p2" "sealed (vm_tables ?s1) p2"
    using keeps_sealed [OF A1(3) singletonI l(1) w] by blast+
  let ?s2 = "?s1\<lparr>vm_tables := put_entry p3 0 (pte_table p2) (vm_tables ?s1)\<rparr>"
  note C = spaces_link [OF A1(1) singletonI l(2) A1(2) z3 singletonI l(1) B]
  have I: "identity_ok ?s2"
    by (rule keeps_identity [OF C(2)]) (use k B in \<open>auto simp: identity_ok_def simp del: walk.simps\<close>)
  have "hhdm_alias off k p2 s = (Ok (), ?s2)"
  proof -
    let ?sA = "s\<lparr>vm_pmm := p, vm_tables := (vm_tables s)(p3 := (\<lambda>_. 0))\<rparr>"
    have e: "put_entry k i (pte_table p3) (put_entry p3 0 (pte_table p2) ((vm_tables s)(p3 := (\<lambda>_. 0))))
        = put_entry p3 0 (pte_table p2) (fill (vm_tables s) k i p3)"
      using p3 by (auto simp: put_entry_def fill_def fun_eq_iff)
    have "alloc_table s = (Ok p3, ?sA)" using a by (simp add: alloc_table_def)
    then show ?thesis using i(1) e by (simp add: hhdm_alias_def Let_def i_def [symmetric] sm_defs set_entry_def)
  qed
  then show ?thesis using C(1) I k A(5) i(1) by (auto simp: i_def p4_idx_def)
qed

lemma map_kernel_loop:
  assumes "spaces_ok {k} s" "pml4_phys s = k" "identity_ok s"
    and "forS is (\<lambda>i. map_page (va i) (pa i) KERNEL_RWX) s = (Ok (), s')"
  shows "spaces_ok {k} s' \<and> pml4_phys s' = k \<and> identity_ok s'"
  using assms
proof (induction "is" arbitrary: s)
  case (Cons i "is")
  obtain s1 where m: "map_page_in k (va i) (pa i) KERNEL_RWX s = (Ok (), s1)"
    and r: "forS is (\<lambda>i. map_page (va i) (pa i) KERNEL_RWX) s1 = (Ok (), s')"
    using Cons.prems(2,4) by (auto simp: map_page_def bindS_Ok res_simps)
  have "bit KERNEL_RWX 0" by (simp add: KERNEL_RWX_def PF_PRESENT_def bit_or_iff)
  note E = map_page_in_effect [OF Cons.prems(1) singletonI m this]
  have "identity_ok s1" by (rule keeps_identity [OF E(2,3)]) (use Cons.prems in simp_all)
  then show ?case using Cons.IH [OF E(1) _ _ r] E(3) Cons.prems(2) by simp
qed (simp add: res_simps)

lemma vmm_init_steps:
  assumes "pmm_ok (vm_pmm s)" "4 \<le> card (free_set (vm_pmm s))"
  obtains k s3 where "vmm_init kp kv ke off s = map_kernel kp kv ke s3" "pml4_phys s3 = k" "spaces_ok {k} s3" "identity_ok s3"
    "card (free_set (vm_pmm s)) \<le> card (free_set (vm_pmm s3)) + 4"
    "\<And>i. p4_idx off = 0 \<Longrightarrow> i \<noteq> 0 \<Longrightarrow> vm_tables s3 k i = 0"
proof -
  from assms(1) obtain k p where a: "alloc_table s = (Ok k, s\<lparr>vm_pmm := p, vm_tables := (vm_tables s)(k := (\<lambda>_. 0))\<rparr>)"
    "pmm_ok p" "owned_frame p k" "card (free_set (vm_pmm s)) = card (free_set p) + 1"
    by (cases rule: alloc_table_cases) (use assms(2) in auto)
  let ?s1 = "s\<lparr>vm_pmm := p, vm_tables := (vm_tables s)(k := (\<lambda>_. 0)), pml4_phys := k\<rparr>"
  have "?s1 = \<lparr>vm_pmm = p, vm_tables = (vm_tables s)(k := (\<lambda>_. 0)), pml4_phys = k\<rparr>" by simp
  then have ok1: "spaces_ok {k} ?s1" using spaces_root [OF a(2,3)] by metis
  have "2 \<le> card (free_set (vm_pmm ?s1))" using a(4) assms(2) by simp
  moreover have "vm_tables ?s1 k = (\<lambda>_. 0)" "pml4_phys ?s1 = k" by simp_all
  ultimately obtain p2 s2 where b: "identity_map k ?s1 = (Ok p2, s2)" "spaces_ok {k} s2"
    "pml4_phys s2 = k" "card (free_set (vm_pmm ?s1)) = card (free_set (vm_pmm s2)) + 2"
    "walk (vm_tables s2) k [0, 0] = Some p2" "sealed (vm_tables s2) p2" "\<forall>i. i \<noteq> 0 \<longrightarrow> vm_tables s2 k i = 0"
    using identity_map_spec [OF ok1] by blast
  have "1 \<le> card (free_set (vm_pmm s2))" using a(4) b(4) assms(2) by simp
  obtain s3 where h: "hhdm_alias off k p2 s2 = (Ok (), s3) \<and> spaces_ok {k} s3 \<and> identity_ok s3 \<and> pml4_phys s3 = k
      \<and> card (free_set (vm_pmm s2)) \<le> card (free_set (vm_pmm s3)) + 1 \<and> (p4_idx off = 0 \<longrightarrow> s3 = s2)"
    by (rule exE [OF hhdm_alias_spec [OF b(2,3,5,6,7) \<open>1 \<le> _\<close>, of off]])
  have c: "hhdm_alias off k p2 s2 = (Ok (), s3)" "spaces_ok {k} s3" "identity_ok s3" "pml4_phys s3 = k"
    "card (free_set (vm_pmm s2)) \<le> card (free_set (vm_pmm s3)) + 1" "p4_idx off = 0 \<longrightarrow> s3 = s2"
    using h by - (elim conjE, assumption)+
  have "vmm_init kp kv ke off s = map_kernel kp kv ke s3"
    using a(1) b(1) c(1) by (simp add: vmm_init_def bindS_def modS_def)
  moreover have "card (free_set (vm_pmm s)) \<le> card (free_set (vm_pmm s3)) + 4" using a(4) b(4) c(5) by simp
  ultimately show ?thesis using that [OF _ c(4,2,3)] b(7) c(6) by blast
qed

lemma vmm_init_ok:
  assumes "vmm_init kp kv ke off s = (Ok (), s')" "pmm_ok (vm_pmm s)" "4 \<le> card (free_set (vm_pmm s))"
  shows "spaces_ok {pml4_phys s'} s' \<and> identity_ok s'"
proof -
  obtain k s3 where c: "vmm_init kp kv ke off s = map_kernel kp kv ke s3" "pml4_phys s3 = k" "spaces_ok {k} s3" "identity_ok s3"
    using vmm_init_steps [OF assms(2,3)] by metis
  then have "map_kernel kp kv ke s3 = (Ok (), s')" using assms(1) by simp
  from map_kernel_loop [OF c(3,2,4) this [unfolded map_kernel_def Let_def]] show ?thesis by simp
qed

section \<open>Histories\<close>

text \<open>The operations on address spaces; the second component is the set of the spaces created so far.\<close>

inductive vm_step :: "vmm \<times> u64 set \<Rightarrow> vmm \<times> u64 set \<Rightarrow> bool" where
  vs_create: "create_user_page_table s = (Ok p4, s') \<Longrightarrow> vm_step (s, R) (s', insert p4 R)"
| vs_map: "r \<in> R \<Longrightarrow> bit flags 0 \<Longrightarrow> map_page_in r va pa flags s = (Ok (), s') \<Longrightarrow> vm_step (s, R) (s', R)"
| vs_unmap: "r \<in> R \<Longrightarrow> \<nexists>e. translate s r va = HugePage e \<Longrightarrow> unmap_page_in r va s = (got, s') \<Longrightarrow> vm_step (s, R) (s', R)"
| vs_flags: "r \<in> R \<Longrightarrow> \<nexists>e. translate s r va = HugePage e \<Longrightarrow> vm_step (s, R) (update_page_flags_in r va flags s, R)"

definition vm_inv :: "vmm \<times> u64 set \<Rightarrow> bool" where
  "vm_inv = (\<lambda>(s, R). spaces_ok R s \<and> pml4_phys s \<in> R \<and> identity_ok s)"

lemma vm_step_inv: "vm_step x y \<Longrightarrow> vm_inv x \<Longrightarrow> vm_inv y"
proof (induction rule: vm_step.induct)
  case (vs_create s p4 s' R)
  then have i: "spaces_ok R s" "pml4_phys s \<in> R" "identity_ok s" by (simp_all add: vm_inv_def)
  from create_cases [OF i(1,2) refl] vs_create(1) have "pml4_phys s' = pml4_phys s" by cases auto
  then show ?case using create_effect [OF i vs_create(1)] i(2) by (simp add: vm_inv_def)
next
  case (vs_map r R flags va pa s s')
  then have i: "spaces_ok R s" "pml4_phys s \<in> R" "identity_ok s" by (simp_all add: vm_inv_def)
  note E = map_page_in_effect [OF i(1) vs_map(1,3,2)]
  then show ?case using keeps_identity [OF E(2,3) i(2,3)] i(2) by (simp add: vm_inv_def)
next
  case (vs_unmap r R s va got s')
  then have i: "spaces_ok R s" "pml4_phys s \<in> R" "identity_ok s" by (simp_all add: vm_inv_def)
  note E = unmap_page_in_effect [OF i(1) vs_unmap(1,2,3)]
  then show ?case using keeps_identity [OF E(8) E(5) i(2,3)] i(2) by (simp add: vm_inv_def)
next
  case (vs_flags r R s va flags)
  then have i: "spaces_ok R s" "pml4_phys s \<in> R" "identity_ok s" by (simp_all add: vm_inv_def)
  consider "update_page_flags_in r va flags s = s"
    | t e where "leaf_table s r va = Some t"
        "update_page_flags_in r va flags s = s\<lparr>vm_tables := put_entry t (p1_idx va) e (vm_tables s)\<rparr>"
    using walk_existing_leaf [OF vs_flags(2)]
    by (cases "leaf_table s r va"; simp add: update_page_flags_in_def; metis)
  then show ?case
  proof cases
    case 1
    then show ?thesis using i by (simp add: vm_inv_def)
  next
    case (2 t e)
    note L = spaces_leaf(1,2) [OF i(1) vs_flags(1) 2(1), where e = e, folded 2(2)]
    have "pml4_phys (update_page_flags_in r va flags s) = pml4_phys s" by (simp add: 2(2))
    then show ?thesis using L(1) keeps_identity [OF L(2) _ i(2,3)] i(2) by (simp add: vm_inv_def)
  qed
qed


section \<open>A booted machine\<close>

definition demo_vmm0 :: vmm where
  "demo_vmm0 = \<lparr>vm_pmm = demo_pmm, vm_tables = (\<lambda>_ _. 0), pml4_phys = 0\<rparr>"

definition demo_vmm :: vmm where
  "demo_vmm = snd (vmm_init 0x100000 0xFFFFFFFF80100000 0x100000 0 demo_vmm0)"

lemma demo_vmm_facts:
  "vmm_init 0x100000 0xFFFFFFFF80100000 0x100000 0 demo_vmm0 = (Ok (), demo_vmm)"
  "spaces_ok {pml4_phys demo_vmm} demo_vmm" "identity_ok demo_vmm" "236 \<le> card (free_set (vm_pmm demo_vmm))"
  "i \<noteq> 0 \<Longrightarrow> vm_tables demo_vmm (pml4_phys demo_vmm) i = 0"
proof -
  have p: "pmm_ok (vm_pmm demo_vmm0)" by (simp add: demo_vmm0_def demo_pmm_ok)
  have c: "card (free_set (vm_pmm demo_vmm0)) = 240" by (simp add: demo_vmm0_def demo_pmm_free)
  then have c4: "4 \<le> card (free_set (vm_pmm demo_vmm0))" by simp
  have off: "p4_idx 0 = 0" by (simp add: p4_idx_def)
  obtain s3 where s: "vmm_init 0x100000 0xFFFFFFFF80100000 0x100000 0 demo_vmm0 = map_kernel 0x100000 0xFFFFFFFF80100000 0x100000 s3"
    "spaces_ok {pml4_phys s3} s3" "identity_ok s3" "240 \<le> card (free_set (vm_pmm s3)) + 4"
    "\<And>i. i \<noteq> 0 \<Longrightarrow> vm_tables s3 (pml4_phys s3) i = 0"
    using vmm_init_steps [OF p c4, of "0x100000" "0xFFFFFFFF80100000" "0x100000" 0] off unfolding c by metis
  have "map_kernel 0x100000 0xFFFFFFFF80100000 0x100000 s3 = (Ok (), s3)"
    by (simp add: map_kernel_def Let_def FRAME_SIZE_def retS_def)
  then have d: "vmm_init 0x100000 0xFFFFFFFF80100000 0x100000 0 demo_vmm0 = (Ok (), s3)" using s(1) by simp
  then have e: "demo_vmm = s3" by (simp add: demo_vmm_def)
  show "vmm_init 0x100000 0xFFFFFFFF80100000 0x100000 0 demo_vmm0 = (Ok (), demo_vmm)"
    "spaces_ok {pml4_phys demo_vmm} demo_vmm" "identity_ok demo_vmm" "236 \<le> card (free_set (vm_pmm demo_vmm))"
    "i \<noteq> 0 \<Longrightarrow> vm_tables demo_vmm (pml4_phys demo_vmm) i = 0"
    using d s unfolding e by simp_all
qed

definition demo_va :: u64 where "demo_va = 0xFFFFC00000000000"

lemma demo_va_missing: "translate demo_vmm (pml4_phys demo_vmm) demo_va = Missing"
proof -
  have "p4_idx demo_va \<noteq> 0" by (simp add: demo_va_def p4_idx_def)
  then show ?thesis by (simp add: translate_def indices_def demo_vmm_facts(5))
qed

lemma user_rw_present: "bit USER_RW 0"
  by (simp add: USER_RW_def PF_PRESENT_def bit_or_iff)

definition demo_mapped :: vmm where
  "demo_mapped = snd (map_page_in (pml4_phys demo_vmm) demo_va 0x120000 USER_RW demo_vmm)"

lemma demo_map: "map_page_in (pml4_phys demo_vmm) demo_va 0x120000 USER_RW demo_vmm = (Ok (), demo_mapped)"
proof (cases rule: map_page_in_cases [OF demo_vmm_facts(2) singletonI, of demo_va "0x120000" USER_RW])
  case (1 s1 t)
  then show ?thesis by (simp add: demo_mapped_def)
next
  case (2 s' e)
  then show ?thesis by (simp add: demo_va_missing)
next
  case (3 s')
  then show ?thesis using demo_vmm_facts(4) by simp
qed

theorem map_page_isolated_witness:
  "spaces_ok {pml4_phys demo_vmm} demo_mapped
    \<and> translate demo_mapped (pml4_phys demo_vmm) demo_va = Page (pte_set 0x120000 USER_RW)
    \<and> translate demo_mapped (pml4_phys demo_vmm) (demo_va + 0x1000) = translate demo_vmm (pml4_phys demo_vmm) (demo_va + 0x1000)"
proof -
  have "indices (demo_va + 0x1000) \<noteq> indices demo_va" by (simp add: indices_def demo_va_def p1_idx_def)
  then show ?thesis
    using map_page_isolated [OF demo_vmm_facts(2) singletonI user_rw_present, of demo_va "0x120000"]
    by (simp add: demo_map)
qed

theorem unmap_page_spec_witness:
  "fst (unmap_page_in (pml4_phys demo_vmm) demo_va demo_mapped) = Some 0x120000
    \<and> query_page_in (pml4_phys demo_vmm) demo_va (snd (unmap_page_in (pml4_phys demo_vmm) demo_va demo_mapped)) = None"
proof -
  note E = map_page_in_effect [OF demo_vmm_facts(2) singletonI demo_map user_rw_present]
  have t: "translate demo_mapped (pml4_phys demo_vmm) demo_va = Page (pte_set 0x120000 USER_RW)"
    using E(6) [OF singletonI, of demo_va] by simp
  have "pte_address (pte_set 0x120000 USER_RW) = 0x120000"
    by (simp add: pte_address_def pte_set_def USER_RW_def PHYS_ADDR_MASK_def PF_PRESENT_def PF_WRITABLE_def PF_USER_def PF_NX_def)
  then have q: "query_page_in (pml4_phys demo_vmm) demo_va demo_mapped = Some 0x120000"
    using query_translate [of "pml4_phys demo_vmm" demo_va demo_mapped] t by simp
  have "\<nexists>e. translate demo_mapped (pml4_phys demo_vmm) demo_va = HugePage e" by (simp add: t)
  from unmap_page_spec [OF E(1) singletonI this prod.collapse [symmetric]] show ?thesis by (simp add: q)
qed

theorem space_created_witness:
  "\<exists>p4 s'. create_user_page_table demo_vmm = (Ok p4, s') \<and> p4 \<noteq> pml4_phys demo_vmm
    \<and> spaces_ok {p4, pml4_phys demo_vmm} s' \<and> translate s' p4 0x400000000 = Missing"
proof -
  have "\<not> kernel_half 0x400000000" "p3_idx 0x400000000 \<noteq> 0"
    by (simp_all add: kernel_half_def p4_idx_def p3_idx_def)
  then show ?thesis using space_created [OF demo_vmm_facts(2) singletonI demo_vmm_facts(3)] demo_vmm_facts(4)
    by (auto split: prod.splits res.splits)
qed


end
