(* ===== verification/Kmem.thy ===== *)
theory Kmem
  imports Kheap Vmm Task Cap
begin

text \<open>
  The clients of frames and page tables in the kernel: the start of the kernel heap (\<^verbatim>\<open>heap::init\<close>) and the
  system calls \<^verbatim>\<open>SYS_MMAP\<close>, \<^verbatim>\<open>SYS_MUNMAP\<close> and \<^verbatim>\<open>SYS_BRK\<close>
  (\<^verbatim>\<open>kernel/src/syscall.rs\<close>).  The state of a call is the paging state with what the calls read and write of
  the calling task.
\<close>

section \<open>The start of the heap\<close>

text \<open>\<^verbatim>\<open>pmm::alloc_frame().expect(..)\<close> followed by \<^verbatim>\<open>map_page\<close>.\<close>

definition take_frame :: "(vmm, unit, u64 option) sm" where
  "take_frame s = (case alloc_frame (vm_pmm s) of (f, p) \<Rightarrow> (Ok f, s\<lparr>vm_pmm := p\<rparr>))"

definition map_heap_page :: "u64 \<Rightarrow> nat \<Rightarrow> (vmm, unit, unit) sm" where
  "map_heap_page base i = bindS take_frame (\<lambda>f. case f of
      None \<Rightarrow> liftS Panic
    | Some phys \<Rightarrow> map_page (base + of_nat i * FRAME_SIZE) phys KERNEL_RW)"

definition heap_init :: "u64 \<Rightarrow> vmm \<times> list_mem \<Rightarrow> (unit, unit) res \<times> vmm \<times> list_mem" where
  "heap_init base = (\<lambda>(s, h). case forS [0..<HEAP_INIT_PAGES] (map_heap_page base) s of
      (Ok _, s') \<Rightarrow> (Ok (), s', first_block (unat base) h)
    | (Err e, s') \<Rightarrow> (Err e, s', h)
    | (Panic, s') \<Rightarrow> (Panic, s', h))"

section \<open>Memory system calls\<close>

definition HEAP_BASE :: u64 where "HEAP_BASE = 0x400000000"
definition STACK_GUARD :: u64 where "STACK_GUARD = 0x7FFE00000000"

record memk =
  mk_vm :: vmm
  mk_caps :: "cap_table option"
  mk_pt :: "u64 option"
  mk_brk :: u64
  mk_vmas :: "(u64 \<times> u64) list"

definition may_write_memory :: "memk \<Rightarrow> bool" where
  "may_write_memory k = (case mk_caps k of None \<Rightarrow> False | Some t \<Rightarrow> has_kind_with_rights t KindMemory WRITE)"

text \<open>The operations of the memory managers on the paging component of the state.\<close>

definition on_vm :: "(vmm, unit, 'a) sm \<Rightarrow> (memk, unit, 'a) sm" where
  "on_vm m k = (case m (mk_vm k) of (r, s) \<Rightarrow> (r, k\<lparr>mk_vm := s\<rparr>))"

definition map_current :: "u64 \<Rightarrow> u64 \<Rightarrow> u64 \<Rightarrow> (memk, unit, unit) sm" where
  "map_current virt phys flags k = (case mk_pt k of
      Some pml4 \<Rightarrow> on_vm (map_page_in pml4 virt phys flags) k
    | None \<Rightarrow> on_vm (map_page virt phys flags) k)"

text \<open>\<^verbatim>\<open>if let Some(pa) = unmap_page_in(..) { free_frame(pa) }\<close>\<close>

definition unmap_release :: "u64 \<Rightarrow> u64 \<Rightarrow> (vmm, unit, unit) sm" where
  "unmap_release pml4 virt s = (case unmap_page_in pml4 virt s of
      (None, s') \<Rightarrow> (Ok (), s')
    | (Some pa, s') \<Rightarrow> release pa s')"

definition USER_MIN :: u64 where "USER_MIN = 0x40000000"
definition USER_MAX :: u64 where "USER_MAX = 0x800000000000"

definition sys_mmap :: "u64 \<Rightarrow> u64 \<Rightarrow> (memk, unit, u64) sm" where
  "sys_mmap va fl k =
     (if va AND 0xFFF \<noteq> 0 then (Ok EINVAL, k)
      else if va < USER_MIN \<or> va \<ge> USER_MAX then (Ok EINVAL, k)
      else if \<not> may_write_memory k then (Ok ENOPERM, k)
      else case vma_insert va (mk_vmas k) of
        (False, _) \<Rightarrow> (Ok EINVAL, k)
      | (True, vmas) \<Rightarrow>
          (let flags = (fl AND (PF_PRESENT OR PF_WRITABLE OR PF_USER OR PF_NX)) OR PF_USER in
           case on_vm take_frame (k\<lparr>mk_vmas := vmas\<rparr>) of
             (Ok None, k1) \<Rightarrow> (Ok EINVAL, k1\<lparr>mk_vmas := snd (vma_remove va (mk_vmas k1))\<rparr>)
           | (Ok (Some phys), k1) \<Rightarrow> bindS (map_current va phys flags) (\<lambda>_. retS 0) k1
           | (Err e, k1) \<Rightarrow> (Err e, k1)
           | (Panic, k1) \<Rightarrow> (Panic, k1)))"

definition sys_munmap :: "u64 \<Rightarrow> (memk, unit, u64) sm" where
  "sys_munmap va k =
     (if va AND 0xFFF \<noteq> 0 then (Ok EINVAL, k)
      else if va < USER_MIN \<or> va \<ge> USER_MAX then (Ok EINVAL, k)
      else case vma_remove va (mk_vmas k) of
        (False, _) \<Rightarrow> (Ok EINVAL, k)
      | (True, vmas) \<Rightarrow>
          (case mk_pt k of
             Some pml4 \<Rightarrow> bindS (on_vm (unmap_release pml4 va)) (\<lambda>_. retS 0) (k\<lparr>mk_vmas := vmas\<rparr>)
           | None \<Rightarrow> (Ok 0, k\<lparr>mk_vmas := vmas, mk_vm := unmap_page va (mk_vm k)\<rparr>)))"

definition page_up :: "u64 \<Rightarrow> u64" where
  "page_up x = (x + 0xFFF) AND NOT 0xFFF"

text \<open>The pages of a half-open range between two page-aligned addresses, in order: the loops of \<^verbatim>\<open>SYS_BRK\<close>.\<close>

definition pages :: "u64 \<Rightarrow> u64 \<Rightarrow> u64 list" where
  "pages a b = map (\<lambda>i. a + of_nat i * 0x1000) [0..<(unat b - unat a) div 4096]"

text \<open>The growth loop; it stops with the address of the page for which there was no frame.\<close>

fun brk_grow_loop :: "u64 list \<Rightarrow> (memk, unit, u64 option) sm" where
  "brk_grow_loop [] k = (Ok None, k)"
| "brk_grow_loop (va # vas) k = bindS (on_vm take_frame) (\<lambda>f. case f of
      None \<Rightarrow> retS (Some va)
    | Some phys \<Rightarrow> bindS (map_current va phys (PF_PRESENT OR PF_WRITABLE OR PF_USER OR PF_NX)) (\<lambda>_. brk_grow_loop vas)) k"

definition sys_brk :: "u64 \<Rightarrow> (memk, unit, u64) sm" where
  "sys_brk new_brk k =
     (if \<not> may_write_memory k then (Ok ENOPERM, k)
      else
        let cur_brk = (if mk_brk k = 0 then HEAP_BASE else mk_brk k) in
        if new_brk = 0 then (Ok cur_brk, k\<lparr>mk_brk := cur_brk\<rparr>)
        else if new_brk \<le> cur_brk then
          (if new_brk < HEAP_BASE then (Ok EINVAL, k)
           else bindS (case mk_pt k of
                   None \<Rightarrow> retS ()
                 | Some pml4 \<Rightarrow> on_vm (forS (pages (page_up new_brk) (page_up cur_brk)) (unmap_release pml4)))
                (\<lambda>_. bindS (modS (\<lambda>k. k\<lparr>mk_brk := new_brk\<rparr>)) (\<lambda>_. retS new_brk)) k)
        else if new_brk \<ge> STACK_GUARD then (Ok EINVAL, k)
        else bindS (brk_grow_loop (pages (page_up cur_brk) (page_up new_brk))) (\<lambda>stop.
               (let b = (case stop of None \<Rightarrow> new_brk | Some va \<Rightarrow> va) in
                bindS (modS (\<lambda>k. k\<lparr>mk_brk := b\<rparr>)) (\<lambda>_. retS b))) k)"

section \<open>Pages\<close>

text \<open>The processor looks at bits 12 to 47 of an address only.\<close>

definition page_of :: "u64 \<Rightarrow> nat" where
  "page_of va = unat va mod 2 ^ 48 div 4096"

lemma idx_bits: "n < 9 \<Longrightarrow> bit (drop_bit k va AND 0x1FF :: u64) n \<longleftrightarrow> bit va (k + n)"
proof -
  assume n: "n < 9"
  have "(0x1FF :: u64) = mask 9" by (simp add: mask_eq_exp_minus_1)
  then have "bit (0x1FF :: u64) n" using n by (simp only: bit_mask_iff possible_bit_word) simp
  then show ?thesis by (simp only: bit_and_iff bit_drop_bit_eq) simp
qed

lemma indices_bits: "indices va = indices va' \<Longrightarrow> 12 \<le> n \<Longrightarrow> n < 48 \<Longrightarrow> bit va n = bit va' n"
proof -
  assume "indices va = indices va'" and n: "12 \<le> n" "n < 48"
  then have e: "drop_bit k va AND 0x1FF = drop_bit k va' AND (0x1FF :: u64)" if "k \<in> {12, 21, 30, 39}" for k
    using that by (auto simp: indices_def p1_idx_def p2_idx_def p3_idx_def p4_idx_def word_unat_eq_iff)
  have b: "bit va (k + j) = bit va' (k + j)" if "k \<in> {12, 21, 30, 39}" "j < 9" for k j
    using e [OF that(1)] idx_bits [OF that(2), of k va] idx_bits [OF that(2), of k va'] by simp
  consider "n < 21" | "21 \<le> n" "n < 30" | "30 \<le> n" "n < 39" | "39 \<le> n" using n by linarith
  then show "bit va n = bit va' n"
  proof cases
    case 1 then show ?thesis using b [of 12 "n - 12"] n by simp
  next
    case 2 then show ?thesis using b [of 21 "n - 21"] by simp
  next
    case 3 then show ?thesis using b [of 30 "n - 30"] by simp
  next
    case 4 then show ?thesis using b [of 39 "n - 39"] n by simp
  qed
qed

lemma indices_page: "indices va = indices va' \<Longrightarrow> page_of va = page_of va'"
proof -
  assume i: "indices va = indices va'"
  have "drop_bit 12 (take_bit 48 va) = drop_bit 12 (take_bit 48 va')"
  proof (rule bit_eqI)
    fix n
    show "bit (drop_bit 12 (take_bit 48 va)) n = bit (drop_bit 12 (take_bit 48 va')) n"
      using indices_bits [OF i, of "12 + n"] by (auto simp: bit_drop_bit_eq bit_take_bit_iff)
  qed
  then have "unat (drop_bit 12 (take_bit 48 va)) = unat (drop_bit 12 (take_bit 48 va'))" by simp
  then show ?thesis by (simp add: page_of_def unat_div unat_mod drop_bit_eq_div take_bit_eq_mod)
qed

text \<open>Consecutive pages from \<open>base\<close> on, as long as the range does not cross a multiple of \<open>2 ^ 48\<close>.\<close>

lemma page_of_add:
  assumes "unat base mod 2 ^ 48 + 4096 * n \<le> 2 ^ 48" "i < n"
  shows "page_of (base + of_nat i * 0x1000) = page_of base + i" "unat (base + of_nat i * 0x1000) = unat base + 4096 * i"
proof -
  let ?B = "unat base"
  have b: "?B = 281474976710656 * (?B div 281474976710656) + ?B mod 281474976710656" by simp
  have r: "?B mod 2 ^ 48 + 4096 * i < 2 ^ 48" using assms by linarith
  have "?B div 281474976710656 < 65536" using unsigned_less [of base] by (simp add: div_less_iff_less_mult)
  moreover have "?B mod 281474976710656 + 4096 * i < 281474976710656" using r by simp
  ultimately have "?B + 4096 * i < 18446744073709551616" using b by linarith
  then have lt: "?B + 4096 * i < 2 ^ 64" by simp
  have "i < 2 ^ 64" using lt by simp
  have "unat (of_nat i * 0x1000 :: u64) = 4096 * i"
    using lt by (subst mult.commute) (simp add: unat_word_ariths unat_of_nat take_bit_nat_eq_self)
  then show u: "unat (base + of_nat i * 0x1000) = ?B + 4096 * i" using lt by (simp add: unat_word_ariths)
  have "(?B + 4096 * i) mod 2 ^ 48 = ?B mod 2 ^ 48 + 4096 * i"
    by (metis r mod_add_left_eq mod_less)
  then show "page_of (base + of_nat i * 0x1000) = page_of base + i" unfolding page_of_def u by simp
qed

lemma page_indices: "page_of va = page_of va' \<Longrightarrow> indices va = indices va'"
proof -
  assume "page_of va = page_of va'"
  then have "unat (take_bit 48 va div 4096) = unat (take_bit 48 va' div 4096)"
    by (simp add: page_of_def unat_div unat_mod take_bit_eq_mod)
  then have d: "drop_bit 12 (take_bit 48 va) = drop_bit 12 (take_bit 48 va')"
    by (simp add: word_unat_eq_iff drop_bit_eq_div)
  have b: "bit va n = bit va' n" if "12 \<le> n" "n < 48" for n
  proof -
    have "bit (drop_bit 12 (take_bit 48 va)) (n - 12) = bit (drop_bit 12 (take_bit 48 va')) (n - 12)" by (simp only: d)
    then show ?thesis using that by (simp add: bit_drop_bit_eq bit_take_bit_iff)
  qed
  have m: "(0x1FF :: u64) = mask 9" by (simp add: mask_eq_exp_minus_1)
  have "drop_bit k va AND 0x1FF = drop_bit k va' AND (0x1FF :: u64)" if "12 \<le> k" "k \<le> 39" for k
    unfolding m
  proof (rule bit_eqI)
    fix n show "bit (drop_bit k va AND mask 9) n = bit (drop_bit k va' AND mask 9) n"
      using b [of "k + n"] that by (auto simp: bit_and_iff bit_drop_bit_eq bit_mask_iff)
  qed
  then show ?thesis by (simp add: indices_def p1_idx_def p2_idx_def p3_idx_def p4_idx_def)
qed

lemma page_iff: "indices va = indices va' \<longleftrightarrow> page_of va = page_of va'"
  using indices_page page_indices by blast

lemma user_half: "unat va < 2 ^ 47 \<Longrightarrow> p4_idx va < 256"
proof -
  assume v: "unat va < 2 ^ 47"
  have "unat (drop_bit 39 va) = unat va div 2 ^ 39" by (simp add: drop_bit_eq_div unat_div)
  also have "\<dots> < 256" using v by (simp add: div_less_iff_less_mult)
  finally have "unat (drop_bit 39 va) < 256" .
  moreover have "drop_bit 39 va AND 0x1FF \<le> drop_bit 39 va" by (rule word_and_le2)
  ultimately show ?thesis unfolding p4_idx_def by (simp add: word_le_nat_alt)
qed

section \<open>Frames behind pages\<close>

text \<open>
  The pages of \<open>P\<close> are mapped in the address space \<open>r\<close>, each to a frame of its own which is in use and is not
  a page table of any address space.
\<close>

definition backed :: "u64 set \<Rightarrow> u64 \<Rightarrow> u64 \<Rightarrow> nat set \<Rightarrow> vmm \<Rightarrow> bool" where
  "backed R r fl P s \<longleftrightarrow> (\<exists>fr. inj_on fr P
     \<and> (\<forall>p\<in>P. owned_frame (vm_pmm s) (fr p) \<and> fr p \<notin> tabs R s)
     \<and> (\<forall>va. page_of va \<in> P \<longrightarrow> translate s r va = Page (pte_set (fr (page_of va)) fl)))"

lemma take_frame_cases:
  assumes "spaces_ok R s"
  obtains "take_frame s = (Ok None, s)" "free_set (vm_pmm s) = {}"
  | a p where "take_frame s = (Ok (Some a), s\<lparr>vm_pmm := p\<rparr>)" "spaces_ok R (s\<lparr>vm_pmm := p\<rparr>)" "owned_frame p a"
      "\<not> owned_frame (vm_pmm s) a" "free_set p \<subseteq> free_set (vm_pmm s)" "card (free_set (vm_pmm s)) = card (free_set p) + 1"
proof (cases rule: alloc_frame_cases [OF spaces_okD(1) [OF assms]])
  case 1
  then show ?thesis by (intro that(1)) (simp_all add: take_frame_def)
next
  case (2 f p)
  define a :: u64 where "a = of_nat (4096 * f)"
  have f: "f < MAX_FRAMES" using 2(2) by (simp add: free_set_def)
  have t: "take_frame s = (Ok (Some a), s\<lparr>vm_pmm := p\<rparr>)" using 2(1) by (simp add: take_frame_def a_def del: of_nat_mult)
  have un: "\<not> owned_frame (vm_pmm s) a" using f 2(2) frame_inj [of f] unfolding owned_frame_def a_def by blast
  have ow: "owned_frame p a" unfolding owned_frame_def a_def using f 2(4) by blast
  have sub: "free_set p \<subseteq> free_set (vm_pmm s)" using 2(4) by blast
  have c: "card (free_set (vm_pmm s)) = card (free_set p) + 1" using 2(2,4) card_Suc_Diff1 [of "free_set (vm_pmm s)" f] by simp
  have "spaces_ok R (s\<lparr>vm_pmm := p\<rparr>)"
    using assms 2(5) owned_mono [OF sub] unfolding spaces_ok_def by simp
  then show ?thesis using t ow un sub c by (intro that(2))
qed

lemma pmm_upd_translate [simp]:
  "translate (s\<lparr>vm_pmm := p\<rparr>) r va = translate s r va" "tabs R (s\<lparr>vm_pmm := p\<rparr>) = tabs R s"
  by (simp_all add: translate_def tabs_def)

lemma backed_fresh:
  assumes ok: "spaces_ok R s" and r: "r \<in> R" and fl: "bit fl 0" and bk: "backed R r fl P s"
    and t: "take_frame s = (Ok (Some a), s1)" and m: "map_page_in r va a fl s1 = (Ok (), s')" and n: "page_of va \<notin> P"
  shows "spaces_ok R s'" "backed R r fl (insert (page_of va) P) s'" "pml4_phys s' = pml4_phys s"
    "page_of va' \<noteq> page_of va \<Longrightarrow> translate s' r va' = translate s r va'"
    "r' \<in> R \<Longrightarrow> r' \<noteq> r \<Longrightarrow> p4_idx va < 256 \<Longrightarrow> translate s' r' va' = translate s r' va'"
    "card (free_set (vm_pmm s)) \<le> card (free_set (vm_pmm s')) + 4"
proof -
  obtain p where p: "s1 = s\<lparr>vm_pmm := p\<rparr>" "spaces_ok R s1" "owned_frame p a" "\<not> owned_frame (vm_pmm s) a"
      "free_set p \<subseteq> free_set (vm_pmm s)" "card (free_set (vm_pmm s)) = card (free_set p) + 1"
    by (cases rule: take_frame_cases [OF ok]) (use t in auto)
  note E = map_page_in_effect [OF p(2) r m fl]
  show "spaces_ok R s'" by (rule E(1))
  show "pml4_phys s' = pml4_phys s" "card (free_set (vm_pmm s)) \<le> card (free_set (vm_pmm s')) + 4"
    using E(3,5) p(1,6) by simp_all
  have T: "translate s' r va' = (if page_of va' = page_of va then Page (pte_set a fl) else translate s r va')" for va'
    using E(6) [OF r, of va'] by (simp add: p(1) page_iff)
  then show "page_of va' \<noteq> page_of va \<Longrightarrow> translate s' r va' = translate s r va'" for va' by simp
  show "translate s' r' va' = translate s r' va'" if "r' \<in> R" "r' \<noteq> r" "p4_idx va < 256" for r' va'
    using E(6) [OF that(1), of va'] E(7) [OF that(3,1,2)] by (simp add: p(1))
  obtain fr where fr: "inj_on fr P" "\<And>q. q \<in> P \<Longrightarrow> owned_frame (vm_pmm s) (fr q) \<and> fr q \<notin> tabs R s"
    "\<And>va. page_of va \<in> P \<Longrightarrow> translate s r va = Page (pte_set (fr (page_of va)) fl)"
    using bk unfolding backed_def by blast
  have own: "owned_frame (vm_pmm s') t" if "owned_frame p t" for t using owned_mono [OF E(4)] that by (simp add: p(1))
  have tab: "t \<notin> tabs R s'" if "owned_frame p t" "t \<notin> tabs R s" for t using E(8) that by (auto simp: p(1))
  have at: "a \<notin> tabs R s" using tabs_owned [OF ok] p(4) by blast
  let ?fr = "fr(page_of va := a)"
  have "inj_on ?fr (insert (page_of va) P)" using fr(1,2) p(4) n by (auto simp: inj_on_def)
  moreover have "owned_frame (vm_pmm s') (?fr q) \<and> ?fr q \<notin> tabs R s'" if "q \<in> insert (page_of va) P" for q
    using that own tab at p(3) fr(2) owned_mono [OF p(5)] by (cases "q = page_of va") auto
  moreover have "translate s' r va' = Page (pte_set (?fr (page_of va')) fl)" if "page_of va' \<in> insert (page_of va) P" for va'
    using that T [of va'] fr(3) [of va'] by auto
  ultimately show "backed R r fl (insert (page_of va) P) s'" unfolding backed_def by blast
qed

lemma release_owned:
  assumes ok: "spaces_ok R s" and a: "owned_frame (vm_pmm s) a" "a \<notin> tabs R s"
  obtains p where "release a s = (Ok (), s\<lparr>vm_pmm := p\<rparr>)" "spaces_ok R (s\<lparr>vm_pmm := p\<rparr>)"
    "\<And>t. t \<noteq> a \<Longrightarrow> owned_frame (vm_pmm s) t \<Longrightarrow> owned_frame p t" "card (free_set p) = card (free_set (vm_pmm s)) + 1"
proof -
  obtain f where f: "f < MAX_FRAMES" "f \<notin> free_set (vm_pmm s)" "a = of_nat (4096 * f)" using a(1) unfolding owned_frame_def by blast
  have lt: "4096 * f < 2 ^ 64" using f(1) by (simp add: sizes(2))
  have u: "unat a = 4096 * f" unfolding f(3) using lt by (simp only: unat_of_nat len_of_numeral_defs) simp
  have m: "a mod 4096 = 0" by (rule word_unat_eq_iff [THEN iffD2]) (simp add: unat_mod u)
  have d: "unat (a div 4096) = f" by (simp add: unat_div u)
  obtain p where p: "free_frame a (vm_pmm s) = (Ok (), p)" "pmm_ok p" "free_set p = insert f (free_set (vm_pmm s))"
    using free_frame_cases [OF spaces_okD(1) [OF ok], of a] m d f(1,2) by auto
  have own: "owned_frame p t" if "t \<noteq> a" "owned_frame (vm_pmm s) t" for t
    using that p(3) unfolding owned_frame_def f(3) by auto
  have "owned_frame p t" if "r \<in> R" "length q \<le> 3" "walk (vm_tables s) r q = Some t" for r q t
  proof (rule own)
    have "t \<in> tabs R s" using that by (auto simp: tabs_def)
    then show "t \<noteq> a" using a(2) by blast
    show "owned_frame (vm_pmm s) t" by (rule spaces_okD(2) [OF ok that])
  qed
  then have "spaces_ok R (s\<lparr>vm_pmm := p\<rparr>)" using ok p(2) unfolding spaces_ok_def by simp
  moreover have "release a s = (Ok (), s\<lparr>vm_pmm := p\<rparr>)" using p(1) by (simp add: release_def)
  moreover have "card (free_set p) = card (free_set (vm_pmm s)) + 1" using p(3) f(2) by simp
  ultimately show ?thesis using that own by blast
qed

lemma no_addr_flags: "frame_addr a \<Longrightarrow> fl AND PHYS_ADDR_MASK = 0 \<Longrightarrow> pte_address (pte_set a fl) = a"
  by (simp add: frame_addr_def pte_address_def pte_set_def bit.conj_disj_distrib2)

lemma backed_release:
  assumes ok: "spaces_ok R s" and r: "r \<in> R" and fl: "fl AND PHYS_ADDR_MASK = 0" "bit fl 0" and bk: "backed R r fl P s"
    and n: "page_of va \<in> P"
  obtains s' where "unmap_release r va s = (Ok (), s')" "spaces_ok R s'" "backed R r fl (P - {page_of va}) s'"
    "pml4_phys s' = pml4_phys s" "\<And>va'. page_of va' \<noteq> page_of va \<Longrightarrow> translate s' r va' = translate s r va'"
    "\<And>r' va'. r' \<in> R \<Longrightarrow> r' \<noteq> r \<Longrightarrow> p4_idx va < 256 \<Longrightarrow> translate s' r' va' = translate s r' va'"
    "card (free_set (vm_pmm s')) = card (free_set (vm_pmm s)) + 1"
proof -
  obtain fr where fr: "inj_on fr P" "\<And>q. q \<in> P \<Longrightarrow> owned_frame (vm_pmm s) (fr q) \<and> fr q \<notin> tabs R s"
    "\<And>va. page_of va \<in> P \<Longrightarrow> translate s r va = Page (pte_set (fr (page_of va)) fl)"
    using bk unfolding backed_def by blast
  let ?a = "fr (page_of va)"
  have t: "translate s r va = Page (pte_set ?a fl)" by (rule fr(3) [OF n])
  then have h: "\<nexists>e. translate s r va = HugePage e" by simp
  obtain got s1 where u: "unmap_page_in r va s = (got, s1)" by (metis surj_pair)
  note E = unmap_page_in_effect [OF ok r h u]
  have ad: "pte_address (pte_set ?a fl) = ?a" by (rule no_addr_flags [OF owned_frame_addr fl(1)]) (use fr(2) [OF n] in blast)
  have g: "got = Some ?a" using E(1) query_translate [of r va s] t ad by simp
  have a1: "owned_frame (vm_pmm s1) ?a" "?a \<notin> tabs R s1" using fr(2) [OF n] E(4,9) by simp_all
  obtain p where p: "release ?a s1 = (Ok (), s1\<lparr>vm_pmm := p\<rparr>)" "spaces_ok R (s1\<lparr>vm_pmm := p\<rparr>)"
    "\<And>t. t \<noteq> ?a \<Longrightarrow> owned_frame (vm_pmm s1) t \<Longrightarrow> owned_frame p t" "card (free_set p) = card (free_set (vm_pmm s1)) + 1"
    using release_owned [OF E(3) a1] by blast
  have T: "translate s1 r va' = translate s r va'" if "page_of va' \<noteq> page_of va" for va'
    using E(7) [OF r] that page_iff by blast
  have "backed R r fl (P - {page_of va}) (s1\<lparr>vm_pmm := p\<rparr>)" unfolding backed_def
  proof (intro exI [of _ fr] conjI ballI allI impI)
    show "inj_on fr (P - {page_of va})" using fr(1) by (auto simp: inj_on_def)
    fix q assume q: "q \<in> P - {page_of va}"
    have "fr q \<noteq> ?a" using fr(1) q n by (auto simp: inj_on_def)
    then show "owned_frame (vm_pmm (s1\<lparr>vm_pmm := p\<rparr>)) (fr q)" using p(3) fr(2) [of q] q E(4) by simp
    show "fr q \<notin> tabs R (s1\<lparr>vm_pmm := p\<rparr>)" using fr(2) [of q] q E(9) by simp
  next
    fix va' assume "page_of va' \<in> P - {page_of va}"
    then show "translate (s1\<lparr>vm_pmm := p\<rparr>) r va' = Page (pte_set (fr (page_of va')) fl)" using T fr(3) by simp
  qed
  moreover have "unmap_release r va s = (Ok (), s1\<lparr>vm_pmm := p\<rparr>)" by (simp add: unmap_release_def u g p(1))
  moreover have "translate s1 r' va' = translate s r' va'" if "r' \<in> R" "r' \<noteq> r" "p4_idx va < 256" for r' va'
    using E(7) [OF that(1), of va'] that by blast
  ultimately show ?thesis using p(2,4) T E(4,5) by (intro that [of "s1\<lparr>vm_pmm := p\<rparr>"]) simp_all
qed

section \<open>The loops of the program break\<close>

text \<open>What the calls leave alone: the translations of the other address spaces and of the pages outside \<open>Q\<close>.\<close>

definition only_pages :: "u64 set \<Rightarrow> u64 \<Rightarrow> nat set \<Rightarrow> vmm \<Rightarrow> vmm \<Rightarrow> bool" where
  "only_pages R r Q s s' \<longleftrightarrow> pml4_phys s' = pml4_phys s \<and> (\<forall>va. page_of va \<notin> Q \<longrightarrow> translate s' r va = translate s r va)
     \<and> (\<forall>r'\<in>R - {r}. \<forall>va. translate s' r' va = translate s r' va)"

lemma only_pages_refl [simp]: "only_pages R r Q s s"
  by (simp add: only_pages_def)

lemma only_pages_step: "only_pages R r Q s s1 \<Longrightarrow> only_pages R r Q' s1 s2 \<Longrightarrow> Q \<subseteq> T \<Longrightarrow> Q' \<subseteq> T \<Longrightarrow> only_pages R r T s s2"
  by (simp add: only_pages_def) (metis subsetD)

text \<open>The range of pages that starts at \<open>base\<close> and has \<open>n\<close> pages lies in the lower half.\<close>

definition low_range :: "u64 \<Rightarrow> nat \<Rightarrow> bool" where
  "low_range base n \<longleftrightarrow> unat base + 4096 * n \<le> 2 ^ 47"

lemma low_range_page:
  assumes "low_range base n" "i < n"
  shows "page_of (base + of_nat i * 0x1000) = page_of base + i" "p4_idx (base + of_nat i * 0x1000) < 256"
    "unat (base + of_nat i * 0x1000) = unat base + 4096 * i"
proof -
  have "unat base < 2 ^ 48" using assms by (auto simp: low_range_def)
  then have "unat base mod 2 ^ 48 + 4096 * n \<le> 2 ^ 48" using assms(1) by (simp add: low_range_def)
  note p = page_of_add [OF this assms(2)]
  show "page_of (base + of_nat i * 0x1000) = page_of base + i" "unat (base + of_nat i * 0x1000) = unat base + 4096 * i"
    by (rule p)+
  show "p4_idx (base + of_nat i * 0x1000) < 256" by (rule user_half) (use p(2) assms in \<open>simp add: low_range_def\<close>)
qed

lemma user_rw_flags: "USER_RW AND PHYS_ADDR_MASK = 0" "bit USER_RW 0"
  "PF_PRESENT OR PF_WRITABLE OR PF_USER OR PF_NX = USER_RW"
  by (simp_all add: USER_RW_def PHYS_ADDR_MASK_def PF_PRESENT_def PF_WRITABLE_def PF_USER_def PF_NX_def bit_or_iff)

text \<open>The state of a call: the heap pages of the task are backed.\<close>

definition mem_ok :: "u64 set \<Rightarrow> u64 \<Rightarrow> nat set \<Rightarrow> memk \<Rightarrow> bool" where
  "mem_ok R r P k \<longleftrightarrow> mk_pt k = Some r \<and> r \<in> R \<and> spaces_ok R (mk_vm k) \<and> backed R r USER_RW P (mk_vm k)"

definition rest_same :: "memk \<Rightarrow> memk \<Rightarrow> bool" where
  "rest_same k k' \<longleftrightarrow> mk_caps k' = mk_caps k \<and> mk_pt k' = mk_pt k \<and> mk_brk k' = mk_brk k \<and> mk_vmas k' = mk_vmas k"

lemma grow_loop_spec:
  assumes "low_range base n" "m \<le> n" "a \<le> page_of base" "mem_ok R r {a..<page_of base + m} k"
    and "brk_grow_loop (map (\<lambda>i. base + of_nat i * 0x1000) [m..<n]) k = (res, k')"
  shows "rest_same k k' \<and> (case res of
      Ok stop \<Rightarrow> (\<exists>j. m \<le> j \<and> j \<le> n \<and> stop = (if j = n then None else Some (base + of_nat j * 0x1000))
          \<and> (j < n \<longrightarrow> free_set (vm_pmm (mk_vm k')) = {})
          \<and> mem_ok R r {a..<page_of base + j} k' \<and> only_pages R r {page_of base + m..<page_of base + j} (mk_vm k) (mk_vm k'))
    | Err _ \<Rightarrow> False
    | Panic \<Rightarrow> m < n \<and> ((\<exists>va e. page_of va \<in> {page_of base + m..<page_of base + n} \<and> translate (mk_vm k) r va = HugePage e)
        \<or> card (free_set (vm_pmm (mk_vm k))) < 4 * (n - m)))"
  using assms(2,4,5)
proof (induction "n - m" arbitrary: m k)
  case 0
  then show ?case by (auto simp: rest_same_def)
next
  case (Suc d)
  let ?va = "base + of_nat m * 0x1000" let ?P = "{a..<page_of base + m}"
  have mn: "m < n" using Suc.hyps(2) by simp
  then have up: "[m..<n] = m # [Suc m..<n]" by (simp add: upt_conv_Cons)
  note lp = low_range_page [OF assms(1) mn]
  have k: "mk_pt k = Some r" "r \<in> R" "spaces_ok R (mk_vm k)" "backed R r USER_RW ?P (mk_vm k)"
    using Suc.prems(2) by (simp_all add: mem_ok_def)
  show ?case
  proof (cases rule: take_frame_cases [OF k(3)])
    case 1
    then have "res = Ok (Some ?va)" "k' = k" using Suc.prems(3) by (simp_all add: up bindS_def on_vm_def retS_def)
    then show ?thesis using mn Suc.prems(2) 1(2) by (auto simp: rest_same_def intro!: exI [of _ m])
  next
    case (2 f p)
    let ?s1 = "mk_vm k\<lparr>vm_pmm := p\<rparr>"
    have r: "brk_grow_loop (map (\<lambda>i. base + of_nat i * 0x1000) [m..<n]) k
        = bindS (map_current ?va f USER_RW) (\<lambda>_. brk_grow_loop (map (\<lambda>i. base + of_nat i * 0x1000) [Suc m..<n])) (k\<lparr>mk_vm := ?s1\<rparr>)"
      using 2(1) by (simp add: up bindS_def on_vm_def user_rw_flags(3))
    show ?thesis
    proof (cases rule: map_page_in_cases [OF 2(2) k(2), of ?va f USER_RW])
      case (1 s2 t)
      obtain s' where m': "map_page_in r ?va f USER_RW ?s1 = (Ok (), s')" using 1(3) by blast
      have np: "page_of ?va \<notin> ?P" using lp(1) by simp
      note F = backed_fresh [OF k(3,2) user_rw_flags(2) k(4) 2(1) m' np]
      let ?k1 = "k\<lparr>mk_vm := s'\<rparr>"
      have ins: "insert (page_of ?va) ?P = {a..<page_of base + Suc m}" using lp(1) assms(3) by auto
      have ok1: "mem_ok R r {a..<page_of base + Suc m} ?k1" using F(1,2) k(1,2) by (simp add: mem_ok_def ins)
      have eq: "brk_grow_loop (map (\<lambda>i. base + of_nat i * 0x1000) [Suc m..<n]) ?k1 = (res, k')"
        using Suc.prems(3) m' k(1) unfolding r by (simp add: map_current_def bindS_def on_vm_def)
      have d: "d = n - Suc m" using Suc.hyps(2) by simp
      have one: "only_pages R r {page_of base + m} (mk_vm k) s'" using F(3,4,5) lp(1,2) by (auto simp: only_pages_def)
      from Suc.hyps(1) [OF d _ ok1 eq] mn show ?thesis
      proof (cases res)
        case (Ok stop)
        with Suc.hyps(1) [OF d _ ok1 eq] mn obtain j where j: "Suc m \<le> j" "j \<le> n"
          "stop = (if j = n then None else Some (base + of_nat j * 0x1000))" "mem_ok R r {a..<page_of base + j} k'"
          "only_pages R r {page_of base + Suc m..<page_of base + j} s' (mk_vm k')" "rest_same ?k1 k'"
          "j < n \<longrightarrow> free_set (vm_pmm (mk_vm k')) = {}" by auto
        have "only_pages R r {page_of base + m..<page_of base + j} (mk_vm k) (mk_vm k')"
          by (rule only_pages_step [OF one j(5)]) (use j(1) in auto)
        then show ?thesis using j Ok by (auto simp: rest_same_def intro!: exI [of _ j])
      next
        case Panic
        then have c: "(\<exists>va e. page_of va \<in> {page_of base + Suc m..<page_of base + n} \<and> translate s' r va = HugePage e)
            \<or> card (free_set (vm_pmm s')) < 4 * (n - Suc m)" and rs: "rest_same ?k1 k'"
          using Suc.hyps(1) [OF d _ ok1 eq] mn by auto
        have "translate s' r va = translate (mk_vm k) r va" if "page_of va \<in> {page_of base + Suc m..<page_of base + n}" for va
          by (rule F(4)) (use that lp(1) in simp)
        moreover have "{page_of base + Suc m..<page_of base + n} \<subseteq> {page_of base + m..<page_of base + n}" by auto
        moreover have "card (free_set (vm_pmm (mk_vm k))) < 4 * (n - m)" if "card (free_set (vm_pmm s')) < 4 * (n - Suc m)"
          using that F(6) mn by simp
        ultimately show ?thesis using c rs Panic mn by (auto simp: rest_same_def intro: Suc_leD)
      qed (auto simp: rest_same_def)
    next
      case h: (2 s' e)
      then have "res = Panic" "rest_same k k'"
        using Suc.prems(3) k(1) unfolding r by (auto simp: map_current_def bindS_def on_vm_def rest_same_def)
      moreover have "page_of ?va \<in> {page_of base + m..<page_of base + n}" "translate (mk_vm k) r ?va = HugePage e"
        using lp(1) mn h(2) by simp_all
      ultimately show ?thesis using mn by auto
    next
      case h: (3 s')
      then have "res = Panic" "rest_same k k'"
        using Suc.prems(3) k(1) unfolding r by (auto simp: map_current_def bindS_def on_vm_def rest_same_def)
      moreover have "card (free_set (vm_pmm (mk_vm k))) < 4 * (n - m)" using h(2) 2(6) mn by simp
      ultimately show ?thesis using mn by simp
    qed
  qed
qed

lemma shrink_loop_spec:
  assumes "low_range base n" "m \<le> n" "r \<in> R" "spaces_ok R s" "a \<le> page_of base"
    and "backed R r USER_RW ({a..<page_of base} \<union> {page_of base + m..<page_of base + n}) s"
  shows "\<exists>s'. forS (map (\<lambda>i. base + of_nat i * 0x1000) [m..<n]) (unmap_release r) s = (Ok (), s') \<and> spaces_ok R s'
    \<and> backed R r USER_RW {a..<page_of base} s' \<and> only_pages R r {page_of base + m..<page_of base + n} s s'
    \<and> card (free_set (vm_pmm s')) = card (free_set (vm_pmm s)) + (n - m)"
  using assms(2,4,6)
proof (induction "n - m" arbitrary: m s)
  case 0
  then show ?case by (auto simp: retS_def)
next
  case (Suc d)
  let ?va = "base + of_nat m * 0x1000" let ?P = "{a..<page_of base} \<union> {page_of base + m..<page_of base + n}"
  have mn: "m < n" using Suc.hyps(2) by simp
  then have up: "[m..<n] = m # [Suc m..<n]" by (simp add: upt_conv_Cons)
  note lp = low_range_page [OF assms(1) mn]
  have mem: "page_of ?va \<in> ?P" using lp(1) mn by simp
  obtain s1 where s1: "unmap_release r ?va s = (Ok (), s1)" "spaces_ok R s1" "backed R r USER_RW (?P - {page_of ?va}) s1"
    "pml4_phys s1 = pml4_phys s" "\<And>va'. page_of va' \<noteq> page_of ?va \<Longrightarrow> translate s1 r va' = translate s r va'"
    "\<And>r' va'. r' \<in> R \<Longrightarrow> r' \<noteq> r \<Longrightarrow> p4_idx ?va < 256 \<Longrightarrow> translate s1 r' va' = translate s r' va'"
    "card (free_set (vm_pmm s1)) = card (free_set (vm_pmm s)) + 1"
    by (rule backed_release [OF Suc.prems(2) assms(3) user_rw_flags(1,2) Suc.prems(3) mem]) blast
  have P: "?P - {page_of ?va} = {a..<page_of base} \<union> {page_of base + Suc m..<page_of base + n}" using lp(1) by auto
  have d: "d = n - Suc m" "Suc m \<le> n" using Suc.hyps(2) by simp_all
  from Suc.hyps(1) [OF d s1(2) s1(3) [unfolded P]] obtain s' where
    s': "forS (map (\<lambda>i. base + of_nat i * 0x1000) [Suc m..<n]) (unmap_release r) s1 = (Ok (), s')" "spaces_ok R s'"
      "backed R r USER_RW {a..<page_of base} s'" "only_pages R r {page_of base + Suc m..<page_of base + n} s1 s'"
      "card (free_set (vm_pmm s')) = card (free_set (vm_pmm s1)) + (n - Suc m)" by blast
  have one: "only_pages R r {page_of base + m} s s1" using s1(4,5,6) lp(1,2) by (auto simp: only_pages_def)
  have "only_pages R r {page_of base + m..<page_of base + n} s s'"
    by (rule only_pages_step [OF one s'(4)]) (use mn in auto)
  then show ?case using s' s1(1,7) mn unfolding up by (auto simp: bindS_def)
qed

section \<open>The program break\<close>

definition cur_brk :: "memk \<Rightarrow> u64" where
  "cur_brk k = (if mk_brk k = 0 then HEAP_BASE else mk_brk k)"

definition brk_ok :: "memk \<Rightarrow> bool" where
  "brk_ok k \<longleftrightarrow> HEAP_BASE \<le> cur_brk k \<and> cur_brk k < STACK_GUARD"

text \<open>The pages that the heap reaches into.\<close>

definition heap_pages :: "u64 \<Rightarrow> nat set" where
  "heap_pages b = {page_of HEAP_BASE..<page_of (page_up b)}"

definition brk_inv :: "u64 set \<Rightarrow> u64 \<Rightarrow> memk \<Rightarrow> bool" where
  "brk_inv R r k \<longleftrightarrow> brk_ok k \<and> mem_ok R r (heap_pages (cur_brk k)) k"

lemma page_up_nat: "unat x + 4095 < 2 ^ 64 \<Longrightarrow> unat (page_up x) = 4096 * ((unat x + 4095) div 4096)"
proof -
  assume a: "unat x + 4095 < 2 ^ 64"
  have m: "(0xFFF :: u64) = mask 12" by (simp add: mask_eq_exp_minus_1)
  have u: "unat (x + 0xFFF) = unat x + 4095" using a by (simp add: unat_word_ariths)
  have "page_up x = (x + 0xFFF) AND NOT (mask 12)" unfolding page_up_def by (simp only: m)
  also have "\<dots> = push_bit 12 (drop_bit 12 (x + 0xFFF))" by (rule bit_word_eqI) (auto simp: bit_simps)
  finally have "unat (page_up x) = unat (push_bit 12 (drop_bit 12 (x + 0xFFF)))" by simp
  also have "\<dots> = 4096 * (unat (x + 0xFFF) div 4096)"
  proof -
    have "unat (drop_bit 12 (x + 0xFFF)) = unat (x + 0xFFF) div 4096" by (simp add: drop_bit_eq_div unat_div)
    moreover have "unat (x + 0xFFF) div 4096 * 4096 < 2 ^ 64"
      using a le_less_trans [OF div_times_less_eq_dividend [of "unat (x + 0xFFF)" 4096]] u by simp
    ultimately show ?thesis by (simp add: push_bit_eq_mult mult.commute unat_word_ariths)
  qed
  finally show ?thesis unfolding u .
qed

lemma page_aligned: "unat b mod 4096 = 0 \<Longrightarrow> b AND 0xFFF = 0" for b :: u64
proof -
  assume "unat b mod 4096 = 0"
  then have "b mod 4096 = 0" by (simp add: word_unat_eq_iff unat_mod)
  moreover have "(0xFFF :: u64) = mask 12" by (simp add: mask_eq_exp_minus_1)
  ultimately show ?thesis by (simp only: take_bit_eq_mask [symmetric] take_bit_eq_mod) simp
qed

definition pg :: "u64 \<Rightarrow> nat" where
  "pg b = (unat b + 4095) div 4096"

lemma heap_range:
  assumes "HEAP_BASE \<le> b" "b < STACK_GUARD"
  shows "unat (page_up b) = 4096 * pg b" "page_of (page_up b) = pg b" "page_of HEAP_BASE \<le> pg b"
    "4096 * pg b \<le> unat STACK_GUARD" "unat b \<le> 4096 * pg b" "4096 * pg b < unat b + 4096" "heap_pages b = {page_of HEAP_BASE..<pg b}"
proof -
  have n: "17179869184 \<le> unat b" "unat b < 140728898420736"
    using assms by (simp_all add: HEAP_BASE_def STACK_GUARD_def word_le_nat_alt word_less_nat_alt)
  show u: "unat (page_up b) = 4096 * pg b" unfolding pg_def by (rule page_up_nat) (use n in simp)
  have "4096 * pg b + (unat b + 4095) mod 4096 = unat b + 4095" "(unat b + 4095) mod 4096 < 4096"
    unfolding pg_def by (simp_all only: mult_div_mod_eq)
  then show r: "unat b \<le> 4096 * pg b" "4096 * pg b < unat b + 4096" by linarith+
  have "pg b \<le> 34357641216" using r(2) n(2) by linarith
  then show "4096 * pg b \<le> unat STACK_GUARD" by (simp add: STACK_GUARD_def)
  then have "4096 * pg b < 2 ^ 48" by (simp add: STACK_GUARD_def)
  then show p: "page_of (page_up b) = pg b" by (simp add: page_of_def u)
  show "page_of HEAP_BASE \<le> pg b" using r(1) n(1) by (simp add: page_of_def HEAP_BASE_def)
  show "heap_pages b = {page_of HEAP_BASE..<pg b}" by (simp add: heap_pages_def p)
qed

lemma pages_run:
  assumes "HEAP_BASE \<le> b" "b < STACK_GUARD" "HEAP_BASE \<le> c" "c < STACK_GUARD" "b \<le> c"
  shows "pages (page_up b) (page_up c) = map (\<lambda>i. page_up b + of_nat i * 0x1000) [0..<pg c - pg b]"
    "low_range (page_up b) (pg c - pg b)" "pg b \<le> pg c"
proof -
  note B = heap_range [OF assms(1,2)] and C = heap_range [OF assms(3,4)]
  show le: "pg b \<le> pg c" using assms(5) by (auto simp: pg_def word_le_nat_alt intro: div_le_mono)
  show "pages (page_up b) (page_up c) = map (\<lambda>i. page_up b + of_nat i * 0x1000) [0..<pg c - pg b]"
    by (simp add: pages_def B(1) C(1) flip: diff_mult_distrib2)
  show "low_range (page_up b) (pg c - pg b)"
    using B(1) C(4) le by (simp add: low_range_def STACK_GUARD_def diff_mult_distrib2)
qed

lemma brk_shrink_effect:
  assumes inv: "brk_inv R r k" and c: "may_write_memory k" and t: "t \<noteq> 0" "HEAP_BASE \<le> t" "t \<le> cur_brk k"
  shows "\<exists>s'. sys_brk t k = (Ok t, k\<lparr>mk_vm := s', mk_brk := t\<rparr>) \<and> brk_inv R r (k\<lparr>mk_vm := s', mk_brk := t\<rparr>)
    \<and> only_pages R r (heap_pages (cur_brk k)) (mk_vm k) s'
    \<and> card (free_set (vm_pmm s')) = card (free_set (vm_pmm (mk_vm k))) + (pg (cur_brk k) - pg t)"
proof -
  have k: "HEAP_BASE \<le> cur_brk k" "cur_brk k < STACK_GUARD" "mk_pt k = Some r" "r \<in> R" "spaces_ok R (mk_vm k)"
    "backed R r USER_RW (heap_pages (cur_brk k)) (mk_vm k)"
    using inv by (simp_all add: brk_inv_def brk_ok_def mem_ok_def)
  have t': "t < STACK_GUARD" using t(3) k(2) by simp
  note T = heap_range [OF t(2) t'] and C = heap_range [OF k(1,2)]
  note P = pages_run [OF t(2) t' k(1,2) t(3)]
  have hp: "heap_pages (cur_brk k) = {page_of HEAP_BASE..<page_of (page_up t)} \<union> {page_of (page_up t) + 0..<page_of (page_up t) + (pg (cur_brk k) - pg t)}"
    unfolding C(7) T(2) using T(3) P(3) by (simp add: ivl_disj_un_two(3))
  have aT: "page_of HEAP_BASE \<le> page_of (page_up t)" using T(2,3) by simp
  obtain s' where s': "forS (pages (page_up t) (page_up (cur_brk k))) (unmap_release r) (mk_vm k) = (Ok (), s')" "spaces_ok R s'"
      "backed R r USER_RW {page_of HEAP_BASE..<page_of (page_up t)} s'"
      "only_pages R r {page_of (page_up t) + 0..<page_of (page_up t) + (pg (cur_brk k) - pg t)} (mk_vm k) s'"
      "card (free_set (vm_pmm s')) = card (free_set (vm_pmm (mk_vm k))) + (pg (cur_brk k) - pg t - 0)"
    using shrink_loop_spec [OF P(2) le0 k(4,5) aT k(6) [unfolded hp]] unfolding P(1) by blast
  have e: "\<not> t < HEAP_BASE" using t(2) by simp
  have "sys_brk t k = bindS (on_vm (forS (pages (page_up t) (page_up (cur_brk k))) (unmap_release r)))
      (\<lambda>_. bindS (modS (\<lambda>k. k\<lparr>mk_brk := t\<rparr>)) (\<lambda>_. retS t)) k"
    by (simp only: sys_brk_def cur_brk_def [symmetric] Let_def c t(1,3) e k(3) option.case if_True if_False not_True_eq_False)
  then have "sys_brk t k = (Ok t, k\<lparr>mk_vm := s', mk_brk := t\<rparr>)"
    by (simp add: bindS_def on_vm_def modS_def retS_def s'(1))
  moreover have "brk_inv R r (k\<lparr>mk_vm := s', mk_brk := t\<rparr>)"
    using t t' k(3,4) s'(2,3) by (simp add: brk_inv_def brk_ok_def mem_ok_def cur_brk_def heap_pages_def)
  moreover have "only_pages R r (heap_pages (cur_brk k)) (mk_vm k) s'"
    by (rule only_pages_step [OF s'(4) only_pages_refl [where Q = "{}"]]) (auto simp: hp)
  ultimately show ?thesis using s'(5) by auto
qed

lemma brk_grow_effect:
  assumes inv: "brk_inv R r k" and c: "may_write_memory k" and t: "cur_brk k < t" "t < STACK_GUARD" and s: "sys_brk t k = (res, k')"
  shows "case res of
      Ok b \<Rightarrow> brk_inv R r k' \<and> b = cur_brk k' \<and> cur_brk k \<le> b \<and> b \<le> t \<and> (b \<noteq> t \<longrightarrow> b AND 0xFFF = 0)
        \<and> (b < t \<longrightarrow> free_set (vm_pmm (mk_vm k')) = {}) \<and> only_pages R r (heap_pages b) (mk_vm k) (mk_vm k')
    | Err _ \<Rightarrow> False
    | Panic \<Rightarrow> mk_brk k' = mk_brk k
        \<and> ((\<exists>va e. page_of va \<in> heap_pages t \<and> translate (mk_vm k) r va = HugePage e)
           \<or> card (free_set (vm_pmm (mk_vm k))) < 4 * (card (heap_pages t) - card (heap_pages (cur_brk k))))"
proof -
  have k: "HEAP_BASE \<le> cur_brk k" "cur_brk k < STACK_GUARD" "mem_ok R r (heap_pages (cur_brk k)) k"
    using inv by (simp_all add: brk_inv_def brk_ok_def)
  let ?b = "page_up (cur_brk k)" let ?n = "pg t - pg (cur_brk k)"
  have t0: "t \<noteq> 0" "\<not> t \<le> cur_brk k" "\<not> STACK_GUARD \<le> t" "HEAP_BASE \<le> t" "cur_brk k \<le> t" using t k(1) by auto
  note C = heap_range [OF k(1,2)] and T = heap_range [OF t0(4) t(2)]
  note P = pages_run [OF k(1,2) t0(4) t(2) t0(5)]
  obtain res1 k1 where g: "brk_grow_loop (map (\<lambda>i. ?b + of_nat i * 0x1000) [0..<?n]) k = (res1, k1)" by (metis surj_pair)
  have "sys_brk t k = bindS (brk_grow_loop (map (\<lambda>i. ?b + of_nat i * 0x1000) [0..<?n])) (\<lambda>stop.
      bindS (modS (\<lambda>k. k\<lparr>mk_brk := case stop of None \<Rightarrow> t | Some va \<Rightarrow> va\<rparr>)) (\<lambda>_. retS (case stop of None \<Rightarrow> t | Some va \<Rightarrow> va))) k"
    by (simp only: sys_brk_def cur_brk_def [symmetric] Let_def c t0 if_True if_False not_True_eq_False P(1))
  then have e: "(res, k') = (case res1 of
      Ok stop \<Rightarrow> (Ok (case stop of None \<Rightarrow> t | Some va \<Rightarrow> va), k1\<lparr>mk_brk := case stop of None \<Rightarrow> t | Some va \<Rightarrow> va\<rparr>)
    | Err e \<Rightarrow> (Err e, k1) | Panic \<Rightarrow> (Panic, k1))"
    using s by (simp add: bindS_def modS_def retS_def g split: res.splits)
  have m0: "mem_ok R r {page_of HEAP_BASE..<page_of ?b + 0} k" using k(3) by (simp add: heap_pages_def)
  have aC: "page_of HEAP_BASE \<le> page_of ?b" using C(2,3) by simp
  note G = grow_loop_spec [OF P(2) le0 aC m0 g]
  show ?thesis
  proof (cases res1)
    case (Ok stop)
    obtain j where j: "j \<le> ?n" "stop = (if j = ?n then None else Some (?b + of_nat j * 0x1000))"
      "j < ?n \<longrightarrow> free_set (vm_pmm (mk_vm k1)) = {}" "mem_ok R r {page_of HEAP_BASE..<page_of ?b + j} k1"
      "only_pages R r {page_of ?b + 0..<page_of ?b + j} (mk_vm k) (mk_vm k1)"
      using G unfolding Ok by auto
    define b where "b = (case stop of None \<Rightarrow> t | Some va \<Rightarrow> va)"
    have r: "res = Ok b" "k' = k1\<lparr>mk_brk := b\<rparr>" using e unfolding Ok by (simp_all add: b_def)
    have b: "cur_brk k \<le> b" "b \<le> t" "pg b = pg (cur_brk k) + j" "b \<noteq> t \<longrightarrow> b AND 0xFFF = 0 \<and> j < ?n" "b < t \<longrightarrow> j < ?n"
    proof -
      consider "j = ?n" "b = t" | "j < ?n" "b = ?b + of_nat j * 0x1000" using j(1,2) by (auto simp: b_def split: if_splits)
      then have "cur_brk k \<le> b \<and> b \<le> t \<and> pg b = pg (cur_brk k) + j \<and> (b \<noteq> t \<longrightarrow> b AND 0xFFF = 0 \<and> j < ?n)"
      proof cases
        case 1
        then show ?thesis using t0(5) P(3) by simp
      next
        case 2
        have u: "unat b = 4096 * (pg (cur_brk k) + j)" using low_range_page(3) [OF P(2) 2(1)] 2(2) C(1) by simp
        have "4096 * (pg (cur_brk k) + j) + 4096 \<le> 4096 * pg t" using 2(1) P(3) by simp
        then have "unat b \<le> unat t" using u T(6) by linarith
        moreover have "unat (cur_brk k) \<le> unat b" using u C(5) by simp
        moreover have "pg b = pg (cur_brk k) + j" unfolding pg_def [of b] u by simp
        moreover have "b AND 0xFFF = 0" by (rule page_aligned) (simp add: u)
        ultimately show ?thesis using 2(1) by (simp add: word_le_nat_alt)
      qed
      then show "cur_brk k \<le> b" "b \<le> t" "pg b = pg (cur_brk k) + j" "b \<noteq> t \<longrightarrow> b AND 0xFFF = 0 \<and> j < ?n" "b < t \<longrightarrow> j < ?n"
        by auto
    qed
    have b0: "b \<noteq> 0" "HEAP_BASE \<le> b" "b < STACK_GUARD" using b(1,2) k(1) t(2) by (auto simp: HEAP_BASE_def)
    note B = heap_range [OF b0(2,3)]
    have "brk_inv R r k'" using j(4) b0 b(3) C(2) B(7) by (simp add: r brk_inv_def brk_ok_def cur_brk_def mem_ok_def)
    moreover have v: "mk_vm k' = mk_vm k1" by (simp add: r)
    moreover have "only_pages R r (heap_pages b) (mk_vm k) (mk_vm k')"
      using j(5) unfolding v by (rule only_pages_step [OF _ only_pages_refl [where Q = "{}"]]) (use B(7) C(2,3) b(3) in auto)
    ultimately show ?thesis using b b0 j(3) by (simp add: r cur_brk_def)
  next
    case (Err x)
    then show ?thesis using G by simp
  next
    case Panic
    have "page_of va \<in> heap_pages t" if "page_of va \<in> {page_of ?b + 0..<page_of ?b + ?n}" for va
      using that C(2,3) T(7) P(3) by simp
    moreover have "card (heap_pages t) - card (heap_pages (cur_brk k)) = ?n" using T(3,7) C(3,7) by simp
    ultimately show ?thesis using G e Panic by (auto simp: rest_same_def) blast
  qed
qed

text \<open>
  C5. The program break.  As long as every page of the heap below the break is backed by a frame of its own, which is
  in use and not a page table, every call of \<^verbatim>\<open>SYS_BRK\<close> keeps it so and keeps the tables of all address spaces
  disjoint.  Without the Memory capability or with an address outside the heap window nothing changes.  Shrinking
  always succeeds and returns every released frame; growing moves the break to the request or, when the frames run
  out, to the end of the last backed page.  No page outside the heap and no other address space is touched, and only
  growing may panic, when fewer than four frames per new page are free or a huge page is in the way.
\<close>
theorem brk_backs_heap:
  assumes "brk_inv R r k" "sys_brk t k = (res, k')"
  shows "case res of
      Ok b \<Rightarrow> brk_inv R r k' \<and> only_pages R r (heap_pages (cur_brk k) \<union> heap_pages (cur_brk k')) (mk_vm k) (mk_vm k')
        \<and> (if \<not> may_write_memory k then b = ENOPERM \<and> k' = k
           else if t = 0 then b = cur_brk k \<and> cur_brk k' = b \<and> mk_vm k' = mk_vm k
           else if t < HEAP_BASE \<or> STACK_GUARD \<le> t then b = EINVAL \<and> k' = k
           else b = cur_brk k' \<and> (t \<le> cur_brk k \<longrightarrow> b = t \<and> card (free_set (vm_pmm (mk_vm k')))
                  = card (free_set (vm_pmm (mk_vm k))) + (card (heap_pages (cur_brk k)) - card (heap_pages t)))
             \<and> (cur_brk k < t \<longrightarrow> cur_brk k \<le> b \<and> b \<le> t \<and> (b < t \<longrightarrow> free_set (vm_pmm (mk_vm k')) = {})))
    | Err _ \<Rightarrow> False
    | Panic \<Rightarrow> cur_brk k < t \<and> t < STACK_GUARD
        \<and> ((\<exists>va e. page_of va \<in> heap_pages t \<and> translate (mk_vm k) r va = HugePage e)
           \<or> card (free_set (vm_pmm (mk_vm k))) < 4 * (card (heap_pages t) - card (heap_pages (cur_brk k))))"
proof -
  have kb: "HEAP_BASE \<le> cur_brk k" "cur_brk k < STACK_GUARD" using assms(1) by (simp_all add: brk_inv_def brk_ok_def)
  consider "\<not> may_write_memory k" | "may_write_memory k" "t = 0" | "may_write_memory k" "t \<noteq> 0" "t < HEAP_BASE"
    | "may_write_memory k" "t \<noteq> 0" "HEAP_BASE \<le> t" "t \<le> cur_brk k" | "may_write_memory k" "cur_brk k < t" "t < STACK_GUARD"
    | "may_write_memory k" "cur_brk k < t" "STACK_GUARD \<le> t" by force
  then show ?thesis
  proof cases
    case 1
    then have "res = Ok ENOPERM" "k' = k" using assms(2) by (simp_all add: sys_brk_def)
    then show ?thesis using 1 assms(1) by simp
  next
    case 2
    then have "res = Ok (cur_brk k)" "k' = k\<lparr>mk_brk := cur_brk k\<rparr>" using assms(2)
      by (auto simp: sys_brk_def cur_brk_def Let_def split: if_splits)
    moreover have "cur_brk (k\<lparr>mk_brk := cur_brk k\<rparr>) = cur_brk k" by (simp add: cur_brk_def HEAP_BASE_def)
    ultimately show ?thesis using 2 assms(1) by (simp add: brk_inv_def brk_ok_def mem_ok_def)
  next
    case 3
    then have "res = Ok EINVAL" "k' = k" using assms(2) kb(1) by (auto simp: sys_brk_def cur_brk_def Let_def split: if_splits)
    then show ?thesis using 3 assms(1) by simp
  next
    case 4
    obtain s' where s': "sys_brk t k = (Ok t, k\<lparr>mk_vm := s', mk_brk := t\<rparr>)" "brk_inv R r (k\<lparr>mk_vm := s', mk_brk := t\<rparr>)"
      "only_pages R r (heap_pages (cur_brk k)) (mk_vm k) s'"
      "card (free_set (vm_pmm s')) = card (free_set (vm_pmm (mk_vm k))) + (pg (cur_brk k) - pg t)"
      using brk_shrink_effect [OF assms(1) 4] by blast
    have t': "t < STACK_GUARD" using 4(4) kb(2) by simp
    have "only_pages R r (heap_pages (cur_brk k) \<union> heap_pages t) (mk_vm k) s'"
      by (rule only_pages_step [OF s'(3) only_pages_refl [where Q = "{}"]]) auto
    moreover have "card (heap_pages (cur_brk k)) - card (heap_pages t) = pg (cur_brk k) - pg t"
      using heap_range(3,7) [OF 4(3) t'] heap_range(3,7) [OF kb] by simp
    ultimately show ?thesis using s' 4 t' assms(2) by (simp add: cur_brk_def [of "k\<lparr>mk_vm := s', mk_brk := t\<rparr>"] flip: not_less)
  next
    case 5
    have t0: "t \<noteq> 0" "\<not> t < HEAP_BASE" "\<not> STACK_GUARD \<le> t" "\<not> t \<le> cur_brk k" using 5 kb by auto
    note G = brk_grow_effect [OF assms(1) 5 assms(2)]
    show ?thesis
    proof (cases res)
      case (Ok b)
      then have "only_pages R r (heap_pages (cur_brk k) \<union> heap_pages b) (mk_vm k) (mk_vm k')"
        using G only_pages_step [OF _ only_pages_refl [where Q = "{}"], of R r "heap_pages b" "mk_vm k" "mk_vm k'"] by auto
      then show ?thesis using G t0 5 unfolding Ok by auto
    qed (use G 5 in simp_all)
  next
    case 6
    then have "res = Ok EINVAL" "k' = k" using assms(2) kb(1)
      by (auto simp: sys_brk_def cur_brk_def Let_def HEAP_BASE_def split: if_splits)
    then show ?thesis using 6 assms(1) kb by auto
  qed
qed

section \<open>Mapping and unmapping single pages\<close>

definition user_flags :: "u64 \<Rightarrow> u64" where
  "user_flags fl = (fl AND (PF_PRESENT OR PF_WRITABLE OR PF_USER OR PF_NX)) OR PF_USER"

lemma user_flags_bits: "bit (user_flags fl) 0 = bit fl 0" "user_flags fl AND PHYS_ADDR_MASK = 0"
proof -
  have z: "PF_PRESENT AND PHYS_ADDR_MASK = 0" "PF_WRITABLE AND PHYS_ADDR_MASK = 0" "PF_USER AND PHYS_ADDR_MASK = 0"
    "PF_NX AND PHYS_ADDR_MASK = 0"
    by (simp_all add: PHYS_ADDR_MASK_def PF_PRESENT_def PF_WRITABLE_def PF_USER_def PF_NX_def)
  show "user_flags fl AND PHYS_ADDR_MASK = 0"
    unfolding user_flags_def bit.conj_disj_distrib2 and.assoc z by simp
  show "bit (user_flags fl) 0 = bit fl 0"
    by (simp add: user_flags_def bit_or_iff bit_and_iff PF_PRESENT_def PF_WRITABLE_def PF_USER_def PF_NX_def bit_simps)
qed

lemma sys_mmap_Ok:
  assumes "sys_mmap va fl k = (Ok 0, k1)" "mk_pt k = Some r"
  obtains a s1 s' where "take_frame (mk_vm k) = (Ok (Some a), s1)" "map_page_in r va a (user_flags fl) s1 = (Ok (), s')"
    "mk_vm k1 = s'" "mk_pt k1 = Some r" "va AND 0xFFF = 0" "USER_MIN \<le> va" "va < USER_MAX" "may_write_memory k"
proof -
  have e: "EINVAL \<noteq> 0" "ENOPERM \<noteq> 0" by (simp_all add: EINVAL_def ENOPERM_def)
  show ?thesis using assms e that
    by (auto simp: sys_mmap_def Let_def user_flags_def [symmetric] on_vm_def take_frame_def map_current_def bindS_def retS_def
        split: if_splits prod.splits bool.splits option.splits res.splits)
qed

lemma sys_munmap_Ok:
  assumes "sys_munmap va k = (Ok 0, k1)" "mk_pt k = Some r"
  obtains s' where "unmap_release r va (mk_vm k) = (Ok (), s')" "mk_vm k1 = s'"
proof -
  have e: "EINVAL \<noteq> 0" by (simp add: EINVAL_def)
  show ?thesis using assms e that
    by (auto simp: sys_munmap_def on_vm_def bindS_def retS_def
        split: if_splits prod.splits bool.splits option.splits res.splits)
qed

lemma map_absent:
  assumes "spaces_ok R s1" "r \<in> R" "map_page_in r va a (user_flags fl) s1 = (Ok (), s')" "\<not> bit fl 0"
  shows "query_page_in r va s' = None" "unmap_release r va s' = (Ok (), s')"
    "card (free_set (vm_pmm s')) \<le> card (free_set (vm_pmm s1))"
proof -
  have np: "\<not> is_present (pte_set a (user_flags fl))"
    using assms(4) user_flags_bits(1) by (simp add: present_bit pte_set_def bit_or_iff bit_and_iff mask_bits)
  obtain sx t where x: "extends R 3 s1 sx" "leaf_table sx r va = Some t"
    "s' = sx\<lparr>vm_tables := put_entry t (p1_idx va) (pte_set a (user_flags fl)) (vm_tables sx)\<rparr>"
    using map_page_in_cases [OF assms(1,2), of va a "user_flags fl"] assms(3) by (metis prod.inject res.distinct(3))
  have t: "translate s' r va = Missing"
    using spaces_leaf(4) [OF extends_ok [OF x(1)] assms(2) x(2) assms(2), of "pte_set a (user_flags fl)" va] np by (simp add: x(3))
  then show q: "query_page_in r va s' = None" using query_translate [of r va s'] by simp
  obtain got s3 where g: "unmap_page_in r va s' = (got, s3)" by (metis surj_pair)
  have ok: "spaces_ok R s'" using spaces_leaf(1) [OF extends_ok [OF x(1)] assms(2) x(2)] by (simp add: x(3))
  note E = unmap_page_in_effect(1,6) [OF ok assms(2) _ g]
  have "got = None" "s3 = s'" using E t q by simp_all
  then show "unmap_release r va s' = (Ok (), s')" using g by (simp add: unmap_release_def)
  show "card (free_set (vm_pmm s')) \<le> card (free_set (vm_pmm s1))"
    using x(1) by (auto simp: x(3) extends_def intro: card_mono)
qed


section \<open>A task with an address space of its own\<close>

definition demo_space :: u64 where
  "demo_space = (case fst (create_user_page_table demo_vmm) of Ok p4 \<Rightarrow> p4 | _ \<Rightarrow> 0)"

definition demo_memk :: memk where
  "demo_memk = \<lparr>mk_vm = snd (create_user_page_table demo_vmm),
     mk_caps = Some (snd (snd (create_root_cap 7 [] KindMemory RIGHTS_ALL 0))), mk_pt = Some demo_space, mk_brk = 0, mk_vmas = []\<rparr>"

lemma demo_memk_facts:
  "may_write_memory demo_memk" "spaces_ok {demo_space, pml4_phys demo_vmm} (mk_vm demo_memk)"
  "\<not> kernel_half va \<Longrightarrow> p3_idx va \<noteq> 0 \<Longrightarrow> translate (mk_vm demo_memk) demo_space va = Missing"
  "234 \<le> card (free_set (vm_pmm (mk_vm demo_memk)))"
proof -
  have "has_kind_with_rights (snd (snd (create_root_cap 7 [] KindMemory RIGHTS_ALL 0))) KindMemory WRITE" by code_simp
  then show "may_write_memory demo_memk" by (simp add: may_write_memory_def demo_memk_def)
  note C = create_spec [OF demo_vmm_facts(2) singletonI demo_vmm_facts(3)]
  obtain s' where e: "create_user_page_table demo_vmm = (Ok demo_space, s')" using C demo_vmm_facts(4)
    by (auto simp: demo_space_def split: prod.splits res.splits)
  then show "spaces_ok {demo_space, pml4_phys demo_vmm} (mk_vm demo_memk)" "234 \<le> card (free_set (vm_pmm (mk_vm demo_memk)))"
    "\<not> kernel_half va \<Longrightarrow> p3_idx va \<noteq> 0 \<Longrightarrow> translate (mk_vm demo_memk) demo_space va = Missing"
    using C demo_vmm_facts(4) by (simp_all add: demo_memk_def)
qed

lemma demo_brk_inv: "brk_inv {demo_space, pml4_phys demo_vmm} demo_space demo_memk"
proof -
  have "heap_pages (cur_brk demo_memk) = {}"
    by (simp add: heap_pages_def cur_brk_def demo_memk_def HEAP_BASE_def page_up_def page_of_def)
  moreover have "mk_pt demo_memk = Some demo_space" by (simp add: demo_memk_def)
  moreover have "brk_ok demo_memk" by (simp add: brk_ok_def cur_brk_def demo_memk_def HEAP_BASE_def STACK_GUARD_def)
  ultimately show ?thesis using demo_memk_facts(2) by (simp add: brk_inv_def mem_ok_def backed_def)
qed

theorem brk_backs_heap_witness:
  "\<exists>b k. sys_brk 0x400001000 demo_memk = (Ok b, k) \<and> cur_brk k = b \<and> HEAP_BASE \<le> b \<and> b \<le> 0x400001000
    \<and> brk_inv {demo_space, pml4_phys demo_vmm} demo_space k"
proof -
  obtain res k where s: "sys_brk 0x400001000 demo_memk = (res, k)" by (metis surj_pair)
  have c: "cur_brk demo_memk = HEAP_BASE" by (simp add: cur_brk_def demo_memk_def)
  have hp: "heap_pages 0x400001000 = {4194304}" "heap_pages HEAP_BASE = {}"
    by (auto simp: heap_pages_def HEAP_BASE_def page_up_def page_of_def)
  have "translate (mk_vm demo_memk) demo_space va = Missing" if "page_of va = 4194304" for va
  proof -
    have "page_of va = page_of 0x400000000" using that by (simp add: page_of_def)
    then have "indices va = indices 0x400000000" by (rule page_indices)
    then have "p4_idx va = 0" "p3_idx va = 16" by (simp_all add: indices_def p4_idx_def p3_idx_def)
    then show ?thesis by (intro demo_memk_facts(3)) (simp_all add: kernel_half_def)
  qed
  then show ?thesis using brk_backs_heap [OF demo_brk_inv s] s demo_memk_facts(1,4)
    by (cases res) (auto simp: hp c HEAP_BASE_def STACK_GUARD_def)
qed


end
