(* ===== verification/Spec2Isabelle.thy ===== *)
theory Spec2Isabelle
  imports Authority Rfs_Cow Kmem
begin

text \<open>
  A verification library for PureshadeOS.
\<close>

end
